theory Spec2Isabelle
  imports Complex_Main "HOL-Library.Word" "HOL-Library.Monad_Syntax"
begin

unbundle bit_operations_syntax

section \<open>The vocabulary dictionary of readable\_w2v\<close>

text \<open>
  The repository holds two variants of the same class \<^verbatim>\<open>fasttext::Dictionary\<close>:
  the words-only one (\<^verbatim>\<open>src/dictionary.cc\<close> with its header) and the label-aware one
  (the second \<^verbatim>\<open>dictionary.cc\<close>, whose header is not among the sources). Functions
  whose text is the same in both files (\<^verbatim>\<open>hash\<close>, \<^verbatim>\<open>find\<close>, \<^verbatim>\<open>getId\<close>,
  \<^verbatim>\<open>discard\<close>, \<^verbatim>\<open>readWord\<close>, \<^verbatim>\<open>reset\<close>) are embedded once, over record schemes;
  the others are embedded per variant, the label-aware ones with the suffix \<open>_L\<close>.

  A result of type \<open>'a option\<close> is \<open>None\<close> when the C++ call has no defined normal
  return: a probe that never ends, a vector read outside its bounds, a failed
  \<^verbatim>\<open>assert\<close>, or \<^verbatim>\<open>exit(EXIT_FAILURE)\<close>. Counters of type \<^verbatim>\<open>int32_t\<close> and
  \<^verbatim>\<open>int64_t\<close> are integers; their width is written out where values are serialised.
\<close>

subsection \<open>Constants and configuration\<close>

definition MAX_VOCAB_SIZE :: nat where
  "MAX_VOCAB_SIZE = 30000000"

definition MAX_LINE_SIZE :: int where
  "MAX_LINE_SIZE = 1024"

definition EOS :: string where
  "EOS = ''</s>''"

definition EOF :: int where
  "EOF = -1"

text \<open>
  Modelled from the spec: \<^verbatim>\<open>real.h\<close> is not among the sources. The spec calls the
  values of type \<^verbatim>\<open>real\<close> floating probabilities. They are modelled by their class and
  exact value: not-a-number, the two infinities, or a finite real. Rounding and the sign
  of zero are left out; comparisons with not-a-number are false, as in IEEE 754.
\<close>

datatype real_t = NaN | NInf | Fin real | PInf

fun real_div :: "real_t \<Rightarrow> real_t \<Rightarrow> real_t" where
  "real_div NaN _ = NaN"
| "real_div _ NaN = NaN"
| "real_div (Fin a) (Fin b) =
     (if b \<noteq> 0 then Fin (a / b) else if a = 0 then NaN else if 0 < a then PInf else NInf)"
| "real_div (Fin a) PInf = Fin 0"
| "real_div (Fin a) NInf = Fin 0"
| "real_div PInf (Fin b) = (if 0 \<le> b then PInf else NInf)"
| "real_div NInf (Fin b) = (if 0 \<le> b then NInf else PInf)"
| "real_div PInf PInf = NaN"
| "real_div PInf NInf = NaN"
| "real_div NInf PInf = NaN"
| "real_div NInf NInf = NaN"

fun real_add :: "real_t \<Rightarrow> real_t \<Rightarrow> real_t" where
  "real_add NaN _ = NaN"
| "real_add _ NaN = NaN"
| "real_add (Fin a) (Fin b) = Fin (a + b)"
| "real_add PInf NInf = NaN"
| "real_add NInf PInf = NaN"
| "real_add PInf _ = PInf"
| "real_add _ PInf = PInf"
| "real_add NInf _ = NInf"
| "real_add _ NInf = NInf"

fun real_sqrt :: "real_t \<Rightarrow> real_t" where
  "real_sqrt NaN = NaN"
| "real_sqrt NInf = NaN"
| "real_sqrt PInf = PInf"
| "real_sqrt (Fin a) = (if a < 0 then NaN else Fin (sqrt a))"

fun real_gt :: "real_t \<Rightarrow> real_t \<Rightarrow> bool" where
  "real_gt NaN _ = False"
| "real_gt _ NaN = False"
| "real_gt (Fin a) (Fin b) = (b < a)"
| "real_gt PInf PInf = False"
| "real_gt PInf _ = True"
| "real_gt NInf _ = False"
| "real_gt (Fin a) PInf = False"
| "real_gt (Fin a) NInf = True"

text \<open>
  Modelled from the spec: \<^verbatim>\<open>args.h\<close> is not among the sources. The record holds the
  options the dictionary reads through \<^verbatim>\<open>args_\<close>: the training mode, the subsampling
  target \<^verbatim>\<open>t\<close>, the count thresholds, the label marker and the verbosity.
\<close>

datatype model_name = model_cbow | model_sg | model_sup

record Args =
  model :: model_name
  t_sampling :: real_t
  minCount :: int
  minCountLabel :: int
  label :: string
  verbose :: int

subsection \<open>Entries and the dictionary state\<close>

datatype entry_type = Word | Label

record entry =
  word :: string
  count :: int

record entry_L = entry +
  type :: entry_type

text \<open>
  The members \<^verbatim>\<open>words_\<close>, \<^verbatim>\<open>nwords_\<close>, ... are the fields \<open>words_m\<close>, \<open>nwords_m\<close>, ...
  The hash index \<^verbatim>\<open>word2int_\<close> is a vector of \<^verbatim>\<open>MAX_VOCAB_SIZE\<close> slots; it is a
  function on slot numbers, of which only those below \<^verbatim>\<open>MAX_VOCAB_SIZE\<close> are ever
  read or written. The prune map \<^verbatim>\<open>pruneidx_\<close> is an association list in iteration
  order.
\<close>

record 'e Dictionary =
  args_m :: Args
  word2int_m :: "nat \<Rightarrow> int"
  words_m :: "'e list"
  pdiscard_m :: "real_t list"
  nwords_m :: int
  ntokens_m :: int
  pruneidx_size_m :: int
  pruneidx_m :: "(int \<times> int) list"

record 'e Dictionary_L = "'e Dictionary" +
  size_m :: int
  nlabels_m :: int

definition Dictionary_init :: "Args \<Rightarrow> entry Dictionary" where
  "Dictionary_init a =
     \<lparr>args_m = a, word2int_m = (\<lambda>_. -1), words_m = [], pdiscard_m = [],
      nwords_m = 0, ntokens_m = 0, pruneidx_size_m = -1, pruneidx_m = []\<rparr>"

text \<open>The label-aware constructor leaves \<^verbatim>\<open>size_\<close> uninitialised; it is a parameter.\<close>

definition Dictionary_init_L :: "Args \<Rightarrow> int \<Rightarrow> entry_L Dictionary_L" where
  "Dictionary_init_L a sz =
     \<lparr>args_m = a, word2int_m = (\<lambda>_. -1), words_m = [], pdiscard_m = [],
      nwords_m = 0, ntokens_m = 0, pruneidx_size_m = -1, pruneidx_m = [],
      size_m = sz, nlabels_m = 0\<rparr>"

subsection \<open>Hashing and the linear probe\<close>

text \<open>
  \<^verbatim>\<open>uint32_t(str[i])\<close> converts a \<^verbatim>\<open>char\<close>, which is signed on the platforms the
  code runs on (its end-of-stream test in \<^verbatim>\<open>readWord\<close> relies on it), so bytes from
  128 on are sign-extended.
\<close>

definition schar :: "char \<Rightarrow> int" where
  "schar c = (if of_char c < (128::int) then of_char c else of_char c - 256)"

fun hash_loop :: "string \<Rightarrow> 32 word \<Rightarrow> 32 word" where
  "hash_loop [] h = h"
| "hash_loop (c # str) h = hash_loop str ((h XOR word_of_int (schar c)) * 16777619)"

definition hash :: "string \<Rightarrow> 32 word" where
  "hash str = hash_loop str 2166136261"

text \<open>
  The loop of \<^verbatim>\<open>find\<close>. It has no bound of its own: on a table without a free slot
  and without the word it runs forever, which is the value \<open>None\<close>. \<open>None\<close> is also
  the result when a slot holds a number that is no index of \<^verbatim>\<open>words_\<close>.
\<close>

partial_function (option) find_loop ::
  "(nat \<Rightarrow> int) \<Rightarrow> ('a entry_scheme) list \<Rightarrow> string \<Rightarrow> nat \<Rightarrow> nat option" where
  "find_loop w2i ws w i =
     (if w2i i \<noteq> -1 then
        (if w2i i < 0 \<or> int (length ws) \<le> w2i i then None
         else if word (ws ! nat (w2i i)) \<noteq> w
           then find_loop w2i ws w ((i + 1) mod MAX_VOCAB_SIZE)
           else Some i)
      else Some i)"

definition find_h ::
  "('a entry_scheme, 'z) Dictionary_scheme \<Rightarrow> string \<Rightarrow> 32 word \<Rightarrow> nat option" where
  "find_h d w h = find_loop (word2int_m d) (words_m d) w (unat h mod MAX_VOCAB_SIZE)"

definition find_w :: "('a entry_scheme, 'z) Dictionary_scheme \<Rightarrow> string \<Rightarrow> nat option" where
  "find_w d w = find_h d w (hash w)"

definition getId_h ::
  "('a entry_scheme, 'z) Dictionary_scheme \<Rightarrow> string \<Rightarrow> 32 word \<Rightarrow> int option" where
  "getId_h d w h = do { i \<leftarrow> find_h d w h; Some (word2int_m d i) }"

definition getId :: "('a entry_scheme, 'z) Dictionary_scheme \<Rightarrow> string \<Rightarrow> int option" where
  "getId d w = do { h \<leftarrow> find_w d w; Some (word2int_m d h) }"

subsection \<open>The corpus reader\<close>

text \<open>
  An input stream is its content, the position of the get pointer and the end-of-file
  flag. The fail flag is set in this code only together with the end-of-file flag, so it
  is not kept apart.
\<close>

record istream =
  content :: string
  gpos :: nat
  eofbit :: bool

definition sbumpc :: "istream \<Rightarrow> int \<times> istream" where
  "sbumpc s =
     (if gpos s < length (content s)
      then (of_char (content s ! gpos s), s\<lparr>gpos := gpos s + 1\<rparr>)
      else (EOF, s))"

definition sungetc :: "istream \<Rightarrow> istream" where
  "sungetc s = s\<lparr>gpos := gpos s - 1\<rparr>"

text \<open>\<^verbatim>\<open>in.get()\<close>: nothing is read once the stream is not good.\<close>

definition get :: "istream \<Rightarrow> int \<times> istream" where
  "get s =
     (if eofbit s then (EOF, s)
      else if gpos s < length (content s)
        then (of_char (content s ! gpos s), s\<lparr>gpos := gpos s + 1\<rparr>)
        else (EOF, s\<lparr>eofbit := True\<rparr>))"

definition is_separator :: "char \<Rightarrow> bool" where
  "is_separator c \<longleftrightarrow>
     c = CHR '' '' \<or> c = CHR 0x0A \<or> c = CHR 0x0D \<or> c = CHR 0x09 \<or> c = CHR 0x0B \<or>
     c = CHR 0x0C \<or> c = CHR 0x00"

text \<open>
  The loop of \<^verbatim>\<open>readWord\<close>. The value of \<^verbatim>\<open>sbumpc\<close> is stored in a \<^verbatim>\<open>char\<close>
  before it is compared with \<^verbatim>\<open>EOF\<close>: the byte 255 becomes the character \<open>-1\<close> and
  ends the loop like the end of the stream does.
\<close>

function readWord_loop :: "istream \<Rightarrow> string \<Rightarrow> bool \<times> string \<times> istream" where
  "readWord_loop s w =
     (let (r, s1) = sbumpc s; c = (char_of r :: char) in
      if schar c \<noteq> EOF then
        (if is_separator c then
           (if w = [] then
              (if c = CHR 0x0A then (True, w @ EOS, s1)
               else readWord_loop s1 w)
            else (True, w, if c = CHR 0x0A then sungetc s1 else s1))
         else readWord_loop s1 (w @ [c]))
      else (w \<noteq> [], w, snd (get s1)))"
  by pat_completeness auto
termination
proof (relation "measure (\<lambda>(s, w). length (content s) - gpos s)")
  show "wf (measure (\<lambda>(s, w). length (content s) - gpos s))" by simp
next
  fix s :: istream and w :: string and x r s1 c
  assume "x = sbumpc s" "(r, s1) = x" "c = (char_of r :: char)" "schar c \<noteq> EOF"
  then show "((s1, w), (s, w)) \<in> measure (\<lambda>(s, w). length (content s) - gpos s)"
    by (auto simp: sbumpc_def schar_def EOF_def split: if_splits)
next
  fix s :: istream and w :: string and x r s1 c
  assume "x = sbumpc s" "(r, s1) = x" "c = (char_of r :: char)" "schar c \<noteq> EOF"
  then show "((s1, w @ [c]), (s, w)) \<in> measure (\<lambda>(s, w). length (content s) - gpos s)"
    by (auto simp: sbumpc_def schar_def EOF_def split: if_splits)
qed

declare readWord_loop.simps [simp del]

definition readWord :: "istream \<Rightarrow> bool \<times> string \<times> istream" where
  "readWord s = readWord_loop s []"

definition reset :: "istream \<Rightarrow> istream" where
  "reset s = (if eofbit s then s\<lparr>eofbit := False, gpos := 0\<rparr> else s)"


text \<open>
  A call of \<^verbatim>\<open>readWord\<close> that returns true has moved the get pointer forward: the
  loops that call it until it fails end.
\<close>

lemma readWord_loop_remaining:
  "readWord_loop s w = (True, w', s') \<Longrightarrow>
     content s' = content s \<and>
     length (content s) - gpos s' \<le> length (content s) - gpos s \<and>
     (w = [] \<longrightarrow> length (content s) - gpos s' < length (content s) - gpos s)"
proof (induction s w arbitrary: w' s' rule: readWord_loop.induct)
  case (1 s w)
  obtain r s1 where b: "sbumpc s = (r, s1)" by (cases "sbumpc s")
  define c where "c = (char_of r :: char)"
  have "readWord_loop s w =
     (if schar c \<noteq> EOF then
        (if is_separator c then
           (if w = [] then
              (if c = CHR 0x0A then (True, w @ EOS, s1)
               else readWord_loop s1 w)
            else (True, w, if c = CHR 0x0A then sungetc s1 else s1))
         else readWord_loop s1 (w @ [c]))
      else (w \<noteq> [], w, snd (get s1)))"
    by (subst readWord_loop.simps) (simp only: b Let_def prod.case c_def)
  from this [symmetric] "1.prems" have unf:
    "(if schar c \<noteq> EOF then
        (if is_separator c then
           (if w = [] then
              (if c = CHR 0x0A then (True, w @ EOS, s1)
               else readWord_loop s1 w)
            else (True, w, if c = CHR 0x0A then sungetc s1 else s1))
         else readWord_loop s1 (w @ [c]))
      else (w \<noteq> [], w, snd (get s1))) = (True, w', s')"
    by (rule trans)
  show ?case
  proof (cases "schar c \<noteq> EOF")
    case False
    with unf have "w \<noteq> []" "s' = snd (get s1)" by auto
    moreover from b have "content s1 = content s" "gpos s \<le> gpos s1"
      by (auto simp: sbumpc_def split: if_splits)
    ultimately show ?thesis
      by (auto simp: get_def split: if_splits)
  next
    case True
    with b c_def have s1: "content s1 = content s" "gpos s1 = gpos s + 1"
        "gpos s < length (content s)"
      by (auto simp: sbumpc_def schar_def EOF_def split: if_splits)
    show ?thesis
    proof (cases "is_separator c")
      case sep: True
      show ?thesis
      proof (cases "w = []")
        case wnil: True
        show ?thesis
        proof (cases "c = CHR 0x0A")
          case True
          with unf \<open>schar c \<noteq> EOF\<close> sep wnil s1 show ?thesis by auto
        next
          case False
          with unf \<open>schar c \<noteq> EOF\<close> sep wnil
          have "readWord_loop s1 w = (True, w', s')" by auto
          from "1.IH"(1) [OF b [symmetric] refl c_def \<open>schar c \<noteq> EOF\<close> sep wnil False this]
          show ?thesis using s1 by auto
        qed
      next
        case False
        with unf \<open>schar c \<noteq> EOF\<close> sep s1 show ?thesis
          by (auto simp: sungetc_def split: if_splits)
      qed
    next
      case False
      with unf \<open>schar c \<noteq> EOF\<close>
      have "readWord_loop s1 (w @ [c]) = (True, w', s')" by auto
      from "1.IH"(2) [OF b [symmetric] refl c_def \<open>schar c \<noteq> EOF\<close> False this]
      show ?thesis using s1 by auto
    qed
  qed
qed

lemma readWord_remaining:
  "readWord s = (True, w, s') \<Longrightarrow>
     length (content s') - gpos s' < length (content s) - gpos s"
  using readWord_loop_remaining [of s "[]" w s'] by (simp add: readWord_def)

subsection \<open>Subsampling\<close>

definition discard :: "('e, 'z) Dictionary_scheme \<Rightarrow> int \<Rightarrow> real_t \<Rightarrow> bool option" where
  "discard d i rand =
     (if \<not> 0 \<le> i then None
      else if \<not> i < nwords_m d then None
      else if model (args_m d) = model_sup then Some False
      else if nat i < length (pdiscard_m d) then Some (real_gt rand (pdiscard_m d ! nat i))
      else None)"

text \<open>The probability \<^verbatim>\<open>std::sqrt(args_->t / f) + args_->t / f\<close> of one entry.\<close>

definition pdiscard_of :: "Args \<Rightarrow> int \<Rightarrow> int \<Rightarrow> real_t" where
  "pdiscard_of a cnt ntok =
     (let f = real_div (Fin (of_int cnt)) (Fin (of_int ntok)) in
      real_add (real_sqrt (real_div (t_sampling a) f)) (real_div (t_sampling a) f))"

definition initTableDiscard :: "entry Dictionary \<Rightarrow> entry Dictionary option" where
  "initTableDiscard d =
     (if nwords_m d < 0 \<or> int (length (words_m d)) < nwords_m d then None
      else Some (d\<lparr>pdiscard_m :=
        map (\<lambda>e. pdiscard_of (args_m d) (count e) (ntokens_m d))
          (take (nat (nwords_m d)) (words_m d))\<rparr>))"

text \<open>
  The generator \<^verbatim>\<open>std::minstd_rand\<close> with the distribution \<^verbatim>\<open>uniform(0, 1)\<close> is the
  sequence of the numbers it will draw.
\<close>

type_synonym minstd_rand = "nat \<Rightarrow> real_t"

definition uniform :: "minstd_rand \<Rightarrow> real_t \<times> minstd_rand" where
  "uniform rng = (rng 0, \<lambda>n. rng (Suc n))"

subsection \<open>The words-only dictionary\<close>

definition add_w :: "entry Dictionary \<Rightarrow> string \<Rightarrow> entry Dictionary option" where
  "add_w d w = do {
     h \<leftarrow> find_w d w;
     let d = d\<lparr>ntokens_m := ntokens_m d + 1\<rparr>;
     if word2int_m d h = -1 then
       Some (d\<lparr>words_m := words_m d @ [\<lparr>word = w, count = 1\<rparr>],
               word2int_m := (word2int_m d)(h := nwords_m d),
               nwords_m := nwords_m d + 1\<rparr>)
     else
       Some (d\<lparr>words_m := (words_m d)[nat (word2int_m d h) :=
               (words_m d ! nat (word2int_m d h))
                 \<lparr>count := count (words_m d ! nat (word2int_m d h)) + 1\<rparr>]\<rparr>)
   }"

text \<open>
  \<^verbatim>\<open>std::sort\<close> with a comparator. It leaves the order of entries that the comparator
  does not tell apart open; the model keeps them in their former order.
\<close>

fun insert_by :: "('a \<Rightarrow> 'a \<Rightarrow> bool) \<Rightarrow> 'a \<Rightarrow> 'a list \<Rightarrow> 'a list" where
  "insert_by lt x [] = [x]"
| "insert_by lt x (y # ys) = (if lt y x then y # insert_by lt x ys else x # y # ys)"

definition sort_by :: "('a \<Rightarrow> 'a \<Rightarrow> bool) \<Rightarrow> 'a list \<Rightarrow> 'a list" where
  "sort_by lt xs = foldr (insert_by lt) xs []"

fun threshold_loop :: "entry Dictionary \<Rightarrow> entry list \<Rightarrow> entry Dictionary option" where
  "threshold_loop d [] = Some d"
| "threshold_loop d (e # it) = do {
     h \<leftarrow> find_w d (word e);
     threshold_loop
       (d\<lparr>word2int_m := (word2int_m d)(h := nwords_m d), nwords_m := nwords_m d + 1\<rparr>) it
   }"

definition threshold :: "entry Dictionary \<Rightarrow> int \<Rightarrow> entry Dictionary option" where
  "threshold d t =
     (let ws = filter (\<lambda>e. \<not> count e < t)
                (sort_by (\<lambda>e1 e2. count e1 > count e2) (words_m d)) in
      threshold_loop (d\<lparr>words_m := ws, nwords_m := 0, word2int_m := (\<lambda>_. -1)\<rparr>) ws)"

function readFromFile_loop ::
  "entry Dictionary \<Rightarrow> istream \<Rightarrow> int \<Rightarrow> (entry Dictionary \<times> istream) option" where
  "readFromFile_loop d s minThreshold =
     (case readWord s of
        (False, w, s') \<Rightarrow> Some (d, s')
      | (True, w, s') \<Rightarrow> do {
          d \<leftarrow> add_w d w;
          if nwords_m d > 22500000 then do {
            d \<leftarrow> threshold d (minThreshold + 1);
            readFromFile_loop d s' (minThreshold + 1)
          } else readFromFile_loop d s' minThreshold
        })"
  by pat_completeness auto
termination
  by (relation "measure (\<lambda>(d, s, m). length (content s) - gpos s)")
    (auto dest: readWord_remaining [OF sym])

declare readFromFile_loop.simps [simp del]

definition readFromFile ::
  "entry Dictionary \<Rightarrow> istream \<Rightarrow> (entry Dictionary \<times> istream) option" where
  "readFromFile d s = do {
     (d, s) \<leftarrow> readFromFile_loop d s 1;
     d \<leftarrow> threshold d (minCount (args_m d));
     d \<leftarrow> initTableDiscard d;
     if nwords_m d = 0 then None else Some (d, s)
   }"

function getLine_loop ::
  "entry Dictionary \<Rightarrow> istream \<Rightarrow> int list \<Rightarrow> minstd_rand \<Rightarrow> int \<Rightarrow>
     (int \<times> int list \<times> istream \<times> minstd_rand) option" where
  "getLine_loop d s ws rng n =
     (case readWord s of
        (False, token, s') \<Rightarrow> Some (n, ws, s', rng)
      | (True, token, s') \<Rightarrow> do {
          h \<leftarrow> find_w d token;
          let wid = word2int_m d h;
          if wid < 0 then getLine_loop d s' ws rng n
          else do {
            let n = n + 1;
            let (r, rng) = uniform rng;
            b \<leftarrow> discard d wid r;
            let ws = (if \<not> b then ws @ [wid] else ws);
            if n > MAX_LINE_SIZE \<or> token = EOS then Some (n, ws, s', rng)
            else getLine_loop d s' ws rng n
          }
        })"
  by pat_completeness auto
termination
  by (relation "measure (\<lambda>(d, s, ws, rng, n). length (content s) - gpos s)")
    (auto dest: readWord_remaining [OF sym])

declare getLine_loop.simps [simp del]

definition getLine ::
  "entry Dictionary \<Rightarrow> istream \<Rightarrow> minstd_rand \<Rightarrow>
     (int \<times> int list \<times> istream \<times> minstd_rand) option" where
  "getLine d s rng = getLine_loop d (reset s) [] rng 0"


subsection \<open>The binary format\<close>

text \<open>
  \<^verbatim>\<open>out.write((char*) &x, n)\<close> writes the \<open>n\<close> bytes of \<open>x\<close>, lowest first (the spec
  fixes little-endian); \<^verbatim>\<open>in.read\<close> reads them back as a two's complement number.
  An output stream is the list of bytes written so far.
\<close>

fun le_bytes :: "nat \<Rightarrow> int \<Rightarrow> string" where
  "le_bytes 0 x = []"
| "le_bytes (Suc n) x = char_of x # le_bytes n (x div 256)"

fun le_value :: "string \<Rightarrow> int" where
  "le_value [] = 0"
| "le_value (b # bs) = of_char b + 256 * le_value bs"

definition int_of_bytes :: "string \<Rightarrow> int" where
  "int_of_bytes bs =
     (if 2 * le_value bs \<ge> 256 ^ length bs then le_value bs - 256 ^ length bs
      else le_value bs)"

text \<open>
  \<^verbatim>\<open>in.read\<close> of \<open>n\<close> bytes. Reading beyond the end of the stream leaves the target
  partly unset; the source does not check for it, and the model has no result there.
\<close>

definition read :: "istream \<Rightarrow> nat \<Rightarrow> (string \<times> istream) option" where
  "read s n =
     (if \<not> eofbit s \<and> gpos s + n \<le> length (content s)
      then Some (take n (drop (gpos s) (content s)), s\<lparr>gpos := gpos s + n\<rparr>)
      else None)"

definition save :: "entry Dictionary \<Rightarrow> string \<Rightarrow> string option" where
  "save d out =
     (if int (length (words_m d)) < nwords_m d then None
      else Some (out @ le_bytes 4 (nwords_m d) @ le_bytes 8 (ntokens_m d) @
        le_bytes 8 (pruneidx_size_m d) @
        concat (map (\<lambda>e. word e @ [CHR 0x00] @ le_bytes 8 (count e))
          (take (nat (nwords_m d)) (words_m d))) @
        concat (map (\<lambda>(k, v). le_bytes 4 k @ le_bytes 4 v) (pruneidx_m d))))"

text \<open>
  The loop \<^verbatim>\<open>while ((c = in.get()) != 0)\<close> of \<^verbatim>\<open>load\<close>. At the end of the stream
  \<^verbatim>\<open>in.get()\<close> keeps returning \<^verbatim>\<open>EOF\<close>, which is not 0 as a \<^verbatim>\<open>char\<close>: the loop
  does not end.
\<close>

function load_word :: "istream \<Rightarrow> string \<Rightarrow> (string \<times> istream) option" where
  "load_word s w =
     (let (r, s1) = get s; c = (char_of r :: char) in
      if c \<noteq> CHR 0x00 then
        (if r = EOF then None else load_word s1 (w @ [c]))
      else Some (w, s1))"
  by pat_completeness auto
termination
  by (relation "measure (\<lambda>(s, w). length (content s) - gpos s)")
    (auto simp: get_def EOF_def split: if_splits)

declare load_word.simps [simp del]

fun load_entries ::
  "entry Dictionary \<Rightarrow> istream \<Rightarrow> nat \<Rightarrow> int \<Rightarrow> (entry Dictionary \<times> istream) option" where
  "load_entries d s 0 i = Some (d, s)"
| "load_entries d s (Suc k) i = do {
     (w, s) \<leftarrow> load_word s [];
     (b, s) \<leftarrow> read s 8;
     let e = \<lparr>word = w, count = int_of_bytes b\<rparr>;
     let d = d\<lparr>words_m := words_m d @ [e]\<rparr>;
     h \<leftarrow> find_w d (word e);
     load_entries (d\<lparr>word2int_m := (word2int_m d)(h := i)\<rparr>) s k (i + 1)
   }"

text \<open>\<^verbatim>\<open>pruneidx_[first] = second\<close> on the association list.\<close>

fun assign :: "(int \<times> int) list \<Rightarrow> int \<Rightarrow> int \<Rightarrow> (int \<times> int) list" where
  "assign [] k v = [(k, v)]"
| "assign (p # ps) k v = (if fst p = k then (k, v) # ps else p # assign ps k v)"

fun load_pruneidx ::
  "('e, 'z) Dictionary_scheme \<Rightarrow> istream \<Rightarrow> nat \<Rightarrow>
     (('e, 'z) Dictionary_scheme \<times> istream) option" where
  "load_pruneidx d s 0 = Some (d, s)"
| "load_pruneidx d s (Suc k) = do {
     (first, s) \<leftarrow> read s 4;
     (second, s) \<leftarrow> read s 4;
     load_pruneidx
       (d\<lparr>pruneidx_m := assign (pruneidx_m d) (int_of_bytes first) (int_of_bytes second)\<rparr>) s k
   }"

definition load :: "entry Dictionary \<Rightarrow> istream \<Rightarrow> (entry Dictionary \<times> istream) option" where
  "load d s = do {
     let d = d\<lparr>words_m := [], word2int_m := (\<lambda>_. -1)\<rparr>;
     (b, s) \<leftarrow> read s 4;
     let d = d\<lparr>nwords_m := int_of_bytes b\<rparr>;
     (b, s) \<leftarrow> read s 8;
     let d = d\<lparr>ntokens_m := int_of_bytes b\<rparr>;
     (b, s) \<leftarrow> read s 8;
     let d = d\<lparr>pruneidx_size_m := int_of_bytes b\<rparr>;
     (d, s) \<leftarrow> load_entries d s (nat (nwords_m d)) 0;
     let d = d\<lparr>pruneidx_m := []\<rparr>;
     (d, s) \<leftarrow> load_pruneidx d s (nat (pruneidx_size_m d));
     d \<leftarrow> initTableDiscard d;
     Some (d, s)
   }"

subsection \<open>Pruning\<close>

function prune_loop ::
  "entry Dictionary \<Rightarrow> int list \<Rightarrow> nat \<Rightarrow> nat \<Rightarrow> entry Dictionary option" where
  "prune_loop d ws i j =
     (if i < length (words_m d) then
        (if j < length ws \<and> ws ! j = int i then
           (if \<not> j < length (words_m d) then None
            else do {
              let d = d\<lparr>words_m := (words_m d)[j := words_m d ! i]\<rparr>;
              h \<leftarrow> find_w d (word (words_m d ! j));
              prune_loop (d\<lparr>word2int_m := (word2int_m d)(h := int j)\<rparr>) ws (i + 1) (j + 1)
            })
         else prune_loop d ws (i + 1) j)
      else Some d)"
  by pat_completeness auto
termination
  by (relation "measure (\<lambda>(d, ws, i, j). length (words_m d) - i)") auto

declare prune_loop.simps [simp del]

text \<open>
  \<^verbatim>\<open>prune\<close> changes its argument \<^verbatim>\<open>idx\<close> too; the new value is the second component
  of the result.
\<close>

definition prune :: "entry Dictionary \<Rightarrow> int list \<Rightarrow> (entry Dictionary \<times> int list) option" where
  "prune d idx =
     (let ws = sort (filter (\<lambda>x. x < nwords_m d) idx);
          d = d\<lparr>pruneidx_size_m := int (length (pruneidx_m d)), word2int_m := (\<lambda>_. -1)\<rparr>
      in do {
        d \<leftarrow> prune_loop d ws 0 0;
        Some (d\<lparr>nwords_m := int (length ws)\<rparr>, ws)
      })"


subsection \<open>The label-aware dictionary\<close>

text \<open>
  Modelled from the spec: the header of the label-aware variant is not among the sources.
  Its entry has the additional member \<^verbatim>\<open>type\<close> and its dictionary the members
  \<^verbatim>\<open>size_\<close> and \<^verbatim>\<open>nlabels_\<close>; the type tag is the enum ordinal in one byte (word 0,
  label 1), and a word is a label iff it starts with the configured label marker.
\<close>

definition getType_w :: "('e, 'z) Dictionary_scheme \<Rightarrow> string \<Rightarrow> entry_type" where
  "getType_w d w =
     (if take (length (label (args_m d))) w = label (args_m d) then Label else Word)"

definition getType_i :: "('a entry_L_scheme, 'z) Dictionary_L_scheme \<Rightarrow> int \<Rightarrow> entry_type option" where
  "getType_i d i =
     (if \<not> 0 \<le> i then None
      else if \<not> i < size_m d then None
      else if nat i < length (words_m d) then Some (type (words_m d ! nat i))
      else None)"

definition add_L :: "entry_L Dictionary_L \<Rightarrow> string \<Rightarrow> entry_L Dictionary_L option" where
  "add_L d w = do {
     h \<leftarrow> find_w d w;
     let d = d\<lparr>ntokens_m := ntokens_m d + 1\<rparr>;
     if word2int_m d h = -1 then
       Some (d\<lparr>words_m := words_m d @ [\<lparr>word = w, count = 1, type = getType_w d w\<rparr>],
               word2int_m := (word2int_m d)(h := size_m d),
               size_m := size_m d + 1\<rparr>)
     else
       Some (d\<lparr>words_m := (words_m d)[nat (word2int_m d h) :=
               (words_m d ! nat (word2int_m d h))
                 \<lparr>count := count (words_m d ! nat (word2int_m d h)) + 1\<rparr>]\<rparr>)
   }"

definition type_less :: "entry_type \<Rightarrow> entry_type \<Rightarrow> bool" where
  "type_less a b \<longleftrightarrow> a = Word \<and> b = Label"

fun threshold_loop_L :: "entry_L Dictionary_L \<Rightarrow> entry_L list \<Rightarrow> entry_L Dictionary_L option" where
  "threshold_loop_L d [] = Some d"
| "threshold_loop_L d (e # it) = do {
     h \<leftarrow> find_w d (word e);
     let d = d\<lparr>word2int_m := (word2int_m d)(h := size_m d), size_m := size_m d + 1\<rparr>;
     let d = (if type e = Word then d\<lparr>nwords_m := nwords_m d + 1\<rparr> else d);
     let d = (if type e = Label then d\<lparr>nlabels_m := nlabels_m d + 1\<rparr> else d);
     threshold_loop_L d it
   }"

definition threshold_L :: "entry_L Dictionary_L \<Rightarrow> int \<Rightarrow> int \<Rightarrow> entry_L Dictionary_L option" where
  "threshold_L d t t_l =
     (let ws = filter (\<lambda>e. \<not> ((type e = Word \<and> count e < t) \<or> (type e = Label \<and> count e < t_l)))
                (sort_by (\<lambda>e1 e2. if type e1 \<noteq> type e2 then type_less (type e1) (type e2)
                                   else count e1 > count e2) (words_m d)) in
      threshold_loop_L
        (d\<lparr>words_m := ws, size_m := 0, nwords_m := 0, nlabels_m := 0,
           word2int_m := (\<lambda>_. -1)\<rparr>) ws)"

function readFromFile_loop_L ::
  "entry_L Dictionary_L \<Rightarrow> istream \<Rightarrow> int \<Rightarrow> (entry_L Dictionary_L \<times> istream) option" where
  "readFromFile_loop_L d s minThreshold =
     (case readWord s of
        (False, w, s') \<Rightarrow> Some (d, s')
      | (True, w, s') \<Rightarrow> do {
          d \<leftarrow> add_L d w;
          if size_m d > 22500000 then do {
            d \<leftarrow> threshold_L d (minThreshold + 1) (minThreshold + 1);
            readFromFile_loop_L d s' (minThreshold + 1)
          } else readFromFile_loop_L d s' minThreshold
        })"
  by pat_completeness auto
termination
  by (relation "measure (\<lambda>(d, s, m). length (content s) - gpos s)")
    (auto dest: readWord_remaining [OF sym])

declare readFromFile_loop_L.simps [simp del]

definition initTableDiscard_L :: "entry_L Dictionary_L \<Rightarrow> entry_L Dictionary_L option" where
  "initTableDiscard_L d =
     (if size_m d < 0 \<or> int (length (words_m d)) < size_m d then None
      else Some (d\<lparr>pdiscard_m :=
        map (\<lambda>e. pdiscard_of (args_m d) (count e) (ntokens_m d))
          (take (nat (size_m d)) (words_m d))\<rparr>))"

definition readFromFile_L ::
  "entry_L Dictionary_L \<Rightarrow> istream \<Rightarrow> (entry_L Dictionary_L \<times> istream) option" where
  "readFromFile_L d s = do {
     (d, s) \<leftarrow> readFromFile_loop_L d s 1;
     d \<leftarrow> threshold_L d (minCount (args_m d)) (minCountLabel (args_m d));
     d \<leftarrow> initTableDiscard_L d;
     if size_m d = 0 then None else Some (d, s)
   }"




definition byte_of_type :: "entry_type \<Rightarrow> char" where
  "byte_of_type ty = (case ty of Word \<Rightarrow> CHR 0x00 | Label \<Rightarrow> CHR 0x01)"

definition type_of_byte :: "char \<Rightarrow> entry_type option" where
  "type_of_byte b = (if b = CHR 0x00 then Some Word else if b = CHR 0x01 then Some Label else None)"

definition save_L :: "entry_L Dictionary_L \<Rightarrow> string \<Rightarrow> string option" where
  "save_L d out =
     (if int (length (words_m d)) < size_m d then None
      else Some (out @ le_bytes 4 (size_m d) @ le_bytes 4 (nwords_m d) @
        le_bytes 4 (nlabels_m d) @ le_bytes 8 (ntokens_m d) @
        le_bytes 8 (pruneidx_size_m d) @
        concat (map (\<lambda>e. word e @ [CHR 0x00] @ le_bytes 8 (count e) @ [byte_of_type (type e)])
          (take (nat (size_m d)) (words_m d))) @
        concat (map (\<lambda>(k, v). le_bytes 4 k @ le_bytes 4 v) (pruneidx_m d))))"

fun load_entries_L ::
  "entry_L Dictionary_L \<Rightarrow> istream \<Rightarrow> nat \<Rightarrow> int \<Rightarrow>
     (entry_L Dictionary_L \<times> istream) option" where
  "load_entries_L d s 0 i = Some (d, s)"
| "load_entries_L d s (Suc k) i = do {
     (w, s) \<leftarrow> load_word s [];
     (b, s) \<leftarrow> read s 8;
     (tb, s) \<leftarrow> read s 1;
     ty \<leftarrow> type_of_byte (hd tb);
     let e = \<lparr>word = w, count = int_of_bytes b, type = ty\<rparr>;
     let d = d\<lparr>words_m := words_m d @ [e]\<rparr>;
     h \<leftarrow> find_w d (word e);
     load_entries_L (d\<lparr>word2int_m := (word2int_m d)(h := i)\<rparr>) s k (i + 1)
   }"

definition load_L ::
  "entry_L Dictionary_L \<Rightarrow> istream \<Rightarrow> (entry_L Dictionary_L \<times> istream) option" where
  "load_L d s = do {
     let d = d\<lparr>words_m := [], word2int_m := (\<lambda>_. -1)\<rparr>;
     (b, s) \<leftarrow> read s 4;
     let d = d\<lparr>size_m := int_of_bytes b\<rparr>;
     (b, s) \<leftarrow> read s 4;
     let d = d\<lparr>nwords_m := int_of_bytes b\<rparr>;
     (b, s) \<leftarrow> read s 4;
     let d = d\<lparr>nlabels_m := int_of_bytes b\<rparr>;
     (b, s) \<leftarrow> read s 8;
     let d = d\<lparr>ntokens_m := int_of_bytes b\<rparr>;
     (b, s) \<leftarrow> read s 8;
     let d = d\<lparr>pruneidx_size_m := int_of_bytes b\<rparr>;
     (d, s) \<leftarrow> load_entries_L d s (nat (size_m d)) 0;
     let d = d\<lparr>pruneidx_m := []\<rparr>;
     (d, s) \<leftarrow> load_pruneidx d s (nat (pruneidx_size_m d));
     d \<leftarrow> initTableDiscard_L d;
     Some (d, s)
   }"

function prune_loop_L ::
  "entry_L Dictionary_L \<Rightarrow> int list \<Rightarrow> nat \<Rightarrow> nat \<Rightarrow> entry_L Dictionary_L option" where
  "prune_loop_L d ws i j =
     (if i < length (words_m d) then do {
        ty \<leftarrow> getType_i d (int i);
        if ty = Label \<or> (j < length ws \<and> ws ! j = int i) then
          (if \<not> j < length (words_m d) then None
           else do {
             let d = d\<lparr>words_m := (words_m d)[j := words_m d ! i]\<rparr>;
             h \<leftarrow> find_w d (word (words_m d ! j));
             prune_loop_L (d\<lparr>word2int_m := (word2int_m d)(h := int j)\<rparr>) ws (i + 1) (j + 1)
           })
        else prune_loop_L d ws (i + 1) j
      }
      else Some d)"
  by pat_completeness auto
termination
  by (relation "measure (\<lambda>(d, ws, i, j). length (words_m d) - i)") auto

declare prune_loop_L.simps [simp del]

definition prune_L ::
  "entry_L Dictionary_L \<Rightarrow> int list \<Rightarrow> (entry_L Dictionary_L \<times> int list) option" where
  "prune_L d idx =
     (let ws = sort (filter (\<lambda>x. x < nwords_m d) idx);
          d = d\<lparr>pruneidx_size_m := int (length (pruneidx_m d)), word2int_m := (\<lambda>_. -1)\<rparr>
      in do {
        d \<leftarrow> prune_loop_L d ws 0 0;
        let d = d\<lparr>nwords_m := int (length ws)\<rparr>;
        Some (d\<lparr>size_m := nwords_m d + nlabels_m d\<rparr>, ws)
      })"


subsection \<open>Concrete dictionaries\<close>

text \<open>
  The options and corpora of the scenarios below: the words-only scenario of the
  specification with \<^verbatim>\<open>minCount = 2\<close>, and a small corpus with the label marker
  \<^verbatim>\<open>#\<close> for the label-aware variant.
\<close>

definition scenario_args :: Args where
  "scenario_args =
     \<lparr>model = model_sg, t_sampling = Fin (1 / 10000), minCount = 2, minCountLabel = 0,
      label = ''__label__'', verbose = 0\<rparr>"

definition scenario_stream :: istream where
  "scenario_stream = \<lparr>content = ''a a a b b c </s> a b'', gpos = 0, eofbit = False\<rparr>"

definition scenario_stream_nl :: istream where
  "scenario_stream_nl =
     \<lparr>content = ''a a a b b c'' @ [CHR 0x0A] @ ''a b'', gpos = 0, eofbit = False\<rparr>"

definition label_args :: Args where
  "label_args =
     \<lparr>model = model_sup, t_sampling = Fin (1 / 10000), minCount = 1, minCountLabel = 1,
      label = ''#'', verbose = 0\<rparr>"

definition label_stream :: istream where
  "label_stream = \<lparr>content = ''a #x a b #x'', gpos = 0, eofbit = False\<rparr>"

definition entries_of :: "(entry Dictionary \<times> istream) option \<Rightarrow> (string \<times> int) list option" where
  "entries_of r = map_option (\<lambda>(d, s). map (\<lambda>e. (word e, count e)) (words_m d)) r"

definition nwords_of :: "(('e, 'z) Dictionary_scheme \<times> 'x) option \<Rightarrow> int option" where
  "nwords_of r = map_option (\<lambda>(d, s). nwords_m d) r"

definition ntokens_of :: "(('e, 'z) Dictionary_scheme \<times> 'x) option \<Rightarrow> int option" where
  "ntokens_of r = map_option (\<lambda>(d, s). ntokens_m d) r"

definition size_of :: "(('e, 'z) Dictionary_L_scheme \<times> 'x) option \<Rightarrow> int option" where
  "size_of r = map_option (\<lambda>(d, s). size_m d) r"

definition stored_of :: "(('e, 'z) Dictionary_scheme \<times> 'x) option \<Rightarrow> nat option" where
  "stored_of r = map_option (\<lambda>(d, s). length (words_m d)) r"

text \<open>Building a dictionary from a corpus and pruning it to the ids \<open>idx\<close>.\<close>

definition build_prune :: "Args \<Rightarrow> istream \<Rightarrow> int list \<Rightarrow> (entry Dictionary \<times> int list) option" where
  "build_prune a s idx = do {
     (d, s) \<leftarrow> readFromFile (Dictionary_init a) s;
     prune d idx
   }"

definition build_prune_L ::
  "Args \<Rightarrow> istream \<Rightarrow> int list \<Rightarrow> (entry_L Dictionary_L \<times> int list) option" where
  "build_prune_L a s idx = do {
     (d, s) \<leftarrow> readFromFile_L (Dictionary_init_L a 0) s;
     prune_L d idx
   }"

text \<open>
  A dictionary in which two words collide: \<^verbatim>\<open>aqqq\<close> and \<^verbatim>\<open>call\<close> both hash to the
  slot 18949801, so \<^verbatim>\<open>call\<close>, added second, lies one slot further.
\<close>

definition probe_dict :: "entry Dictionary" where
  "probe_dict =
     \<lparr>args_m = scenario_args, word2int_m = (\<lambda>_. -1)(18949801 := 0, 18949802 := 1),
      words_m = [\<lparr>word = ''aqqq'', count = 1\<rparr>, \<lparr>word = ''call'', count = 1\<rparr>],
      pdiscard_m = [], nwords_m = 2, ntokens_m = 2, pruneidx_size_m = -1, pruneidx_m = []\<rparr>"

subsection \<open>Notions for the properties\<close>

text \<open>
  The occupied slots of a hash index, and the invariant of an index into which the ids
  \<open>0, \<dots>, n - 1\<close> have been written one after the other: every occupied slot holds an
  id below \<open>n\<close>, and at most \<open>n\<close> slots are occupied.
\<close>

definition occupied :: "(nat \<Rightarrow> int) \<Rightarrow> nat set" where
  "occupied w2i = {s. s < MAX_VOCAB_SIZE \<and> w2i s \<noteq> -1}"

definition table_inv :: "(nat \<Rightarrow> int) \<Rightarrow> nat \<Rightarrow> bool" where
  "table_inv w2i n \<longleftrightarrow>
     (\<forall>s<MAX_VOCAB_SIZE. w2i s \<noteq> -1 \<longrightarrow> 0 \<le> w2i s \<and> w2i s < int n) \<and>
     card (occupied w2i) \<le> n"

text \<open>
  The slot at which the probe for a word starts, and the invariant of a hash index that
  holds the first \<open>n\<close> entries of \<^verbatim>\<open>words_\<close>: the invariant above, the words of these
  entries are pairwise different, and the probe for the word of each of them ends at a
  slot that holds its id.
\<close>

definition home :: "string \<Rightarrow> nat" where
  "home w = unat (hash w) mod MAX_VOCAB_SIZE"

definition index_inv :: "(nat \<Rightarrow> int) \<Rightarrow> 'a entry_scheme list \<Rightarrow> nat \<Rightarrow> bool" where
  "index_inv w2i ws n \<longleftrightarrow>
     table_inv w2i n \<and> n \<le> length ws \<and> distinct (map word (take n ws)) \<and>
     (\<forall>k<n. \<exists>h<MAX_VOCAB_SIZE.
        find_loop w2i ws (word (ws ! k)) (home (word (ws ! k))) = Some h \<and> w2i h = int k)"


text \<open>
  The positions that the loop of \<^verbatim>\<open>prune\<close> keeps when it runs from position \<open>i\<close> with
  the write cursor \<open>j\<close> over \<open>n\<close> entries: the loop itself, with the kept positions as
  its only result (\<open>lab\<close> tells the positions of label entries).
\<close>

function kept_by :: "(nat \<Rightarrow> bool) \<Rightarrow> int list \<Rightarrow> nat \<Rightarrow> nat \<Rightarrow> nat \<Rightarrow> nat list" where
  "kept_by lab ws i j n =
     (if i < n then
        (if lab i \<or> (j < length ws \<and> ws ! j = int i)
         then i # kept_by lab ws (i + 1) (j + 1) n
         else kept_by lab ws (i + 1) j n)
      else [])"
  by pat_completeness auto
termination
  by (relation "measure (\<lambda>(lab, ws, i, j, n). n - i)") auto

declare kept_by.simps [simp del]


text \<open>
  The ids that \<^verbatim>\<open>prune\<close> is asked to keep, as it computes them, and the states and id
  lists on which it is specified: the counter does not exceed the number of stored
  entries (in the label-aware variant it is this number, and the words precede the
  labels), no id is negative and no id below \<^verbatim>\<open>nwords_\<close> occurs twice.
\<close>

definition prunable :: "entry Dictionary \<Rightarrow> int list \<Rightarrow> bool" where
  "prunable d idx \<longleftrightarrow>
     nwords_m d \<le> int (length (words_m d)) \<and> length (words_m d) \<le> MAX_VOCAB_SIZE \<and>
     distinct (filter (\<lambda>x. x < nwords_m d) idx) \<and> (\<forall>x\<in>set idx. 0 \<le> x)"

definition prunable_L :: "entry_L Dictionary_L \<Rightarrow> int list \<Rightarrow> bool" where
  "prunable_L d idx \<longleftrightarrow>
     size_m d = int (length (words_m d)) \<and> length (words_m d) \<le> MAX_VOCAB_SIZE \<and>
     0 \<le> nwords_m d \<and> 0 \<le> nlabels_m d \<and> nwords_m d + nlabels_m d = size_m d \<and>
     (\<forall>k<length (words_m d).
        type (words_m d ! k) = (if int k < nwords_m d then Word else Label)) \<and>
     distinct (filter (\<lambda>x. x < nwords_m d) idx) \<and> (\<forall>x\<in>set idx. 0 \<le> x)"

definition kept_ids :: "('e, 'z) Dictionary_scheme \<Rightarrow> int list \<Rightarrow> int list" where
  "kept_ids d idx = sort (filter (\<lambda>x. x < nwords_m d) idx)"


text \<open>
  Two dictionaries with subsampling tables: with \<^verbatim>\<open>t = 0.01\<close> and 100 tokens, the
  count 25 gives the probability \<open>6/25\<close> and the count 4 gives \<open>3/4\<close>.
\<close>

definition sub_dict :: "entry Dictionary" where
  "sub_dict =
     \<lparr>args_m = \<lparr>model = model_sg, t_sampling = Fin (1 / 100), minCount = 1,
         minCountLabel = 0, label = ''__label__'', verbose = 0\<rparr>,
      word2int_m = (\<lambda>_. -1)(16002220 := 0, 6335077 := 1),
      words_m = [\<lparr>word = ''a'', count = 25\<rparr>, \<lparr>word = ''b'', count = 4\<rparr>],
      pdiscard_m = [Fin (6 / 25), Fin (3 / 4)], nwords_m = 2, ntokens_m = 100,
      pruneidx_size_m = -1, pruneidx_m = []\<rparr>"

definition label_dict :: "entry_L Dictionary_L" where
  "label_dict =
     \<lparr>args_m = \<lparr>model = model_sg, t_sampling = Fin (1 / 100), minCount = 1,
         minCountLabel = 1, label = ''#'', verbose = 0\<rparr>,
      word2int_m = (\<lambda>_. -1)(16002220 := 0, 6335077 := 1, 18567134 := 2),
      words_m = [\<lparr>word = ''a'', count = 25, type = Word\<rparr>,
                 \<lparr>word = ''b'', count = 4, type = Word\<rparr>,
                 \<lparr>word = ''#x'', count = 1, type = Label\<rparr>],
      pdiscard_m = [Fin (6 / 25), Fin (3 / 4), Fin 2], nwords_m = 2, ntokens_m = 100,
      pruneidx_size_m = -1, pruneidx_m = [], size_m = 3, nlabels_m = 1\<rparr>"


text \<open>
  The dictionaries on which a line can be read: the hash index has a free slot, every
  occupied slot holds the id of a stored entry, and this id is a word id with a
  subsampling probability (in the label-aware variant: an id below \<^verbatim>\<open>size_\<close>).
\<close>

definition lookup_ok :: "('a entry_scheme, 'z) Dictionary_scheme \<Rightarrow> bool" where
  "lookup_ok d \<longleftrightarrow>
     (\<exists>s<MAX_VOCAB_SIZE. word2int_m d s = -1) \<and>
     (\<forall>s<MAX_VOCAB_SIZE. word2int_m d s \<noteq> -1 \<longrightarrow>
        0 \<le> word2int_m d s \<and> word2int_m d s < int (length (words_m d)))"

definition line_ok :: "entry Dictionary \<Rightarrow> bool" where
  "line_ok d \<longleftrightarrow>
     lookup_ok d \<and>
     (\<forall>s<MAX_VOCAB_SIZE. word2int_m d s \<noteq> -1 \<longrightarrow>
        word2int_m d s < nwords_m d \<and> nat (word2int_m d s) < length (pdiscard_m d))"

definition line_ok_L :: "entry_L Dictionary_L \<Rightarrow> bool" where
  "line_ok_L d \<longleftrightarrow>
     lookup_ok d \<and> (\<forall>s<MAX_VOCAB_SIZE. word2int_m d s \<noteq> -1 \<longrightarrow> word2int_m d s < size_m d)"

text \<open>
  A token is in the vocabulary when \<^verbatim>\<open>getId\<close> finds an id for it. The tokens of a
  stream are what successive calls of \<^verbatim>\<open>readWord\<close> return, each with the stream as
  that call leaves it (\<open>tokens_from\<close>); \<open>final_state\<close> is the stream after the call
  that fails at the end. A list of tokens ends a line of the words-only \<^verbatim>\<open>getLine\<close>
  that has counted \<open>c\<close> tokens before (\<open>ends_line\<close>) when its last token is in the
  vocabulary and is the sentinel or brings the count above \<^verbatim>\<open>MAX_LINE_SIZE\<close>.
  \<open>line_tokens\<close> is the loop of the label-aware \<^verbatim>\<open>getLine\<close> with the list of the
  tokens it reads as its only result.
\<close>

definition in_vocab :: "('a entry_scheme, 'z) Dictionary_scheme \<Rightarrow> string \<Rightarrow> bool" where
  "in_vocab d token = (case getId d token of Some i \<Rightarrow> 0 \<le> i | None \<Rightarrow> False)"








text \<open>
  The classification of a token as the specification describes it (look the token up in
  the hash index; take the label-prefix convention for a token that is not found), and the
  ids that the tokens of a line contribute to the two output vectors: the ids of the
  stored words, and the ids of the stored labels, offset by \<^verbatim>\<open>-nwords_\<close>.
  \<open>word_slots\<close> is what the tokens classified as words contribute when a token that
  is not found counts with the result \<open>-1\<close> of the lookup.
\<close>

definition classify :: "entry_L Dictionary_L \<Rightarrow> string \<Rightarrow> (int \<times> entry_type) option" where
  "classify d token = do {
     wid \<leftarrow> getId_h d token (hash token);
     ty \<leftarrow> (if wid < 0 then Some (getType_w d token) else getType_i d wid);
     Some (wid, ty)
   }"




text \<open>
  Two random sources that always draw the same number, two corpora, and the corpora of
  \<open>k\<close> tokens \<^verbatim>\<open>a\<close> on one line without a newline.
\<close>

definition zero_rng :: minstd_rand where
  "zero_rng = (\<lambda>_. Fin 0)"




definition long_stream :: "nat \<Rightarrow> istream" where
  "long_stream k = \<lparr>content = concat (replicate k ''a ''), gpos = 0, eofbit = False\<rparr>"




text \<open>
  The ranges of \<^verbatim>\<open>int32_t\<close> and \<^verbatim>\<open>int64_t\<close>, and the bytes that \<^verbatim>\<open>save\<close> writes for
  one entry and for one pair of the prune map.
\<close>

definition int32 :: "int \<Rightarrow> bool" where
  "int32 x \<longleftrightarrow> - 2147483648 \<le> x \<and> x < 2147483648"

definition int64 :: "int \<Rightarrow> bool" where
  "int64 x \<longleftrightarrow> - 9223372036854775808 \<le> x \<and> x < 9223372036854775808"

definition entry_bytes :: "entry \<Rightarrow> string" where
  "entry_bytes e = word e @ [CHR 0x00] @ le_bytes 8 (count e)"

definition entry_bytes_L :: "entry_L \<Rightarrow> string" where
  "entry_bytes_L e = word e @ [CHR 0x00] @ le_bytes 8 (count e) @ [byte_of_type (type e)]"

definition pair_bytes :: "int \<times> int \<Rightarrow> string" where
  "pair_bytes p = le_bytes 4 (fst p) @ le_bytes 4 (snd p)"

text \<open>
  The live entries are the first \<^verbatim>\<open>nwords_\<close> (label-aware: \<^verbatim>\<open>size_\<close>) entries of
  \<^verbatim>\<open>words_\<close>, those that \<^verbatim>\<open>save\<close> writes. A dictionary can be stored when the
  counter is the number of its live entries, at most \<^verbatim>\<open>MAX_VOCAB_SIZE\<close>, no live word
  holds the byte 0 (\<^verbatim>\<open>readWord\<close> yields no such word), the counters fit their
  integer types, and \<^verbatim>\<open>pruneidx_size_\<close> is the size of the prune map (or \<open>-1\<close> with
  an empty map), whose keys are distinct. \<open>table_of\<close> is the subsampling table that
  \<^verbatim>\<open>initTableDiscard\<close> computes for a list of entries. A dictionary is current when
  every stored entry is live and the table is the one computed from the entries, as
  \<^verbatim>\<open>readFromFile\<close> and \<^verbatim>\<open>load\<close> leave it.
\<close>

definition live :: "int \<Rightarrow> 'e list \<Rightarrow> 'e list" where
  "live n es = take (nat n) es"

definition prunemap_ok :: "('e, 'z) Dictionary_scheme \<Rightarrow> bool" where
  "prunemap_ok d \<longleftrightarrow>
     (pruneidx_size_m d = int (length (pruneidx_m d)) \<or>
      pruneidx_size_m d = -1 \<and> pruneidx_m d = []) \<and>
     int64 (int (length (pruneidx_m d))) \<and>
     (\<forall>p\<in>set (pruneidx_m d). int32 (fst p) \<and> int32 (snd p)) \<and>
     distinct (map fst (pruneidx_m d))"

definition storable :: "entry Dictionary \<Rightarrow> bool" where
  "storable d \<longleftrightarrow>
     0 \<le> nwords_m d \<and> nwords_m d \<le> int (length (words_m d)) \<and>
     nwords_m d \<le> int MAX_VOCAB_SIZE \<and>
     (\<forall>e\<in>set (live (nwords_m d) (words_m d)).
        CHR 0x00 \<notin> set (word e) \<and> int64 (count e)) \<and>
     int64 (ntokens_m d) \<and> prunemap_ok d"

definition table_of :: "Args \<Rightarrow> int \<Rightarrow> 'a entry_scheme list \<Rightarrow> real_t list" where
  "table_of a ntok es = map (\<lambda>e. pdiscard_of a (count e) ntok) es"

definition fresh_stream :: "string \<Rightarrow> istream" where
  "fresh_stream bytes = \<lparr>content = bytes, gpos = 0, eofbit = False\<rparr>"

definition storable_L :: "entry_L Dictionary_L \<Rightarrow> bool" where
  "storable_L d \<longleftrightarrow>
     0 \<le> size_m d \<and> size_m d \<le> int (length (words_m d)) \<and>
     size_m d \<le> int MAX_VOCAB_SIZE \<and>
     int32 (nwords_m d) \<and> int32 (nlabels_m d) \<and>
     (\<forall>e\<in>set (live (size_m d) (words_m d)).
        CHR 0x00 \<notin> set (word e) \<and> int64 (count e)) \<and>
     int64 (ntokens_m d) \<and> prunemap_ok d"

definition current :: "entry Dictionary \<Rightarrow> bool" where
  "current d \<longleftrightarrow>
     nwords_m d = int (length (words_m d)) \<and>
     pdiscard_m d = table_of (args_m d) (ntokens_m d) (words_m d)"

definition current_L :: "entry_L Dictionary_L \<Rightarrow> bool" where
  "current_L d \<longleftrightarrow>
     size_m d = int (length (words_m d)) \<and>
     pdiscard_m d = table_of (args_m d) (ntokens_m d) (words_m d)"

definition prune_save_load ::
  "entry Dictionary \<Rightarrow> int list \<Rightarrow> (real_t list \<times> real_t list) option" where
  "prune_save_load d idx = do {
     (d1, ws) \<leftarrow> prune d idx;
     bytes \<leftarrow> save d1 [];
     (d2, s) \<leftarrow> load (Dictionary_init (args_m d1)) (fresh_stream bytes);
     Some (pdiscard_m d1, pdiscard_m d2)
   }"


text \<open>
  The states of the builder: the counter is the number of stored entries, the hash index
  holds all of them, there are at most 22500000 of them (three quarters of
  \<^verbatim>\<open>MAX_VOCAB_SIZE\<close>), and every entry has a word without the byte 0 and a count
  between 1 and \<^verbatim>\<open>ntokens_\<close>. In the label-aware variant \<open>type_cmp\<close> is the
  comparator by which \<^verbatim>\<open>threshold\<close> sorts, and \<open>words_first\<close> says that
  \<^verbatim>\<open>nwords_\<close> and \<^verbatim>\<open>nlabels_\<close> count the entries of either type and that the
  words precede the labels.
\<close>

definition built :: "entry Dictionary \<Rightarrow> bool" where
  "built d \<longleftrightarrow>
     nwords_m d = int (length (words_m d)) \<and>
     index_inv (word2int_m d) (words_m d) (length (words_m d)) \<and>
     length (words_m d) \<le> 22500000 \<and> 0 \<le> ntokens_m d \<and>
     (\<forall>e\<in>set (words_m d). CHR 0x00 \<notin> set (word e) \<and> 1 \<le> count e \<and> count e \<le> ntokens_m d)"

definition type_cmp :: "entry_L \<Rightarrow> entry_L \<Rightarrow> bool" where
  "type_cmp e1 e2 = (if type e1 \<noteq> type e2 then type_less (type e1) (type e2)
                     else count e1 > count e2)"

definition built_L :: "entry_L Dictionary_L \<Rightarrow> bool" where
  "built_L d \<longleftrightarrow>
     size_m d = int (length (words_m d)) \<and>
     index_inv (word2int_m d) (words_m d) (length (words_m d)) \<and>
     length (words_m d) \<le> 22500000 \<and> 0 \<le> ntokens_m d \<and>
     (\<forall>e\<in>set (words_m d). CHR 0x00 \<notin> set (word e) \<and> 1 \<le> count e \<and> count e \<le> ntokens_m d)"

definition words_first :: "entry_L Dictionary_L \<Rightarrow> bool" where
  "words_first d \<longleftrightarrow>
     nwords_m d = int (length (filter (\<lambda>e. type e = Word) (words_m d))) \<and>
     nlabels_m d = int (length (filter (\<lambda>e. type e = Label) (words_m d))) \<and>
     (\<forall>k<length (words_m d).
        type (words_m d ! k) = (if int k < nwords_m d then Word else Label))"


section \<open>Properties\<close>

lemmas stream_eval = char_of_def readWord_def readWord_loop.simps sbumpc_def sungetc_def
  get_def schar_def EOF_def EOS_def is_separator_def Let_def

lemmas dict_eval = find_w_def find_h_def find_loop.simps hash_def MAX_VOCAB_SIZE_def add_w_def
  threshold_def initTableDiscard_def readFromFile_def readFromFile_loop.simps
  Dictionary_init_def sort_by_def prune_def prune_loop.simps build_prune_def

lemmas dict_eval_L = find_w_def find_h_def find_loop.simps hash_def MAX_VOCAB_SIZE_def
  add_L_def threshold_L_def initTableDiscard_L_def readFromFile_L_def
  readFromFile_loop_L.simps Dictionary_init_L_def sort_by_def prune_L_def prune_loop_L.simps
  getType_w_def getType_i_def type_less_def build_prune_L_def

lemmas scenario_eval = scenario_args_def scenario_stream_def scenario_stream_nl_def
  label_args_def label_stream_def entries_of_def nwords_of_def ntokens_of_def size_of_def
  stored_of_def

subsection \<open>The ingestion scenario\<close>

text \<open>
  C1, as the specification states it: ingesting \<^verbatim>\<open>a a a b b c </s> a b\<close> with
  \<^verbatim>\<open>minCount = 2\<close> leaves the entries a with count 3 and b with count 2. This fails:
  the stream holds a four times and b three times.
\<close>

theorem readFromFile_scenario_counterexample:
  "entries_of (readFromFile (Dictionary_init scenario_args) scenario_stream)
     \<noteq> Some [(''a'', 3), (''b'', 2)]"
  by (simp add: scenario_eval stream_eval dict_eval)

text \<open>
  C1, amended: ingesting the nine tokens \<^verbatim>\<open>a a a b b c </s> a b\<close> with
  \<^verbatim>\<open>minCount = 2\<close> leaves exactly the entries a with count 4 and b with count 3, in
  this order; c and the sentinel, both of count 1, are removed; \<^verbatim>\<open>nwords_\<close> is 2 and
  \<^verbatim>\<open>ntokens_\<close> is 9. The same holds when the sentinel is read from a newline.
\<close>

theorem readFromFile_scenario:
  "entries_of (readFromFile (Dictionary_init scenario_args) scenario_stream)
     = Some [(''a'', 4), (''b'', 3)] \<and>
   nwords_of (readFromFile (Dictionary_init scenario_args) scenario_stream) = Some 2 \<and>
   ntokens_of (readFromFile (Dictionary_init scenario_args) scenario_stream) = Some 9 \<and>
   entries_of (readFromFile (Dictionary_init scenario_args) scenario_stream_nl)
     = Some [(''a'', 4), (''b'', 3)] \<and>
   nwords_of (readFromFile (Dictionary_init scenario_args) scenario_stream_nl) = Some 2 \<and>
   ntokens_of (readFromFile (Dictionary_init scenario_args) scenario_stream_nl) = Some 9"
  by (simp add: scenario_eval stream_eval dict_eval)

subsection \<open>The entry store after pruning\<close>

text \<open>
  \<^verbatim>\<open>add\<close>, \<^verbatim>\<open>threshold\<close> and \<^verbatim>\<open>load\<close> leave the counter equal to the number of
  stored entries whenever they return (\<^verbatim>\<open>add\<close>: when it was equal before).
\<close>

lemma add_w_counter:
  assumes "add_w d w = Some d'" "nwords_m d = int (length (words_m d))"
  shows "nwords_m d' = int (length (words_m d'))"
  using assms by (auto simp: add_w_def Let_def split: bind_splits if_splits)

lemma add_L_counter:
  assumes "add_L d w = Some d'" "size_m d = int (length (words_m d))"
  shows "size_m d' = int (length (words_m d'))"
  using assms by (auto simp: add_L_def Let_def split: bind_splits if_splits)

lemma threshold_loop_counter:
  "threshold_loop d it = Some d' \<Longrightarrow>
     nwords_m d' = nwords_m d + int (length it) \<and> words_m d' = words_m d"
proof (induction it arbitrary: d)
  case Nil
  then show ?case by simp
next
  case (Cons e it)
  from Cons.prems obtain h where h: "find_w d (word e) = Some h"
    and r: "threshold_loop
       (d\<lparr>word2int_m := (word2int_m d)(h := nwords_m d), nwords_m := nwords_m d + 1\<rparr>) it = Some d'"
    by (auto split: bind_splits)
  from Cons.IH [OF r] show ?case by simp
qed

lemma threshold_counter:
  assumes "threshold d t = Some d'"
  shows "nwords_m d' = int (length (words_m d'))"
  using threshold_loop_counter [of _ _ d'] assms by (auto simp: threshold_def Let_def)

lemma threshold_loop_L_counter:
  "threshold_loop_L d it = Some d' \<Longrightarrow>
     size_m d' = size_m d + int (length it) \<and> words_m d' = words_m d"
proof (induction it arbitrary: d)
  case Nil
  then show ?case by simp
next
  case (Cons e it)
  from Cons.prems obtain h where h: "find_w d (word e) = Some h"
    and r: "threshold_loop_L
       (let d = d\<lparr>word2int_m := (word2int_m d)(h := size_m d), size_m := size_m d + 1\<rparr>;
            d = (if type e = Word then d\<lparr>nwords_m := nwords_m d + 1\<rparr> else d);
            d = (if type e = Label then d\<lparr>nlabels_m := nlabels_m d + 1\<rparr> else d)
        in d) it = Some d'"
    by (auto simp: Let_def split: bind_splits)
  from Cons.IH [OF r] show ?case by (simp add: Let_def split: if_splits)
qed

lemma threshold_L_counter:
  assumes "threshold_L d t t_l = Some d'"
  shows "size_m d' = int (length (words_m d'))"
  using threshold_loop_L_counter [of _ _ d'] assms by (auto simp: threshold_L_def Let_def)

lemma load_entries_counter:
  "load_entries d s k i = Some (d', s') \<Longrightarrow>
     length (words_m d') = length (words_m d) + k \<and> nwords_m d' = nwords_m d"
proof (induction k arbitrary: d s i)
  case 0
  then show ?case by simp
next
  case (Suc k)
  from Suc.prems obtain w s1 b s2 h where
    r: "load_entries
          (d\<lparr>words_m := words_m d @ [\<lparr>word = w, count = int_of_bytes b\<rparr>],
             word2int_m := (word2int_m d)(h := i)\<rparr>) s2 k (i + 1) = Some (d', s')"
    by (auto simp: Let_def split: bind_splits prod.splits)
  from Suc.IH [OF r] show ?case by simp
qed

lemma load_pruneidx_frame:
  "load_pruneidx d s k = Some (d', s') \<Longrightarrow>
     words_m d' = words_m d \<and> nwords_m d' = nwords_m d"
proof (induction k arbitrary: d s)
  case 0
  then show ?case by simp
next
  case (Suc k)
  from Suc.prems obtain f s1 g s2 where
    r: "load_pruneidx
          (d\<lparr>pruneidx_m := assign (pruneidx_m d) (int_of_bytes f) (int_of_bytes g)\<rparr>) s2 k
        = Some (d', s')"
    by (auto split: bind_splits prod.splits)
  from Suc.IH [OF r] show ?case by simp
qed

lemma load_counter:
  assumes "load d s = Some (d', s')"
  shows "nwords_m d' = int (length (words_m d'))"
proof -
  from assms obtain b1 s1 b2 s2 b3 s3 d4 s4 d5 s5 where
    e: "load_entries
          (d\<lparr>words_m := [], word2int_m := (\<lambda>_. -1), nwords_m := int_of_bytes b1,
             ntokens_m := int_of_bytes b2, pruneidx_size_m := int_of_bytes b3\<rparr>)
          s3 (nat (int_of_bytes b1)) 0 = Some (d4, s4)"
    and p: "load_pruneidx (d4\<lparr>pruneidx_m := []\<rparr>) s4 (nat (pruneidx_size_m d4)) = Some (d5, s5)"
    and i: "initTableDiscard d5 = Some d'"
    by (auto simp: load_def Let_def split: bind_splits prod.splits)
  from load_entries_counter [OF e]
  have 4: "length (words_m d4) = nat (int_of_bytes b1)" "nwords_m d4 = int_of_bytes b1"
    by simp_all
  from load_pruneidx_frame [OF p] 4
  have 5: "length (words_m d5) = nat (int_of_bytes b1)" "nwords_m d5 = int_of_bytes b1"
    by simp_all
  from i 5 show ?thesis
    by (auto simp: initTableDiscard_def split: if_splits)
qed

lemma load_entries_L_counter:
  "load_entries_L d s k i = Some (d', s') \<Longrightarrow>
     length (words_m d') = length (words_m d) + k \<and> size_m d' = size_m d"
proof (induction k arbitrary: d s i)
  case 0
  then show ?case by simp
next
  case (Suc k)
  from Suc.prems obtain w b ty s3 h where
    r: "load_entries_L
          (d\<lparr>words_m := words_m d @ [\<lparr>word = w, count = int_of_bytes b, type = ty\<rparr>],
             word2int_m := (word2int_m d)(h := i)\<rparr>) s3 k (i + 1) = Some (d', s')"
    by (auto simp: Let_def split: bind_splits prod.splits)
  from Suc.IH [OF r] show ?case by simp
qed

lemma load_pruneidx_frame_L:
  "load_pruneidx d s k = Some (d', s') \<Longrightarrow>
     words_m d' = words_m d \<and> size_m d' = size_m d"
proof (induction k arbitrary: d s)
  case 0
  then show ?case by simp
next
  case (Suc k)
  from Suc.prems obtain f s1 g s2 where
    r: "load_pruneidx
          (d\<lparr>pruneidx_m := assign (pruneidx_m d) (int_of_bytes f) (int_of_bytes g)\<rparr>) s2 k
        = Some (d', s')"
    by (auto split: bind_splits prod.splits)
  from Suc.IH [OF r] show ?case by simp
qed

lemma load_L_counter:
  assumes "load_L d s = Some (d', s')"
  shows "size_m d' = int (length (words_m d'))"
proof -
  from assms obtain b1 b2 b3 b4 b5 s5 d6 s6 d7 s7 where
    e: "load_entries_L
          (d\<lparr>words_m := [], word2int_m := (\<lambda>_. -1), size_m := int_of_bytes b1,
             nwords_m := int_of_bytes b2, nlabels_m := int_of_bytes b3,
             ntokens_m := int_of_bytes b4, pruneidx_size_m := int_of_bytes b5\<rparr>)
          s5 (nat (int_of_bytes b1)) 0 = Some (d6, s6)"
    and p: "load_pruneidx (d6\<lparr>pruneidx_m := []\<rparr>) s6 (nat (pruneidx_size_m d6)) = Some (d7, s7)"
    and i: "initTableDiscard_L d7 = Some d'"
    by (auto simp: load_L_def Let_def split: bind_splits prod.splits)
  from load_entries_L_counter [OF e]
  have 6: "length (words_m d6) = nat (int_of_bytes b1)" "size_m d6 = int_of_bytes b1"
    by simp_all
  from load_pruneidx_frame_L [OF p] 6
  have 7: "length (words_m d7) = nat (int_of_bytes b1)" "size_m d7 = int_of_bytes b1"
    by simp_all
  from i 7 show ?thesis
    by (auto simp: initTableDiscard_L_def split: if_splits)
qed

text \<open>
  A second \<^verbatim>\<open>prune\<close> of the pruned label-aware dictionary fails in its own loop: the
  loop runs over all stored entries and \<^verbatim>\<open>getType\<close> asserts that each of their
  positions is below \<^verbatim>\<open>size_\<close>.
\<close>

lemma prune_L_again:
  "build_prune_L label_args label_stream [0] \<noteq> None \<and>
   (do { (d, ws) \<leftarrow> build_prune_L label_args label_stream [0]; prune_L d [0] }) = None"
  by (simp add: scenario_eval stream_eval dict_eval_L)

text \<open>
  C3: after every mutating operation the counter (\<^verbatim>\<open>nwords_\<close>, or \<^verbatim>\<open>size_\<close> in
  the label-aware variant) is the number of entries stored in \<^verbatim>\<open>words_\<close>. The code
  breaks this in \<^verbatim>\<open>prune\<close>, which compacts the kept entries to the front of
  \<^verbatim>\<open>words_\<close> but never erases the rest: pruning the dictionary of the scenario to the
  id 0 gives \<^verbatim>\<open>nwords_ = 1\<close> with two stored entries, and pruning the label-aware
  dictionary with two words and one label to the id 0 gives \<^verbatim>\<open>size_ = 2\<close> with three
  stored entries.
\<close>

theorem prune_keeps_stale_entries:
  "nwords_of (build_prune scenario_args scenario_stream [0]) = Some 1 \<and>
   stored_of (build_prune scenario_args scenario_stream [0]) = Some 2 \<and>
   size_of (build_prune_L label_args label_stream [0]) = Some 2 \<and>
   stored_of (build_prune_L label_args label_stream [0]) = Some 3"
  by (simp add: scenario_eval stream_eval dict_eval dict_eval_L)

subsection \<open>The corpus reader and the byte 255\<close>

text \<open>
  What holds of \<^verbatim>\<open>readWord\<close> on every stream: it returns true exactly with a
  non-empty token; a newline at the get pointer yields the token \<^verbatim>\<open></s>\<close>; and on a
  stream without the byte 255 it returns false only at the end of the stream, with the
  end-of-file flag set.
\<close>

lemma readWord_loop_unfold:
  assumes "sbumpc s = (r, s1)"
  shows "readWord_loop s w =
     (if schar (char_of r) \<noteq> EOF then
        (if is_separator (char_of r) then
           (if w = [] then
              (if char_of r = CHR 0x0A then (True, w @ EOS, s1)
               else readWord_loop s1 w)
            else (True, w, if char_of r = CHR 0x0A then sungetc s1 else s1))
         else readWord_loop s1 (w @ [char_of r]))
      else (w \<noteq> [], w, snd (get s1)))"
  by (subst readWord_loop.simps) (simp only: assms Let_def prod.case)

lemma readWord_loop_flag:
  "readWord_loop s w = (b, w', s') \<Longrightarrow> b \<longleftrightarrow> w' \<noteq> []"
proof (induction s w arbitrary: b w' s' rule: readWord_loop.induct)
  case (1 s w)
  obtain r s1 where sb: "sbumpc s = (r, s1)" by (cases "sbumpc s")
  define c where "c = (char_of r :: char)"
  note unf = readWord_loop_unfold [OF sb, of w, folded c_def]
  show ?case
  proof (cases "schar c \<noteq> EOF")
    case False
    with unf "1.prems" show ?thesis by auto
  next
    case True
    show ?thesis
    proof (cases "is_separator c")
      case sep: True
      show ?thesis
      proof (cases "w = []")
        case wnil: True
        show ?thesis
        proof (cases "c = CHR 0x0A")
          case True
          with unf \<open>schar c \<noteq> EOF\<close> sep wnil "1.prems" show ?thesis by (auto simp: EOS_def)
        next
          case False
          with unf \<open>schar c \<noteq> EOF\<close> sep wnil "1.prems"
          have "readWord_loop s1 w = (b, w', s')" by auto
          from "1.IH"(1) [OF sb [symmetric] refl c_def \<open>schar c \<noteq> EOF\<close> sep wnil False this]
          show ?thesis .
        qed
      next
        case False
        with unf \<open>schar c \<noteq> EOF\<close> sep "1.prems" show ?thesis by (auto split: if_splits)
      qed
    next
      case False
      with unf \<open>schar c \<noteq> EOF\<close> "1.prems"
      have "readWord_loop s1 (w @ [c]) = (b, w', s')" by auto
      from "1.IH"(2) [OF sb [symmetric] refl c_def \<open>schar c \<noteq> EOF\<close> False this]
      show ?thesis .
    qed
  qed
qed

lemma readWord_loop_false:
  assumes "readWord_loop s w = (False, w', s')"
    "\<forall>k. gpos s \<le> k \<and> k < length (content s) \<longrightarrow> content s ! k \<noteq> CHR 0xFF"
  shows "w' = [] \<and> length (content s') \<le> gpos s' \<and> eofbit s' \<and> content s' = content s"
  using assms
proof (induction s w arbitrary: w' s' rule: readWord_loop.induct)
  case (1 s w)
  obtain r s1 where sb: "sbumpc s = (r, s1)" by (cases "sbumpc s")
  define c where "c = (char_of r :: char)"
  note unf = readWord_loop_unfold [OF sb, of w, folded c_def]
  from readWord_loop_flag [OF "1.prems"(1)] have w': "w' = []" by simp
  show ?case
  proof (cases "schar c \<noteq> EOF")
    case False
    have end_: "\<not> gpos s < length (content s)"
    proof
      assume lt: "gpos s < length (content s)"
      with sb have "r = of_char (content s ! gpos s)" by (simp add: sbumpc_def)
      then have "c = content s ! gpos s" by (simp add: c_def)
      with "1.prems"(2) lt have "c \<noteq> CHR 0xFF" by simp
      have "of_char c \<noteq> (255::int)"
      proof
        assume "of_char c = (255::int)"
        then have "(of_char c :: int) = of_char (CHR 0xFF)" by simp
        then have "c = CHR 0xFF" by (simp only: of_char_eq_iff)
        with \<open>c \<noteq> CHR 0xFF\<close> show False by simp
      qed
      moreover have "0 \<le> (of_char c :: int)" by (simp add: of_char_def)
      ultimately have "schar c \<noteq> EOF" by (auto simp: schar_def EOF_def)
      with False show False by simp
    qed
    with sb have "s1 = s" by (simp add: sbumpc_def)
    with unf False "1.prems"(1) have "s' = snd (get s)" by auto
    with end_ w' show ?thesis by (auto simp: get_def)
  next
    case True
    from True sb have s1: "content s1 = content s" "gpos s1 = gpos s + 1"
      by (auto simp: sbumpc_def schar_def EOF_def c_def split: if_splits)
    from s1 "1.prems"(2)
    have nff: "\<forall>k. gpos s1 \<le> k \<and> k < length (content s1) \<longrightarrow> content s1 ! k \<noteq> CHR 0xFF"
      by simp
    show ?thesis
    proof (cases "is_separator c")
      case sep: True
      show ?thesis
      proof (cases "w = []")
        case wnil: True
        show ?thesis
        proof (cases "c = CHR 0x0A")
          case True
          with unf \<open>schar c \<noteq> EOF\<close> sep wnil "1.prems"(1) show ?thesis by auto
        next
          case False
          with unf \<open>schar c \<noteq> EOF\<close> sep wnil "1.prems"(1)
          have "readWord_loop s1 w = (False, w', s')" by auto
          from "1.IH"(1) [OF sb [symmetric] refl c_def \<open>schar c \<noteq> EOF\<close> sep wnil False this nff]
          show ?thesis by (auto simp: s1)
        qed
      next
        case False
        with unf \<open>schar c \<noteq> EOF\<close> sep "1.prems"(1) show ?thesis by (auto split: if_splits)
      qed
    next
      case False
      with unf \<open>schar c \<noteq> EOF\<close> "1.prems"(1)
      have "readWord_loop s1 (w @ [c]) = (False, w', s')" by auto
      from "1.IH"(2) [OF sb [symmetric] refl c_def \<open>schar c \<noteq> EOF\<close> False this nff]
      show ?thesis by (auto simp: s1)
    qed
  qed
qed

lemma readWord_flag: "readWord s = (b, w, s') \<Longrightarrow> b \<longleftrightarrow> w \<noteq> []"
  unfolding readWord_def by (rule readWord_loop_flag)

lemma readWord_false:
  assumes "readWord s = (False, w, s')"
    "\<forall>k. gpos s \<le> k \<and> k < length (content s) \<longrightarrow> content s ! k \<noteq> CHR 0xFF"
  shows "w = [] \<and> length (content s') \<le> gpos s' \<and> eofbit s'"
  using readWord_loop_false [OF assms(1) [unfolded readWord_def] assms(2)] by auto

lemma readWord_newline:
  assumes "gpos s < length (content s)" "content s ! gpos s = CHR 0x0A"
  shows "readWord s = (True, EOS, s\<lparr>gpos := gpos s + 1\<rparr>)"
proof -
  from assms have sb: "sbumpc s = (10, s\<lparr>gpos := gpos s + 1\<rparr>)"
    by (simp add: sbumpc_def)
  show ?thesis
    unfolding readWord_def
    by (subst readWord_loop_unfold [OF sb])
      (simp add: char_of_def schar_def EOF_def is_separator_def)
qed

lemma readWord_sample:
  "readWord \<lparr>content = ''ab'' @ [CHR 0x0A], gpos = 0, eofbit = False\<rparr>
     = (True, ''ab'', \<lparr>content = ''ab'' @ [CHR 0x0A], gpos = 2, eofbit = False\<rparr>) \<and>
   readWord \<lparr>content = ''ab'' @ [CHR 0x0A], gpos = 2, eofbit = False\<rparr>
     = (True, EOS, \<lparr>content = ''ab'' @ [CHR 0x0A], gpos = 3, eofbit = False\<rparr>) \<and>
   readWord \<lparr>content = ''ab'' @ [CHR 0x0A], gpos = 3, eofbit = False\<rparr>
     = (False, [], \<lparr>content = ''ab'' @ [CHR 0x0A], gpos = 3, eofbit = True\<rparr>) \<and>
   readWord \<lparr>content = ''ab '', gpos = 0, eofbit = False\<rparr>
     = (True, ''ab'', \<lparr>content = ''ab '', gpos = 3, eofbit = False\<rparr>) \<and>
   readWord \<lparr>content = ''ab'', gpos = 0, eofbit = False\<rparr>
     = (True, ''ab'', \<lparr>content = ''ab'', gpos = 2, eofbit = True\<rparr>)"
  by (simp add: stream_eval)

text \<open>
  C7: \<^verbatim>\<open>readWord\<close> returns false exactly when no byte was read into the token and
  the stream is exhausted. The code breaks this on the byte 255: stored in a \<^verbatim>\<open>char\<close>
  it equals \<^verbatim>\<open>EOF\<close>, so on the two bytes 255 and \<^verbatim>\<open>a\<close> the call returns false with
  an empty token although the stream is not exhausted, and \<^verbatim>\<open>in.get()\<close> then swallows
  the \<^verbatim>\<open>a\<close>.
\<close>

theorem readWord_byte_255:
  "readWord \<lparr>content = [CHR 0xFF, CHR ''a''], gpos = 0, eofbit = False\<rparr>
     = (False, [], \<lparr>content = [CHR 0xFF, CHR ''a''], gpos = 2, eofbit = False\<rparr>)"
  by (simp add: stream_eval)


subsection \<open>Termination of the linear probe\<close>

lemma find_loop_upto:
  assumes valid: "\<forall>s<MAX_VOCAB_SIZE. w2i s \<noteq> -1 \<longrightarrow> 0 \<le> w2i s \<and> w2i s < int (length ws)"
    and "i \<le> e" "e < MAX_VOCAB_SIZE" "w2i e = -1"
  shows "\<exists>r. find_loop w2i ws w i = Some r \<and> i \<le> r \<and> r \<le> e \<and>
              (w2i r = -1 \<or> word (ws ! nat (w2i r)) = w)"
  using assms(2-)
proof (induction "e - i" arbitrary: i)
  case 0
  then have "i = e" by simp
  with 0 show ?case by (subst find_loop.simps) simp
next
  case (Suc k)
  then have lt: "i < e" and iM: "i < MAX_VOCAB_SIZE" by simp_all
  show ?case
  proof (cases "w2i i = -1 \<or> word (ws ! nat (w2i i)) = w")
    case True
    with valid iM lt show ?thesis
      by (subst find_loop.simps) (auto simp: not_le)
  next
    case False
    have nx: "Suc i mod MAX_VOCAB_SIZE = Suc i" using lt Suc.prems by simp
    have "\<exists>r. find_loop w2i ws w (Suc i) = Some r \<and> Suc i \<le> r \<and> r \<le> e \<and>
              (w2i r = -1 \<or> word (ws ! nat (w2i r)) = w)"
      using Suc.hyps(2) Suc.prems lt by (intro Suc.hyps(1)) auto
    then obtain r where r: "find_loop w2i ws w (Suc i) = Some r" "Suc i \<le> r" "r \<le> e"
        "w2i r = -1 \<or> word (ws ! nat (w2i r)) = w"
      by blast
    from False valid iM have "find_loop w2i ws w i = find_loop w2i ws w (Suc i)"
      by (subst find_loop.simps) (auto simp: nx not_le)
    with r show ?thesis by auto
  qed
qed

lemma find_loop_terminates:
  assumes valid: "\<forall>s<MAX_VOCAB_SIZE. w2i s \<noteq> -1 \<longrightarrow> 0 \<le> w2i s \<and> w2i s < int (length ws)"
    and e: "e < MAX_VOCAB_SIZE" "w2i e = -1"
    and "i < MAX_VOCAB_SIZE"
  shows "\<exists>r<MAX_VOCAB_SIZE. find_loop w2i ws w i = Some r \<and>
              (w2i r = -1 \<or> word (ws ! nat (w2i r)) = w)"
  using assms(4)
proof (induction "MAX_VOCAB_SIZE - i" arbitrary: i)
  case 0
  then show ?case by simp
next
  case (Suc k)
  show ?case
  proof (cases "w2i i = -1 \<or> word (ws ! nat (w2i i)) = w")
    case True
    with valid Suc.prems show ?thesis
      by (subst find_loop.simps) (auto simp: not_le)
  next
    case False
    from False valid Suc.prems
    have step: "find_loop w2i ws w i = find_loop w2i ws w (Suc i mod MAX_VOCAB_SIZE)"
      by (subst find_loop.simps) (auto simp: not_le)
    show ?thesis
    proof (cases "Suc i < MAX_VOCAB_SIZE")
      case True
      then have nx: "Suc i mod MAX_VOCAB_SIZE = Suc i" by simp
      have "\<exists>r<MAX_VOCAB_SIZE. find_loop w2i ws w (Suc i) = Some r \<and>
              (w2i r = -1 \<or> word (ws ! nat (w2i r)) = w)"
        using Suc.hyps(2) True by (intro Suc.hyps(1)) auto
      with step nx show ?thesis by auto
    next
      case False
      with Suc.prems have "Suc i = MAX_VOCAB_SIZE" by simp
      then have "Suc i mod MAX_VOCAB_SIZE = 0" by simp
      with step find_loop_upto[OF valid _ e, of 0 w] e show ?thesis by auto
    qed
  qed
qed

lemma find_h_total:
  assumes "\<exists>s<MAX_VOCAB_SIZE. word2int_m d s = -1"
    and "\<forall>s<MAX_VOCAB_SIZE. word2int_m d s \<noteq> -1 \<longrightarrow>
           0 \<le> word2int_m d s \<and> word2int_m d s < int (length (words_m d))"
  shows "\<exists>i<MAX_VOCAB_SIZE. find_h d w h = Some i \<and>
           (word2int_m d i = -1 \<or> word (words_m d ! nat (word2int_m d i)) = w)"
proof -
  from assms(1) obtain e where e: "e < MAX_VOCAB_SIZE" "word2int_m d e = -1" by blast
  have "unat h mod MAX_VOCAB_SIZE < MAX_VOCAB_SIZE" by (simp add: MAX_VOCAB_SIZE_def)
  from find_loop_terminates [OF assms(2) e this] show ?thesis by (simp add: find_h_def)
qed

subsection \<open>Subsampling\<close>

lemma pdiscard_not_negative: "\<not> real_gt (Fin 0) (real_add (real_sqrt v) v)"
proof (cases v)
  case (Fin a)
  show ?thesis
  proof (cases "a < 0")
    case True
    with Fin show ?thesis by simp
  next
    case False
    then have "0 \<le> sqrt a + a" by (intro add_nonneg_nonneg) simp_all
    then have "\<not> sqrt a + a < 0" by (simp add: not_less)
    with False Fin show ?thesis by simp
  qed
qed auto

text \<open>
  C8: \<^verbatim>\<open>discard(id, r)\<close> for a valid word id depends on nothing but the training
  mode, \<open>r\<close> and \<^verbatim>\<open>pdiscard_[id]\<close>: it is false in the supervised mode and
  \<^verbatim>\<open>r > pdiscard_[id]\<close> otherwise. After \<^verbatim>\<open>initTableDiscard\<close> it compares \<open>r\<close> with
  the probability computed from the count of the entry \<open>id\<close>, and at \<open>r = 0\<close> it is
  false for every valid word id.
\<close>

theorem discard_pure:
  "(0 \<le> i \<and> i < nwords_m d \<and> nat i < length (pdiscard_m d) \<longrightarrow>
      discard d i r =
        Some (model (args_m d) \<noteq> model_sup \<and> real_gt r (pdiscard_m d ! nat i))) \<and>
   (initTableDiscard d0 = Some d1 \<and> 0 \<le> i \<and> i < nwords_m d1 \<longrightarrow>
      discard d1 i r = Some (model (args_m d0) \<noteq> model_sup \<and>
        real_gt r (pdiscard_of (args_m d0) (count (words_m d0 ! nat i)) (ntokens_m d0))) \<and>
      discard d1 i (Fin 0) = Some False)"
  by (auto simp: discard_def initTableDiscard_def pdiscard_of_def Let_def pdiscard_not_negative
      split: if_splits)

theorem discard_pure_witness:
  "discard (probe_dict\<lparr>pdiscard_m := [Fin (1 / 2), Fin 2]\<rparr>) 0 (Fin (3 / 4)) = Some True \<and>
   discard (probe_dict\<lparr>pdiscard_m := [Fin (1 / 2), Fin 2]\<rparr>) 1 (Fin (3 / 4)) = Some False \<and>
   (\<exists>d1. initTableDiscard probe_dict = Some d1 \<and> discard d1 1 (Fin 0) = Some False)"
proof -
  let ?d = "probe_dict\<lparr>pdiscard_m := [Fin (1 / 2), Fin 2]\<rparr>"
  have a: "0 \<le> (0::int) \<and> 0 < nwords_m ?d \<and> nat 0 < length (pdiscard_m ?d)"
    and b: "0 \<le> (1::int) \<and> 1 < nwords_m ?d \<and> nat 1 < length (pdiscard_m ?d)"
    by (simp_all add: probe_dict_def)
  obtain d1 where d1: "initTableDiscard probe_dict = Some d1" "nwords_m d1 = 2"
    by (simp add: initTableDiscard_def probe_dict_def)
  from discard_pure [of 0 ?d "Fin (3 / 4)"] a
  have "discard ?d 0 (Fin (3 / 4)) = Some True"
    by (simp add: probe_dict_def scenario_args_def)
  moreover from discard_pure [of 1 ?d "Fin (3 / 4)"] b
  have "discard ?d 1 (Fin (3 / 4)) = Some False"
    by (simp add: probe_dict_def scenario_args_def)
  moreover have h: "initTableDiscard probe_dict = Some d1 \<and> 0 \<le> (1::int) \<and> 1 < nwords_m d1"
    using d1 by simp
  have "discard d1 1 (Fin 0) = Some False"
    using discard_pure [of 1 ?d "Fin 0" probe_dict d1, THEN conjunct2, THEN mp, OF h]
    by (rule conjunct2)
  ultimately show ?thesis using d1 by blast
qed


subsection \<open>The hash index while entries are written\<close>

lemma finite_occupied: "finite (occupied w2i)"
  by (simp add: occupied_def)

lemma table_inv_empty: "table_inv (\<lambda>_. -1) 0"
  by (simp add: table_inv_def occupied_def)

lemma table_inv_free_slot:
  assumes "table_inv w2i n" "n < MAX_VOCAB_SIZE"
  shows "\<exists>e<MAX_VOCAB_SIZE. w2i e = -1"
proof (rule ccontr)
  assume "\<not> (\<exists>e<MAX_VOCAB_SIZE. w2i e = -1)"
  then have "occupied w2i = {..<MAX_VOCAB_SIZE}" by (auto simp: occupied_def)
  then have "card (occupied w2i) = MAX_VOCAB_SIZE" by simp
  with assms show False by (simp add: table_inv_def)
qed

lemma table_inv_update:
  assumes "table_inv w2i n"
  shows "table_inv (w2i(h := int n)) (Suc n)"
proof -
  have "occupied (w2i(h := int n)) \<subseteq> insert h (occupied w2i)"
    by (auto simp: occupied_def)
  then have "card (occupied (w2i(h := int n))) \<le> card (insert h (occupied w2i))"
    by (intro card_mono) (simp_all add: finite_occupied)
  also have "\<dots> \<le> Suc (card (occupied w2i))"
    by (simp add: card_insert_if finite_occupied)
  finally show ?thesis using assms by (auto simp: table_inv_def)
qed

lemma find_w_total:
  assumes "table_inv (word2int_m d) n" "n \<le> length (words_m d)" "n < MAX_VOCAB_SIZE"
  shows "\<exists>h<MAX_VOCAB_SIZE. find_w d w = Some h \<and>
           (word2int_m d h = -1 \<or> word (words_m d ! nat (word2int_m d h)) = w)"
proof -
  from table_inv_free_slot [OF assms(1,3)]
  have "\<exists>s<MAX_VOCAB_SIZE. word2int_m d s = -1" .
  moreover have "\<forall>s<MAX_VOCAB_SIZE. word2int_m d s \<noteq> -1 \<longrightarrow>
           0 \<le> word2int_m d s \<and> word2int_m d s < int (length (words_m d))"
    using assms(1,2) by (auto simp: table_inv_def)
  ultimately show ?thesis
    unfolding find_w_def by (rule find_h_total)
qed


lemma home_less: "home w < MAX_VOCAB_SIZE"
  by (simp add: home_def MAX_VOCAB_SIZE_def)

lemma find_loop_less:
  assumes "find_loop w2i ws w i = Some r" "i < MAX_VOCAB_SIZE"
  shows "r < MAX_VOCAB_SIZE"
proof -
  have "i < MAX_VOCAB_SIZE \<longrightarrow> r < MAX_VOCAB_SIZE"
    using assms(1)
  proof (rule find_loop.raw_induct [rotated,
        where P = "\<lambda>w2i ws w i r. i < MAX_VOCAB_SIZE \<longrightarrow> r < MAX_VOCAB_SIZE"], goal_cases)
    case (1 f w2i ws w i r)
    have "(i + 1) mod MAX_VOCAB_SIZE < MAX_VOCAB_SIZE" by (simp add: MAX_VOCAB_SIZE_def)
    with 1(1) [of w2i ws w "(i + 1) mod MAX_VOCAB_SIZE" r] 1(2)
    show ?case by (auto split: if_splits)
  qed
  with assms(2) show ?thesis by simp
qed

lemma find_loop_cong:
  assumes "find_loop w2i ws w i = Some r" "i < MAX_VOCAB_SIZE"
    "\<forall>s<MAX_VOCAB_SIZE. w2i s \<noteq> -1 \<longrightarrow> w2i s < int n"
    "n \<le> length ws'" "\<forall>k<n. word (ws' ! k) = word (ws ! k)"
  shows "find_loop w2i ws' w i = Some r"
proof -
  have "i < MAX_VOCAB_SIZE \<longrightarrow> (\<forall>s<MAX_VOCAB_SIZE. w2i s \<noteq> -1 \<longrightarrow> w2i s < int n) \<longrightarrow>
        (\<forall>k<n. word (ws' ! k) = word (ws ! k)) \<longrightarrow> find_loop w2i ws' w i = Some r"
    using assms(1)
  proof (rule find_loop.raw_induct [rotated,
        where P = "\<lambda>w2i ws w i r. i < MAX_VOCAB_SIZE \<longrightarrow>
          (\<forall>s<MAX_VOCAB_SIZE. w2i s \<noteq> -1 \<longrightarrow> w2i s < int n) \<longrightarrow>
          (\<forall>k<n. word (ws' ! k) = word (ws ! k)) \<longrightarrow> find_loop w2i ws' w i = Some r"],
      goal_cases)
    case (1 f w2i ws w i r)
    show ?case
    proof (intro impI)
      assume iM: "i < MAX_VOCAB_SIZE"
        and val: "\<forall>s<MAX_VOCAB_SIZE. w2i s \<noteq> -1 \<longrightarrow> w2i s < int n"
        and eqs: "\<forall>k<n. word (ws' ! k) = word (ws ! k)"
      have nx: "(i + 1) mod MAX_VOCAB_SIZE < MAX_VOCAB_SIZE" by (simp add: MAX_VOCAB_SIZE_def)
      show "find_loop w2i ws' w i = Some r"
      proof (cases "w2i i = -1")
        case True
        with 1(2) have "r = i" by simp
        with True show ?thesis by (subst find_loop.simps) simp
      next
        case False
        with 1(2) have v: "0 \<le> w2i i" "w2i i < int (length ws)"
          by (auto split: if_splits)
        from False iM val have lt: "w2i i < int n" by simp
        with v have kn: "nat (w2i i) < n" by simp
        with eqs have eq: "word (ws' ! nat (w2i i)) = word (ws ! nat (w2i i))" by simp
        from lt assms(4) have v': "w2i i < int (length ws')" by simp
        show ?thesis
        proof (cases "word (ws ! nat (w2i i)) = w")
          case True
          with False v 1(2) have "r = i" by (simp add: not_le)
          with False v v' eq True show ?thesis by (subst find_loop.simps) (simp add: not_le)
        next
          case ne: False
          with False v 1(2)
          have "f w2i ws w ((i + 1) mod MAX_VOCAB_SIZE) = Some r" by (simp add: not_le)
          from 1(1) [OF this] nx val eqs
          have "find_loop w2i ws' w ((i + 1) mod MAX_VOCAB_SIZE) = Some r" by blast
          with False v v' eq ne show ?thesis by (subst find_loop.simps) (simp add: not_le)
        qed
      qed
    qed
  qed
  with assms show ?thesis by blast
qed

lemma find_loop_update_other:
  assumes "find_loop w2i ws w i = Some r" "w2i h = -1" "h \<noteq> r"
  shows "find_loop (w2i(h := v)) ws w i = Some r"
proof -
  have "w2i h = -1 \<longrightarrow> h \<noteq> r \<longrightarrow> find_loop (w2i(h := v)) ws w i = Some r"
    using assms(1)
  proof (rule find_loop.raw_induct [rotated,
        where P = "\<lambda>w2i ws w i r. w2i h = -1 \<longrightarrow> h \<noteq> r \<longrightarrow>
          find_loop (w2i(h := v)) ws w i = Some r"], goal_cases)
    case (1 f w2i ws w i r)
    show ?case
    proof (intro impI)
      assume hm: "w2i h = -1" and hr: "h \<noteq> r"
      show "find_loop (w2i(h := v)) ws w i = Some r"
      proof (cases "w2i i = -1")
        case True
        with 1(2) have "r = i" by simp
        with True hr show ?thesis by (subst find_loop.simps) simp
      next
        case False
        with hm have ih: "i \<noteq> h" by auto
        from False 1(2) have v: "0 \<le> w2i i" "w2i i < int (length ws)"
          by (auto split: if_splits)
        show ?thesis
        proof (cases "word (ws ! nat (w2i i)) = w")
          case True
          with False v 1(2) have "r = i" by (simp add: not_le)
          with False v True ih show ?thesis by (subst find_loop.simps) (simp add: not_le)
        next
          case ne: False
          with False v 1(2)
          have "f w2i ws w ((i + 1) mod MAX_VOCAB_SIZE) = Some r" by (simp add: not_le)
          from 1(1) [OF this] hm hr
          have "find_loop (w2i(h := v)) ws w ((i + 1) mod MAX_VOCAB_SIZE) = Some r" by blast
          with False v ne ih show ?thesis by (subst find_loop.simps) (simp add: not_le)
        qed
      qed
    qed
  qed
  with assms show ?thesis by blast
qed

lemma find_loop_update_hit:
  assumes "find_loop w2i ws w i = Some r" "w2i r = -1"
    "0 \<le> v" "v < int (length ws)" "word (ws ! nat v) = w"
  shows "find_loop (w2i(r := v)) ws w i = Some r"
proof -
  have "w2i r = -1 \<longrightarrow> v < int (length ws) \<longrightarrow> word (ws ! nat v) = w \<longrightarrow>
      find_loop (w2i(r := v)) ws w i = Some r"
    using assms(1)
  proof (rule find_loop.raw_induct [rotated,
        where P = "\<lambda>w2i ws w i r. w2i r = -1 \<longrightarrow> v < int (length ws) \<longrightarrow>
          word (ws ! nat v) = w \<longrightarrow> find_loop (w2i(r := v)) ws w i = Some r"], goal_cases)
    case (1 f w2i ws w i r)
    show ?case
    proof (intro impI)
      assume rm: "w2i r = -1" and vl: "v < int (length ws)" and vw: "word (ws ! nat v) = w"
      show "find_loop (w2i(r := v)) ws w i = Some r"
      proof (cases "w2i i = -1")
        case True
        with 1(2) have "r = i" by simp
        with assms(3) vl vw show ?thesis by (subst find_loop.simps) (simp add: not_le)
      next
        case False
        with rm have ih: "i \<noteq> r" by auto
        from False 1(2) have v: "0 \<le> w2i i" "w2i i < int (length ws)"
          by (auto split: if_splits)
        show ?thesis
        proof (cases "word (ws ! nat (w2i i)) = w")
          case True
          with False v 1(2) have "r = i" by (simp add: not_le)
          with ih show ?thesis by simp
        next
          case ne: False
          with False v 1(2)
          have "f w2i ws w ((i + 1) mod MAX_VOCAB_SIZE) = Some r" by (simp add: not_le)
          from 1(1) [OF this] rm vl vw
          have "find_loop (w2i(r := v)) ws w ((i + 1) mod MAX_VOCAB_SIZE) = Some r" by blast
          with False v ne ih show ?thesis by (subst find_loop.simps) (simp add: not_le)
        qed
      qed
    qed
  qed
  with assms show ?thesis by blast
qed

lemma index_inv_empty: "index_inv (\<lambda>_. -1) ws 0"
  by (simp add: index_inv_def table_inv_empty)

lemma index_inv_cong:
  assumes "index_inv w2i ws n" "n \<le> length ws'" "\<forall>k<n. word (ws' ! k) = word (ws ! k)"
  shows "index_inv w2i ws' n"
proof -
  from assms(1) have t: "table_inv w2i n" and l: "n \<le> length ws"
    and d: "distinct (map word (take n ws))"
    and f: "\<And>k. k < n \<Longrightarrow> \<exists>h<MAX_VOCAB_SIZE.
        find_loop w2i ws (word (ws ! k)) (home (word (ws ! k))) = Some h \<and> w2i h = int k"
    by (simp_all add: index_inv_def)
  from t have v: "\<forall>s<MAX_VOCAB_SIZE. w2i s \<noteq> -1 \<longrightarrow> w2i s < int n"
    by (simp add: table_inv_def)
  have m: "map word (take n ws') = map word (take n ws)"
    using assms(2,3) l by (intro nth_equalityI) simp_all
  have "\<forall>k<n. \<exists>h<MAX_VOCAB_SIZE.
        find_loop w2i ws' (word (ws' ! k)) (home (word (ws' ! k))) = Some h \<and> w2i h = int k"
  proof (intro allI impI)
    fix k assume k: "k < n"
    from f [OF k] obtain h where h: "h < MAX_VOCAB_SIZE"
      "find_loop w2i ws (word (ws ! k)) (home (word (ws ! k))) = Some h" "w2i h = int k"
      by blast
    from find_loop_cong [OF h(2) home_less v assms(2,3)] k assms(3) h(1,3)
    show "\<exists>h<MAX_VOCAB_SIZE.
        find_loop w2i ws' (word (ws' ! k)) (home (word (ws' ! k))) = Some h \<and> w2i h = int k"
      by auto
  qed
  with t assms(2) d m show ?thesis by (simp add: index_inv_def)
qed

lemma index_inv_miss:
  assumes "index_inv w2i ws n" "n < MAX_VOCAB_SIZE" "w \<notin> word ` set (take n ws)"
  shows "\<exists>h<MAX_VOCAB_SIZE. find_loop w2i ws w (home w) = Some h \<and> w2i h = -1"
proof -
  from assms(1) have t: "table_inv w2i n" and l: "n \<le> length ws"
    by (simp_all add: index_inv_def)
  have v: "\<forall>s<MAX_VOCAB_SIZE. w2i s \<noteq> -1 \<longrightarrow> 0 \<le> w2i s \<and> w2i s < int (length ws)"
    using t l by (auto simp: table_inv_def)
  from table_inv_free_slot [OF t assms(2)] obtain e where e: "e < MAX_VOCAB_SIZE" "w2i e = -1"
    by blast
  from find_loop_terminates [OF v e home_less, of w]
  obtain h where h: "h < MAX_VOCAB_SIZE" "find_loop w2i ws w (home w) = Some h"
    "w2i h = -1 \<or> word (ws ! nat (w2i h)) = w" by blast
  have "w2i h = -1"
  proof (rule ccontr)
    assume ne: "w2i h \<noteq> -1"
    with h(1) t have r: "0 \<le> w2i h" "w2i h < int n" by (auto simp: table_inv_def)
    then have "nat (w2i h) < n" by simp
    with l have "ws ! nat (w2i h) \<in> set (take n ws)"
      by (auto simp: in_set_conv_nth intro!: exI [of _ "nat (w2i h)"])
    moreover from ne h(3) have "word (ws ! nat (w2i h)) = w" by simp
    ultimately show False using assms(3) by force
  qed
  with h show ?thesis by blast
qed

lemma index_inv_insert:
  assumes "index_inv w2i ws n" "n < length ws" "n < MAX_VOCAB_SIZE"
    "word (ws ! n) \<notin> word ` set (take n ws)"
    "find_loop w2i ws (word (ws ! n)) (home (word (ws ! n))) = Some h"
  shows "index_inv (w2i(h := int n)) ws (Suc n)"
proof -
  from assms(1) have t: "table_inv w2i n" and l: "n \<le> length ws"
    and d: "distinct (map word (take n ws))"
    and f: "\<And>k. k < n \<Longrightarrow> \<exists>h<MAX_VOCAB_SIZE.
        find_loop w2i ws (word (ws ! k)) (home (word (ws ! k))) = Some h \<and> w2i h = int k"
    by (simp_all add: index_inv_def)
  from index_inv_miss [OF assms(1,3,4)] assms(5)
  have h: "h < MAX_VOCAB_SIZE" "w2i h = -1" by auto
  have t': "table_inv (w2i(h := int n)) (Suc n)" by (rule table_inv_update [OF t])
  have d': "distinct (map word (take (Suc n) ws))"
    using d assms(2,4) by (simp add: take_Suc_conv_app_nth)
  have "\<forall>k<Suc n. \<exists>h'<MAX_VOCAB_SIZE.
        find_loop (w2i(h := int n)) ws (word (ws ! k)) (home (word (ws ! k))) = Some h' \<and>
        (w2i(h := int n)) h' = int k"
  proof (intro allI impI)
    fix k assume "k < Suc n"
    then consider "k < n" | "k = n" by linarith
    then show "\<exists>h'<MAX_VOCAB_SIZE.
        find_loop (w2i(h := int n)) ws (word (ws ! k)) (home (word (ws ! k))) = Some h' \<and>
        (w2i(h := int n)) h' = int k"
    proof cases
      case 1
      from f [OF 1] obtain hk where hk: "hk < MAX_VOCAB_SIZE"
        "find_loop w2i ws (word (ws ! k)) (home (word (ws ! k))) = Some hk" "w2i hk = int k"
        by blast
      from hk(3) h(2) have ne: "h \<noteq> hk" by auto
      from find_loop_update_other [OF hk(2) h(2) ne, of "int n"] hk(1,3) ne
      show ?thesis by (intro exI [of _ hk]) simp
    next
      case 2
      from find_loop_update_hit [OF assms(5) h(2), of "int n"] assms(2)
      have "find_loop (w2i(h := int n)) ws (word (ws ! n)) (home (word (ws ! n))) = Some h"
        by simp
      with 2 h(1) show ?thesis by (intro exI [of _ h]) simp
    qed
  qed
  with t' d' assms(2) show ?thesis by (simp add: index_inv_def)
qed

lemma find_w_home: "find_w d w = find_loop (word2int_m d) (words_m d) w (home w)"
  by (simp add: find_w_def find_h_def home_def)

lemma index_inv_table: "index_inv w2i ws n \<Longrightarrow> table_inv w2i n"
  by (simp add: index_inv_def)

lemma nth_notin_take:
  assumes "distinct (map f xs)" "k < length xs"
  shows "f (xs ! k) \<notin> f ` set (take k xs)"
proof
  assume "f (xs ! k) \<in> f ` set (take k xs)"
  then obtain j where j: "j < k" "f (xs ! j) = f (xs ! k)"
    using assms(2) by (auto simp: in_set_conv_nth)
  from j(1) assms(2) have jl: "j < length (map f xs)" and kl: "k < length (map f xs)"
    by simp_all
  from j(2) jl kl have "map f xs ! j = map f xs ! k" by simp
  with nth_eq_iff_index_eq [OF assms(1) jl kl] j(1) show False by simp
qed

lemma index_inv_getId_hit:
  assumes "index_inv (word2int_m d) (words_m d) n" "k < n"
  shows "getId d (word (words_m d ! k)) = Some (int k)"
  using assms by (auto simp: index_inv_def getId_def find_w_home)

lemma index_inv_getId_miss:
  assumes "index_inv (word2int_m d) (words_m d) n" "n < MAX_VOCAB_SIZE"
    "w \<notin> word ` set (take n (words_m d))"
  shows "getId d w = Some (-1)"
  using index_inv_miss [OF assms] by (auto simp: getId_def find_w_home)

lemma index_inv_in_vocab:
  assumes "index_inv (word2int_m d) (words_m d) n" "n < MAX_VOCAB_SIZE"
  shows "in_vocab d w \<longleftrightarrow> w \<in> word ` set (take n (words_m d))"
proof (cases "w \<in> word ` set (take n (words_m d))")
  case False
  with index_inv_getId_miss [OF assms this] show ?thesis by (simp add: in_vocab_def)
next
  case True
  from assms(1) have "n \<le> length (words_m d)" by (simp add: index_inv_def)
  with True obtain k where k: "k < n" "word (words_m d ! k) = w"
    by (auto simp: in_set_conv_nth)
  from index_inv_getId_hit [OF assms(1) k(1)] k(2) True show ?thesis
    by (simp add: in_vocab_def)
qed


subsection \<open>The builder\<close>

text \<open>
  \<^verbatim>\<open>add\<close> and \<^verbatim>\<open>threshold\<close> keep the invariant of the builder, so the loop of
  \<^verbatim>\<open>readFromFile\<close> returns for every corpus, and what \<^verbatim>\<open>readFromFile\<close> returns
  is current, can be read line by line, and can be stored and pruned.
\<close>

lemma set_insert_by: "set (insert_by lt x ys) = insert x (set ys)"
  by (induction ys) auto

lemma length_insert_by: "length (insert_by lt x ys) = Suc (length ys)"
  by (induction ys) auto

lemma set_sort_by: "set (sort_by lt xs) = set xs"
  by (induction xs) (simp_all add: sort_by_def set_insert_by)

lemma length_sort_by: "length (sort_by lt xs) = length xs"
  by (induction xs) (simp_all add: sort_by_def length_insert_by)

lemma distinct_map_insert_by:
  "distinct (map f (insert_by lt x ys)) \<longleftrightarrow> distinct (map f (x # ys))"
  by (induction ys) (auto simp: set_insert_by)

lemma distinct_map_sort_by: "distinct (map f (sort_by lt xs)) \<longleftrightarrow> distinct (map f xs)"
proof (induction xs)
  case Nil
  show ?case by (simp add: sort_by_def)
next
  case (Cons x xs)
  have "sort_by lt (x # xs) = insert_by lt x (sort_by lt xs)" by (simp add: sort_by_def)
  with Cons show ?case by (simp add: distinct_map_insert_by set_sort_by)
qed

lemma readWord_loop_no_NUL:
  "readWord_loop s w = (True, w', s') \<Longrightarrow> CHR 0x00 \<notin> set w \<Longrightarrow> CHR 0x00 \<notin> set w'"
proof (induction s w arbitrary: w' s' rule: readWord_loop.induct)
  case (1 s w)
  obtain r s1 where b: "sbumpc s = (r, s1)" by (cases "sbumpc s")
  define c where "c = (char_of r :: char)"
  have "readWord_loop s w =
     (if schar c \<noteq> EOF then
        (if is_separator c then
           (if w = [] then
              (if c = CHR 0x0A then (True, w @ EOS, s1)
               else readWord_loop s1 w)
            else (True, w, if c = CHR 0x0A then sungetc s1 else s1))
         else readWord_loop s1 (w @ [c]))
      else (w \<noteq> [], w, snd (get s1)))"
    by (subst readWord_loop.simps) (simp only: b Let_def prod.case c_def)
  from this [symmetric] "1.prems"(1) have unf:
    "(if schar c \<noteq> EOF then
        (if is_separator c then
           (if w = [] then
              (if c = CHR 0x0A then (True, w @ EOS, s1)
               else readWord_loop s1 w)
            else (True, w, if c = CHR 0x0A then sungetc s1 else s1))
         else readWord_loop s1 (w @ [c]))
      else (w \<noteq> [], w, snd (get s1))) = (True, w', s')"
    by (rule trans)
  show ?case
  proof (cases "schar c \<noteq> EOF")
    case False
    with unf "1.prems"(2) show ?thesis by auto
  next
    case True
    show ?thesis
    proof (cases "is_separator c")
      case sep: True
      show ?thesis
      proof (cases "w = []")
        case wnil: True
        show ?thesis
        proof (cases "c = CHR 0x0A")
          case True
          with unf \<open>schar c \<noteq> EOF\<close> sep wnil show ?thesis by (auto simp: EOS_def)
        next
          case False
          with unf \<open>schar c \<noteq> EOF\<close> sep wnil
          have "readWord_loop s1 w = (True, w', s')" by auto
          from "1.IH"(1) [OF b [symmetric] refl c_def \<open>schar c \<noteq> EOF\<close> sep wnil False this]
            "1.prems"(2)
          show ?thesis by auto
        qed
      next
        case False
        with unf \<open>schar c \<noteq> EOF\<close> sep "1.prems"(2) show ?thesis
          by (auto split: if_splits)
      qed
    next
      case False
      with unf \<open>schar c \<noteq> EOF\<close>
      have "readWord_loop s1 (w @ [c]) = (True, w', s')" by auto
      moreover from False have "c \<noteq> CHR 0x00" by (auto simp: is_separator_def)
      ultimately show ?thesis
        using "1.IH"(2) [OF b [symmetric] refl c_def \<open>schar c \<noteq> EOF\<close> False] "1.prems"(2)
        by auto
    qed
  qed
qed

lemma readWord_no_NUL: "readWord s = (True, w, s') \<Longrightarrow> CHR 0x00 \<notin> set w"
  using readWord_loop_no_NUL [of s "[]" w s'] by (simp add: readWord_def)

lemma threshold_loop_result:
  assumes "index_inv (word2int_m d) (words_m d) k" "nwords_m d = int k"
    "it = drop k (words_m d)" "length (words_m d) \<le> MAX_VOCAB_SIZE"
    "distinct (map word (words_m d))"
  shows "\<exists>d'. threshold_loop d it = Some d' \<and>
           d' = d\<lparr>word2int_m := word2int_m d', nwords_m := int (length (words_m d))\<rparr> \<and>
           index_inv (word2int_m d') (words_m d) (length (words_m d))"
  using assms
proof (induction it arbitrary: d k)
  case Nil
  then have "k = length (words_m d)" by (simp add: index_inv_def)
  with Nil show ?case by simp
next
  case (Cons e it)
  let ?ws = "words_m d"
  from Cons.prems(3) have kl: "k < length ?ws"
    by (metis drop_eq_Nil list.distinct(1) not_le)
  with Cons.prems(3) have e: "e = ?ws ! k" and it: "it = drop (Suc k) ?ws"
    by (simp_all add: Cons_nth_drop_Suc [symmetric])
  from kl Cons.prems(4) have kM: "k < MAX_VOCAB_SIZE" by simp
  from find_w_total [OF index_inv_table [OF Cons.prems(1)] _ kM, of "word e"] kl
  obtain h where h: "find_w d (word e) = Some h" by auto
  define d2 where "d2 = d\<lparr>word2int_m := (word2int_m d)(h := nwords_m d),
    nwords_m := nwords_m d + 1\<rparr>"
  have d2: "word2int_m d2 = (word2int_m d)(h := int k)" "nwords_m d2 = int (Suc k)"
    "words_m d2 = ?ws"
    by (simp_all add: d2_def Cons.prems(2))
  have inv2: "index_inv (word2int_m d2) (words_m d2) (Suc k)"
    unfolding d2
  proof (rule index_inv_insert [OF Cons.prems(1) kl kM])
    show "word (?ws ! k) \<notin> word ` set (take k ?ws)"
      by (rule nth_notin_take [OF Cons.prems(5) kl])
    show "find_loop (word2int_m d) ?ws (word (?ws ! k)) (home (word (?ws ! k))) = Some h"
      using h by (simp add: find_w_home e)
  qed
  have "\<exists>d'. threshold_loop d2 it = Some d' \<and>
           d' = d2\<lparr>word2int_m := word2int_m d', nwords_m := int (length (words_m d2))\<rparr> \<and>
           index_inv (word2int_m d') (words_m d2) (length (words_m d2))"
  proof (rule Cons.IH)
    show "index_inv (word2int_m d2) (words_m d2) (Suc k)" by (rule inv2)
    show "nwords_m d2 = int (Suc k)" by (rule d2(2))
    show "it = drop (Suc k) (words_m d2)" by (simp add: it d2(3))
    show "length (words_m d2) \<le> MAX_VOCAB_SIZE" using Cons.prems(4) by (simp add: d2(3))
    show "distinct (map word (words_m d2))" using Cons.prems(5) by (simp add: d2(3))
  qed
  then obtain d' where d': "threshold_loop d2 it = Some d'"
    "d' = d2\<lparr>word2int_m := word2int_m d', nwords_m := int (length ?ws)\<rparr>"
    "index_inv (word2int_m d') ?ws (length ?ws)" unfolding d2(3) by blast
  have "threshold_loop d (e # it) = Some d'"
    using h d'(1) by (simp add: d2_def)
  moreover have "d' = d\<lparr>word2int_m := word2int_m d', nwords_m := int (length ?ws)\<rparr>"
    by (subst d'(2)) (simp add: d2_def)
  ultimately show ?case using d'(3) by simp
qed

lemma threshold_result:
  assumes "length (words_m d) \<le> MAX_VOCAB_SIZE" "distinct (map word (words_m d))"
  shows "\<exists>d'. threshold d t = Some d' \<and>
           words_m d' = filter (\<lambda>e. \<not> count e < t)
             (sort_by (\<lambda>e1 e2. count e1 > count e2) (words_m d)) \<and>
           d' = d\<lparr>words_m := words_m d', word2int_m := word2int_m d',
                  nwords_m := int (length (words_m d'))\<rparr> \<and>
           index_inv (word2int_m d') (words_m d') (length (words_m d'))"
proof -
  define ws where "ws = filter (\<lambda>e. \<not> count e < t)
             (sort_by (\<lambda>e1 e2. count e1 > count e2) (words_m d))"
  define d0 where "d0 = d\<lparr>words_m := ws, nwords_m := 0, word2int_m := (\<lambda>_. -1)\<rparr>"
  have "length ws \<le> length (words_m d)"
    unfolding ws_def using length_filter_le [of _ "sort_by (\<lambda>e1 e2. count e1 > count e2) (words_m d)"]
    by (simp add: length_sort_by)
  with assms have len: "length ws \<le> MAX_VOCAB_SIZE" by simp
  have dis: "distinct (map word ws)"
    unfolding ws_def using assms(2) by (intro distinct_map_filter) (simp add: distinct_map_sort_by)
  have "\<exists>d'. threshold_loop d0 ws = Some d' \<and>
           d' = d0\<lparr>word2int_m := word2int_m d', nwords_m := int (length (words_m d0))\<rparr> \<and>
           index_inv (word2int_m d') (words_m d0) (length (words_m d0))"
    using len dis by (intro threshold_loop_result [where k = 0]) (simp_all add: d0_def index_inv_empty)
  then obtain d' where d': "threshold_loop d0 ws = Some d'"
    "d' = d0\<lparr>word2int_m := word2int_m d', nwords_m := int (length ws)\<rparr>"
    "index_inv (word2int_m d') ws (length ws)" by (auto simp: d0_def)
  from arg_cong [OF d'(2), of words_m] have w: "words_m d' = ws" by (simp add: d0_def)
  have "threshold d t = Some d'"
    using d'(1) by (simp add: threshold_def ws_def d0_def Let_def)
  moreover have "d' = d\<lparr>words_m := words_m d', word2int_m := word2int_m d',
                  nwords_m := int (length (words_m d'))\<rparr>"
    unfolding w by (subst d'(2)) (simp add: d0_def)
  ultimately show ?thesis using d'(3) w ws_def by simp
qed

lemma add_w_result:
  assumes "index_inv (word2int_m d) (words_m d) (length (words_m d))"
    "nwords_m d = int (length (words_m d))" "length (words_m d) < MAX_VOCAB_SIZE"
  shows "\<exists>d'. add_w d w = Some d' \<and>
           index_inv (word2int_m d') (words_m d') (length (words_m d')) \<and>
           nwords_m d' = int (length (words_m d')) \<and>
           ((words_m d' = words_m d @ [\<lparr>word = w, count = 1\<rparr>] \<and>
             d' = d\<lparr>ntokens_m := ntokens_m d + 1, words_m := words_m d',
                    word2int_m := word2int_m d', nwords_m := nwords_m d + 1\<rparr>) \<or>
            (\<exists>k<length (words_m d). word (words_m d ! k) = w \<and>
               d' = d\<lparr>ntokens_m := ntokens_m d + 1,
                 words_m := (words_m d)[k := (words_m d ! k)\<lparr>count := count (words_m d ! k) + 1\<rparr>]\<rparr>))"
proof -
  let ?ws = "words_m d"
  let ?n = "length ?ws"
  note t = index_inv_table [OF assms(1)]
  from find_w_total [OF t le_refl assms(3), of w]
  obtain h where h: "h < MAX_VOCAB_SIZE" "find_w d w = Some h"
    "word2int_m d h = -1 \<or> word (?ws ! nat (word2int_m d h)) = w" by blast
  from h(2) have fl: "find_loop (word2int_m d) ?ws w (home w) = Some h" by (simp add: find_w_home)
  from t have val: "\<forall>s<MAX_VOCAB_SIZE. word2int_m d s \<noteq> -1 \<longrightarrow> word2int_m d s < int ?n"
    by (simp add: table_inv_def)
  show ?thesis
  proof (cases "word2int_m d h = -1")
    case True
    define ws' where "ws' = ?ws @ [\<lparr>word = w, count = 1\<rparr>]"
    define d' where "d' = d\<lparr>ntokens_m := ntokens_m d + 1, words_m := ws',
       word2int_m := (word2int_m d)(h := nwords_m d), nwords_m := nwords_m d + 1\<rparr>"
    have a: "add_w d w = Some d'"
      using h(2) True by (simp add: add_w_def d'_def ws'_def Let_def)
    have nin: "w \<notin> word ` set ?ws"
    proof
      assume "w \<in> word ` set ?ws"
      then obtain k where k: "k < ?n" "word (?ws ! k) = w" by (auto simp: in_set_conv_nth)
      with assms(1) obtain hk where
        "find_loop (word2int_m d) ?ws (word (?ws ! k)) (home (word (?ws ! k))) = Some hk"
        "word2int_m d hk = int k"
        unfolding index_inv_def by blast
      with k(2) fl True show False by simp
    qed
    have pre: "\<forall>k<?n. word (ws' ! k) = word (?ws ! k)" by (simp add: ws'_def nth_append)
    have i1: "index_inv (word2int_m d) ws' ?n"
      by (rule index_inv_cong [OF assms(1) _ pre]) (simp add: ws'_def)
    have fl': "find_loop (word2int_m d) ws' w (home w) = Some h"
      by (rule find_loop_cong [OF fl home_less val _ pre]) (simp add: ws'_def)
    have "index_inv ((word2int_m d)(h := int ?n)) ws' (Suc ?n)"
    proof (rule index_inv_insert [OF i1 _ assms(3)])
      show "?n < length ws'" by (simp add: ws'_def)
      show "word (ws' ! ?n) \<notin> word ` set (take ?n ws')" using nin by (simp add: ws'_def)
      show "find_loop (word2int_m d) ws' (word (ws' ! ?n)) (home (word (ws' ! ?n))) = Some h"
        using fl' by (simp add: ws'_def)
    qed
    then have "index_inv (word2int_m d') (words_m d') (length (words_m d'))"
      by (simp add: d'_def assms(2) ws'_def)
    with a show ?thesis
      by (intro exI [of _ d']) (simp add: d'_def assms(2) ws'_def)
  next
    case False
    with h(3) have m: "word (?ws ! nat (word2int_m d h)) = w" by simp
    from False h(1) t have r: "0 \<le> word2int_m d h" "word2int_m d h < int ?n"
      by (auto simp: table_inv_def)
    define k where "k = nat (word2int_m d h)"
    define ws' where "ws' = ?ws[k := (?ws ! k)\<lparr>count := count (?ws ! k) + 1\<rparr>]"
    define d' where "d' = d\<lparr>ntokens_m := ntokens_m d + 1, words_m := ws'\<rparr>"
    have a: "add_w d w = Some d'"
      using h(2) False by (simp add: add_w_def d'_def ws'_def Let_def k_def)
    have kn: "k < ?n" using r by (simp add: k_def)
    have pre: "\<forall>j<?n. word (ws' ! j) = word (?ws ! j)"
    proof (intro allI impI)
      fix j assume "j < ?n"
      then show "word (ws' ! j) = word (?ws ! j)"
        by (cases "j = k") (simp_all add: ws'_def)
    qed
    have "index_inv (word2int_m d) ws' ?n"
      by (rule index_inv_cong [OF assms(1) _ pre]) (simp add: ws'_def)
    then have i: "index_inv (word2int_m d') (words_m d') (length (words_m d'))"
      by (simp add: d'_def ws'_def)
    have "\<exists>k<?n. word (?ws ! k) = w \<and>
       d' = d\<lparr>ntokens_m := ntokens_m d + 1,
         words_m := ?ws[k := (?ws ! k)\<lparr>count := count (?ws ! k) + 1\<rparr>]\<rparr>"
      using kn m by (intro exI [of _ k]) (simp add: d'_def ws'_def k_def)
    moreover have "nwords_m d' = int (length (words_m d'))"
      using assms(2) by (simp add: d'_def ws'_def)
    ultimately show ?thesis using a i by blast
  qed
qed

lemma add_w_built:
  assumes "built d" "CHR 0x00 \<notin> set w"
  shows "\<exists>d'. add_w d w = Some d' \<and>
           nwords_m d' = int (length (words_m d')) \<and>
           index_inv (word2int_m d') (words_m d') (length (words_m d')) \<and>
           length (words_m d') \<le> 22500001 \<and>
           ntokens_m d' = ntokens_m d + 1 \<and>
           (\<forall>e\<in>set (words_m d'). CHR 0x00 \<notin> set (word e) \<and> 1 \<le> count e \<and>
              count e \<le> ntokens_m d') \<and>
           (22500000 < length (words_m d') \<longrightarrow> (\<exists>e\<in>set (words_m d'). count e = 1)) \<and>
           args_m d' = args_m d \<and> pdiscard_m d' = pdiscard_m d \<and>
           pruneidx_m d' = pruneidx_m d \<and> pruneidx_size_m d' = pruneidx_size_m d"
proof -
  from assms(1) have b: "nwords_m d = int (length (words_m d))"
    "index_inv (word2int_m d) (words_m d) (length (words_m d))" "length (words_m d) \<le> 22500000"
    "0 \<le> ntokens_m d"
    and es: "\<And>e. e \<in> set (words_m d) \<Longrightarrow>
      CHR 0x00 \<notin> set (word e) \<and> 1 \<le> count e \<and> count e \<le> ntokens_m d"
    by (simp_all add: built_def)
  from b(3) have lt: "length (words_m d) < MAX_VOCAB_SIZE" by (simp add: MAX_VOCAB_SIZE_def)
  from add_w_result [OF b(2) b(1) lt, of w]
  obtain d' where d': "add_w d w = Some d'"
    "index_inv (word2int_m d') (words_m d') (length (words_m d'))"
    "nwords_m d' = int (length (words_m d'))"
    "(words_m d' = words_m d @ [\<lparr>word = w, count = 1\<rparr>] \<and>
       d' = d\<lparr>ntokens_m := ntokens_m d + 1, words_m := words_m d',
              word2int_m := word2int_m d', nwords_m := nwords_m d + 1\<rparr>) \<or>
     (\<exists>k<length (words_m d). word (words_m d ! k) = w \<and>
        d' = d\<lparr>ntokens_m := ntokens_m d + 1,
          words_m := (words_m d)[k := (words_m d ! k)\<lparr>count := count (words_m d ! k) + 1\<rparr>]\<rparr>)"
    by blast
  from d'(4) show ?thesis
  proof (elim disjE conjE exE)
    assume w: "words_m d' = words_m d @ [\<lparr>word = w, count = 1\<rparr>]"
      and e: "d' = d\<lparr>ntokens_m := ntokens_m d + 1, words_m := words_m d',
              word2int_m := word2int_m d', nwords_m := nwords_m d + 1\<rparr>"
    from arg_cong [OF e, of ntokens_m] arg_cong [OF e, of args_m] arg_cong [OF e, of pdiscard_m]
      arg_cong [OF e, of pruneidx_m] arg_cong [OF e, of pruneidx_size_m]
    have fr: "ntokens_m d' = ntokens_m d + 1" "args_m d' = args_m d"
      "pdiscard_m d' = pdiscard_m d" "pruneidx_m d' = pruneidx_m d"
      "pruneidx_size_m d' = pruneidx_size_m d" by simp_all
    have "\<forall>e\<in>set (words_m d'). CHR 0x00 \<notin> set (word e) \<and> 1 \<le> count e \<and>
              count e \<le> ntokens_m d'"
    proof
      fix x assume "x \<in> set (words_m d')"
      then have "x = \<lparr>word = w, count = 1\<rparr> \<or> x \<in> set (words_m d)" by (auto simp: w)
      then show "CHR 0x00 \<notin> set (word x) \<and> 1 \<le> count x \<and> count x \<le> ntokens_m d'"
        using es [of x] assms(2) b(4) by (auto simp: fr(1))
    qed
    moreover have "\<exists>e\<in>set (words_m d'). count e = 1" by (simp add: w)
    moreover have "length (words_m d') \<le> 22500001" using b(3) by (simp add: w)
    ultimately show ?thesis using d'(1-3) fr by blast
  next
    fix k assume k: "k < length (words_m d)" "word (words_m d ! k) = w"
      and e: "d' = d\<lparr>ntokens_m := ntokens_m d + 1,
          words_m := (words_m d)[k := (words_m d ! k)\<lparr>count := count (words_m d ! k) + 1\<rparr>]\<rparr>"
    from arg_cong [OF e, of ntokens_m] arg_cong [OF e, of args_m] arg_cong [OF e, of pdiscard_m]
      arg_cong [OF e, of pruneidx_m] arg_cong [OF e, of pruneidx_size_m]
      arg_cong [OF e, of words_m]
    have fr: "ntokens_m d' = ntokens_m d + 1" "args_m d' = args_m d"
      "pdiscard_m d' = pdiscard_m d" "pruneidx_m d' = pruneidx_m d"
      "pruneidx_size_m d' = pruneidx_size_m d"
      and w: "words_m d' = (words_m d)[k := (words_m d ! k)\<lparr>count := count (words_m d ! k) + 1\<rparr>]"
      by simp_all
    have "\<forall>e\<in>set (words_m d'). CHR 0x00 \<notin> set (word e) \<and> 1 \<le> count e \<and>
              count e \<le> ntokens_m d'"
    proof
      fix x assume "x \<in> set (words_m d')"
      then have "x = (words_m d ! k)\<lparr>count := count (words_m d ! k) + 1\<rparr> \<or> x \<in> set (words_m d)"
        unfolding w using set_update_subset_insert [of "words_m d" k] by auto
      moreover from k(1) have "words_m d ! k \<in> set (words_m d)" by simp
      ultimately show "CHR 0x00 \<notin> set (word x) \<and> 1 \<le> count x \<and> count x \<le> ntokens_m d'"
        using es [of x] es [of "words_m d ! k"] by (auto simp: fr(1))
    qed
    moreover have "length (words_m d') = length (words_m d)" by (simp add: w)
    ultimately show ?thesis using d'(1-3) fr b(3) by auto
  qed
qed

lemma threshold_built:
  assumes "nwords_m d = int (length (words_m d))"
    "length (words_m d) \<le> 22500000 \<or>
     length (words_m d) \<le> 22500001 \<and> (\<exists>e\<in>set (words_m d). count e < t)"
    "0 \<le> ntokens_m d"
    "\<forall>e\<in>set (words_m d). CHR 0x00 \<notin> set (word e) \<and> 1 \<le> count e \<and> count e \<le> ntokens_m d"
    "distinct (map word (words_m d))"
  shows "\<exists>d'. threshold d t = Some d' \<and> built d' \<and> ntokens_m d' = ntokens_m d \<and>
           words_m d' = filter (\<lambda>e. \<not> count e < t)
             (sort_by (\<lambda>e1 e2. count e1 > count e2) (words_m d)) \<and>
           args_m d' = args_m d \<and> pdiscard_m d' = pdiscard_m d \<and>
           pruneidx_m d' = pruneidx_m d \<and> pruneidx_size_m d' = pruneidx_size_m d"
proof -
  from assms(2) have "length (words_m d) \<le> MAX_VOCAB_SIZE" by (auto simp: MAX_VOCAB_SIZE_def)
  from threshold_result [OF this assms(5), of t]
  obtain d' where d': "threshold d t = Some d'"
    "words_m d' = filter (\<lambda>e. \<not> count e < t)
             (sort_by (\<lambda>e1 e2. count e1 > count e2) (words_m d))"
    "d' = d\<lparr>words_m := words_m d', word2int_m := word2int_m d',
                  nwords_m := int (length (words_m d'))\<rparr>"
    "index_inv (word2int_m d') (words_m d') (length (words_m d'))" by blast
  from arg_cong [OF d'(3), of ntokens_m] arg_cong [OF d'(3), of args_m]
    arg_cong [OF d'(3), of pdiscard_m] arg_cong [OF d'(3), of pruneidx_m]
    arg_cong [OF d'(3), of pruneidx_size_m] arg_cong [OF d'(3), of nwords_m]
  have fr: "ntokens_m d' = ntokens_m d" "args_m d' = args_m d"
    "pdiscard_m d' = pdiscard_m d" "pruneidx_m d' = pruneidx_m d"
    "pruneidx_size_m d' = pruneidx_size_m d" "nwords_m d' = int (length (words_m d'))"
    by simp_all
  let ?S = "sort_by (\<lambda>e1 e2. count e1 > count e2) (words_m d)"
  have len: "length (words_m d') \<le> 22500000"
  proof (cases "length (words_m d) \<le> 22500000")
    case True
    have "length (filter (\<lambda>e. \<not> count e < t) ?S) \<le> length ?S" by (rule length_filter_le)
    with True show ?thesis by (simp add: d'(2) length_sort_by)
  next
    case False
    with assms(2) obtain e where "e \<in> set ?S" "count e < t"
      and l: "length (words_m d) \<le> 22500001" by (auto simp: set_sort_by)
    then have "length (filter (\<lambda>e. \<not> count e < t) ?S) < length ?S"
      by (intro length_filter_less [of e]) simp_all
    with l show ?thesis by (simp add: d'(2) length_sort_by)
  qed
  have "set (words_m d') \<subseteq> set (words_m d)" by (auto simp: d'(2) set_sort_by)
  with assms(4) have "\<forall>e\<in>set (words_m d'). CHR 0x00 \<notin> set (word e) \<and> 1 \<le> count e \<and>
      count e \<le> ntokens_m d'"
    by (auto simp: fr(1))
  with len d'(4) fr assms(3) have "built d'" by (simp add: built_def)
  with d'(1,2) fr show ?thesis by blast
qed

lemma readFromFile_loop_result:
  assumes "built d" "1 \<le> m"
  shows "\<exists>d' s'. readFromFile_loop d s m = Some (d', s') \<and> built d' \<and>
           ntokens_m d' \<le> ntokens_m d + int (length (content s) - gpos s) \<and>
           args_m d' = args_m d \<and> pdiscard_m d' = pdiscard_m d \<and>
           pruneidx_m d' = pruneidx_m d \<and> pruneidx_size_m d' = pruneidx_size_m d"
  using assms
proof (induction "length (content s) - gpos s" arbitrary: d s m rule: less_induct)
  case less
  obtain b w s1 where rw: "readWord s = (b, w, s1)" by (cases "readWord s") auto
  show ?case
  proof (cases b)
    case False
    with rw have "readFromFile_loop d s m = Some (d, s1)"
      by (subst readFromFile_loop.simps) simp
    with less.prems show ?thesis by simp
  next
    case True
    with rw have rw: "readWord s = (True, w, s1)" by simp
    from readWord_remaining [OF rw] have dec: "length (content s1) - gpos s1 < length (content s) - gpos s" .
    from readWord_no_NUL [OF rw] have nn: "CHR 0x00 \<notin> set w" .
    from add_w_built [OF less.prems(1) nn]
    obtain d1 where d1: "add_w d w = Some d1"
      "nwords_m d1 = int (length (words_m d1))"
      "index_inv (word2int_m d1) (words_m d1) (length (words_m d1))"
      "length (words_m d1) \<le> 22500001"
      "ntokens_m d1 = ntokens_m d + 1"
      "\<forall>e\<in>set (words_m d1). CHR 0x00 \<notin> set (word e) \<and> 1 \<le> count e \<and>
              count e \<le> ntokens_m d1"
      "22500000 < length (words_m d1) \<longrightarrow> (\<exists>e\<in>set (words_m d1). count e = 1)"
      "args_m d1 = args_m d" "pdiscard_m d1 = pdiscard_m d"
      "pruneidx_m d1 = pruneidx_m d" "pruneidx_size_m d1 = pruneidx_size_m d"
      by blast
    from less.prems(1) have nt: "0 \<le> ntokens_m d" by (simp add: built_def)
    show ?thesis
    proof (cases "nwords_m d1 > 22500000")
      case False
      then have len: "length (words_m d1) \<le> 22500000" using d1(2) by simp
      have step: "readFromFile_loop d s m = readFromFile_loop d1 s1 m"
        using False by (subst readFromFile_loop.simps) (simp add: rw d1(1))
      have b1: "built d1" using d1(2,3,5,6) len nt by (simp add: built_def)
      from less.hyps [OF dec b1 less.prems(2)]
      obtain d' s' where r: "readFromFile_loop d1 s1 m = Some (d', s')" "built d'"
        "ntokens_m d' \<le> ntokens_m d1 + int (length (content s1) - gpos s1)"
        "args_m d' = args_m d1" "pdiscard_m d' = pdiscard_m d1"
        "pruneidx_m d' = pruneidx_m d1" "pruneidx_size_m d' = pruneidx_size_m d1"
        by blast
      from r(3) dec d1(5)
      have "ntokens_m d' \<le> ntokens_m d + int (length (content s) - gpos s)" by linarith
      with r d1 step show ?thesis by simp
    next
      case True
      then have "22500000 < length (words_m d1)" using d1(2) by simp
      with d1(7) obtain e1 where "e1 \<in> set (words_m d1)" "count e1 = 1" by blast
      with less.prems(2) have ex: "\<exists>e\<in>set (words_m d1). count e < m + 1"
        by (intro bexI [of _ e1]) simp_all
      from nt d1(5) have nt1: "0 \<le> ntokens_m d1" by simp
      from d1(4) ex have c: "length (words_m d1) \<le> 22500000 \<or>
          length (words_m d1) \<le> 22500001 \<and> (\<exists>e\<in>set (words_m d1). count e < m + 1)"
        by blast
      from d1(3) have dis: "distinct (map word (words_m d1))" by (simp add: index_inv_def)
      from threshold_built [OF d1(2) c nt1 d1(6) dis]
      obtain d2 where d2: "threshold d1 (m + 1) = Some d2" "built d2"
        "ntokens_m d2 = ntokens_m d1" "args_m d2 = args_m d1" "pdiscard_m d2 = pdiscard_m d1"
        "pruneidx_m d2 = pruneidx_m d1" "pruneidx_size_m d2 = pruneidx_size_m d1"
        by blast
      have step: "readFromFile_loop d s m = readFromFile_loop d2 s1 (m + 1)"
        using True by (subst readFromFile_loop.simps) (simp add: rw d1(1) d2(1))
      from less.prems(2) have m1: "1 \<le> m + 1" by simp
      from less.hyps [OF dec d2(2) m1]
      obtain d' s' where r: "readFromFile_loop d2 s1 (m + 1) = Some (d', s')" "built d'"
        "ntokens_m d' \<le> ntokens_m d2 + int (length (content s1) - gpos s1)"
        "args_m d' = args_m d2" "pdiscard_m d' = pdiscard_m d2"
        "pruneidx_m d' = pruneidx_m d2" "pruneidx_size_m d' = pruneidx_size_m d2"
        by blast
      from r(3) dec d1(5) d2(3)
      have "ntokens_m d' \<le> ntokens_m d + int (length (content s) - gpos s)" by linarith
      with r d1 d2 step show ?thesis by simp
    qed
  qed
qed

lemma built_init: "built (Dictionary_init a)"
  by (simp add: built_def Dictionary_init_def index_inv_empty)

lemma readFromFile_result:
  "\<exists>d1 d2 s'. readFromFile_loop (Dictionary_init a) s 1 = Some (d1, s') \<and> built d1 \<and>
     threshold d1 (minCount a) = Some d2 \<and> built d2 \<and>
     words_m d2 = filter (\<lambda>e. \<not> count e < minCount a)
       (sort_by (\<lambda>e1 e2. count e1 > count e2) (words_m d1)) \<and>
     args_m d2 = a \<and> ntokens_m d2 \<le> int (length (content s) - gpos s) \<and>
     pruneidx_m d2 = [] \<and> pruneidx_size_m d2 = -1 \<and>
     readFromFile (Dictionary_init a) s =
       (if words_m d2 = [] then None
        else Some (d2\<lparr>pdiscard_m := table_of a (ntokens_m d2) (words_m d2)\<rparr>, s'))"
proof -
  from readFromFile_loop_result [OF built_init, of 1 a s]
  obtain d1 s' where d1: "readFromFile_loop (Dictionary_init a) s 1 = Some (d1, s')"
    "built d1"
    "ntokens_m d1 \<le> ntokens_m (Dictionary_init a) + int (length (content s) - gpos s)"
    "args_m d1 = args_m (Dictionary_init a)"
    "pruneidx_m d1 = pruneidx_m (Dictionary_init a)"
    "pruneidx_size_m d1 = pruneidx_size_m (Dictionary_init a)"
    by auto
  from d1(2) have b: "nwords_m d1 = int (length (words_m d1))"
    "length (words_m d1) \<le> 22500000 \<or>
     length (words_m d1) \<le> 22500001 \<and> (\<exists>e\<in>set (words_m d1). count e < minCount a)"
    "0 \<le> ntokens_m d1"
    "\<forall>e\<in>set (words_m d1). CHR 0x00 \<notin> set (word e) \<and> 1 \<le> count e \<and> count e \<le> ntokens_m d1"
    "distinct (map word (words_m d1))"
    by (simp_all add: built_def index_inv_def)
  from threshold_built [OF b]
  obtain d2 where d2: "threshold d1 (minCount a) = Some d2" "built d2"
    "ntokens_m d2 = ntokens_m d1"
    "words_m d2 = filter (\<lambda>e. \<not> count e < minCount a)
             (sort_by (\<lambda>e1 e2. count e1 > count e2) (words_m d1))"
    "args_m d2 = args_m d1" "pruneidx_m d2 = pruneidx_m d1"
    "pruneidx_size_m d2 = pruneidx_size_m d1"
    by blast
  from d2(2) have n2: "nwords_m d2 = int (length (words_m d2))" by (simp add: built_def)
  have a: "args_m d1 = a" "args_m d2 = a" "pruneidx_m d2 = []" "pruneidx_size_m d2 = -1"
    "ntokens_m d2 \<le> int (length (content s) - gpos s)"
    using d1(3-) d2(3,5-) by (simp_all add: Dictionary_init_def)
  have i: "initTableDiscard d2 = Some (d2\<lparr>pdiscard_m := table_of a (ntokens_m d2) (words_m d2)\<rparr>)"
    by (simp add: initTableDiscard_def n2 table_of_def a)
  have "readFromFile (Dictionary_init a) s =
       (if words_m d2 = [] then None
        else Some (d2\<lparr>pdiscard_m := table_of a (ntokens_m d2) (words_m d2)\<rparr>, s'))"
    by (simp add: readFromFile_def d1(1) a d2(1) i n2)
  with d1(1,2) d2(1,2,4) a show ?thesis by blast
qed

lemma built_lookup_ok: "built d \<Longrightarrow> lookup_ok d"
  unfolding lookup_ok_def built_def
  using table_inv_free_slot [of "word2int_m d" "length (words_m d)"]
  by (auto simp: table_inv_def index_inv_def MAX_VOCAB_SIZE_def)

lemma built_line_ok:
  "built d \<Longrightarrow> length (pdiscard_m d) = length (words_m d) \<Longrightarrow> line_ok d"
  using built_lookup_ok [of d] by (auto simp: line_ok_def built_def table_inv_def index_inv_def)

lemma built_storable:
  "built d \<Longrightarrow> prunemap_ok d \<Longrightarrow> ntokens_m d < 9223372036854775808 \<Longrightarrow> storable d"
  by (auto simp: storable_def built_def live_def int64_def MAX_VOCAB_SIZE_def)

lemma built_prunable:
  "built d \<Longrightarrow> distinct (filter (\<lambda>x. x < nwords_m d) idx) \<Longrightarrow> \<forall>x\<in>set idx. 0 \<le> x \<Longrightarrow>
     prunable d idx"
  by (simp add: prunable_def built_def MAX_VOCAB_SIZE_def)

lemma readFromFile_built:
  assumes "readFromFile (Dictionary_init a) s = Some (d, s')"
  shows "built d \<and> current d \<and> line_ok d \<and> 0 < nwords_m d \<and> args_m d = a \<and>
         ntokens_m d \<le> int (length (content s)) \<and>
         (length (content s) < 9223372036854775808 \<longrightarrow> storable d)"
proof -
  from readFromFile_result [of a s]
  obtain d2 s2 where d2: "built d2" "args_m d2 = a"
    "ntokens_m d2 \<le> int (length (content s) - gpos s)"
    "pruneidx_m d2 = []" "pruneidx_size_m d2 = -1"
    "readFromFile (Dictionary_init a) s =
       (if words_m d2 = [] then None
        else Some (d2\<lparr>pdiscard_m := table_of a (ntokens_m d2) (words_m d2)\<rparr>, s2))"
    by blast
  from d2(6) assms have ne: "words_m d2 \<noteq> []"
    and d: "d = d2\<lparr>pdiscard_m := table_of a (ntokens_m d2) (words_m d2)\<rparr>"
    by (auto split: if_splits)
  have b: "built d" using d2(1) by (simp add: d built_def)
  have f: "args_m d = a" "ntokens_m d = ntokens_m d2" "words_m d = words_m d2"
    "pdiscard_m d = table_of a (ntokens_m d2) (words_m d2)"
    "pruneidx_m d = []" "pruneidx_size_m d = -1"
    using d2(2,4,5) by (simp_all add: d)
  from b have n: "nwords_m d = int (length (words_m d))" by (simp add: built_def)
  have c: "current d" by (simp add: current_def n f)
  have l: "line_ok d" by (rule built_line_ok [OF b]) (simp add: f table_of_def)
  have p: "prunemap_ok d" by (simp add: prunemap_ok_def f int64_def)
  have t: "ntokens_m d \<le> int (length (content s))" using d2(3) by (simp add: f)
  have "length (content s) < 9223372036854775808 \<longrightarrow> storable d"
  proof
    assume "length (content s) < 9223372036854775808"
    with t have "ntokens_m d < 9223372036854775808" by simp
    from built_storable [OF b p this] show "storable d" .
  qed
  with b c l n ne f t show ?thesis by simp
qed

lemma readFromFile_getId:
  assumes "readFromFile (Dictionary_init a) s = Some (d, s')"
  shows "distinct (map word (words_m d))"
    "k < length (words_m d) \<Longrightarrow> getId d (word (words_m d ! k)) = Some (int k)"
    "w \<notin> word ` set (words_m d) \<Longrightarrow> getId d w = Some (-1)"
    "in_vocab d w \<longleftrightarrow> w \<in> word ` set (words_m d)"
proof -
  from readFromFile_built [OF assms] have "built d" by simp
  then have i: "index_inv (word2int_m d) (words_m d) (length (words_m d))"
    and l: "length (words_m d) < MAX_VOCAB_SIZE"
    by (simp_all add: built_def MAX_VOCAB_SIZE_def)
  from i show "distinct (map word (words_m d))" by (simp add: index_inv_def)
  show "k < length (words_m d) \<Longrightarrow> getId d (word (words_m d ! k)) = Some (int k)"
    by (rule index_inv_getId_hit [OF i])
  show "w \<notin> word ` set (words_m d) \<Longrightarrow> getId d w = Some (-1)"
    using index_inv_getId_miss [OF i l, of w] by simp
  show "in_vocab d w \<longleftrightarrow> w \<in> word ` set (words_m d)"
    using index_inv_in_vocab [OF i l, of w] by simp
qed


subsection \<open>The label-aware builder\<close>

lemma sorted_insert_by_type:
  assumes "sorted_wrt (\<lambda>a b. \<not> (type a = Label \<and> type b = Word)) ys"
  shows "sorted_wrt (\<lambda>a b. \<not> (type a = Label \<and> type b = Word)) (insert_by type_cmp x ys)"
  using assms
proof (induction ys)
  case Nil
  show ?case by simp
next
  case (Cons y ys)
  show ?case
  proof (cases "type_cmp y x")
    case True
    then have "\<not> (type y = Label \<and> type x = Word)"
      by (auto simp: type_cmp_def type_less_def split: if_splits)
    with Cons True show ?thesis by (auto simp: set_insert_by)
  next
    case False
    have yx: "type x = Label \<Longrightarrow> type y = Label"
    proof (rule ccontr)
      assume "type x = Label" "type y \<noteq> Label"
      then have "type y = Word" by (cases "type y") auto
      with \<open>type x = Label\<close> have "type_cmp y x" by (simp add: type_cmp_def type_less_def)
      with False show False by simp
    qed
    have "\<forall>z\<in>set (y # ys). \<not> (type x = Label \<and> type z = Word)"
    proof
      fix z assume z: "z \<in> set (y # ys)"
      show "\<not> (type x = Label \<and> type z = Word)"
      proof
        assume a: "type x = Label \<and> type z = Word"
        with yx have "type y = Label" by simp
        with a z Cons.prems show False by auto
      qed
    qed
    with Cons.prems False show ?thesis by simp
  qed
qed

lemma sorted_sort_by_type:
  "sorted_wrt (\<lambda>a b. \<not> (type a = Label \<and> type b = Word)) (sort_by type_cmp xs)"
proof (induction xs)
  case Nil
  show ?case by (simp add: sort_by_def)
next
  case (Cons x xs)
  have "sort_by type_cmp (x # xs) = insert_by type_cmp x (sort_by type_cmp xs)"
    by (simp add: sort_by_def)
  with sorted_insert_by_type [OF Cons] show ?case by simp
qed

lemma sorted_type_split:
  assumes "sorted_wrt (\<lambda>a b. \<not> (type a = Label \<and> type b = Word)) xs"
  shows "xs = filter (\<lambda>e. type e = Word) xs @ filter (\<lambda>e. type e = Label) xs"
  using assms
proof (induction xs)
  case Nil
  show ?case by simp
next
  case (Cons x xs)
  show ?case
  proof (cases "type x")
    case Word
    with Cons show ?thesis by simp
  next
    case Label
    with Cons.prems have "\<forall>z\<in>set xs. type z \<noteq> Word" by auto
    then have "filter (\<lambda>e. type e = Word) xs = []" by (simp add: filter_empty_conv)
    moreover from \<open>\<forall>z\<in>set xs. type z \<noteq> Word\<close> have "\<forall>z\<in>set xs. type z = Label"
      by (metis entry_type.exhaust)
    then have "filter (\<lambda>e. type e = Label) xs = xs" by (simp add: filter_id_conv)
    ultimately show ?thesis using Label by simp
  qed
qed

lemma sorted_type_nth:
  assumes "sorted_wrt (\<lambda>a b. \<not> (type a = Label \<and> type b = Word)) xs" "k < length xs"
  shows "type (xs ! k) =
     (if k < length (filter (\<lambda>e. type e = Word) xs) then Word else Label)"
proof -
  let ?A = "filter (\<lambda>e. type e = Word) xs"
  let ?B = "filter (\<lambda>e. type e = Label) xs"
  from sorted_type_split [OF assms(1)] have xs: "xs = ?A @ ?B" .
  show ?thesis
  proof (cases "k < length ?A")
    case True
    then have "?A ! k \<in> set ?A" by (rule nth_mem)
    then have "type (?A ! k) = Word" by simp
    moreover from xs True have "xs ! k = ?A ! k" by (metis nth_append)
    ultimately show ?thesis using True by simp
  next
    case False
    from xs have "length xs = length ?A + length ?B" by (metis length_append)
    with False assms(2) have kb: "k - length ?A < length ?B" by simp
    then have "?B ! (k - length ?A) \<in> set ?B" by (rule nth_mem)
    then have "type (?B ! (k - length ?A)) = Label" by simp
    moreover from xs False have "xs ! k = ?B ! (k - length ?A)" by (metis nth_append)
    ultimately show ?thesis using False by simp
  qed
qed

lemma threshold_loop_L_result:
  assumes "index_inv (word2int_m d) (words_m d) k" "size_m d = int k"
    "it = drop k (words_m d)" "length (words_m d) \<le> MAX_VOCAB_SIZE"
    "distinct (map word (words_m d))"
  shows "\<exists>d'. threshold_loop_L d it = Some d' \<and>
           d' = d\<lparr>word2int_m := word2int_m d', size_m := int (length (words_m d)),
             nwords_m := nwords_m d + int (length (filter (\<lambda>e. type e = Word) it)),
             nlabels_m := nlabels_m d + int (length (filter (\<lambda>e. type e = Label) it))\<rparr> \<and>
           index_inv (word2int_m d') (words_m d) (length (words_m d))"
  using assms
proof (induction it arbitrary: d k)
  case Nil
  then have "k = length (words_m d)" by (simp add: index_inv_def)
  with Nil show ?case by simp
next
  case (Cons e it)
  let ?ws = "words_m d"
  from Cons.prems(3) have kl: "k < length ?ws"
    by (metis drop_eq_Nil list.distinct(1) not_le)
  with Cons.prems(3) have e: "e = ?ws ! k" and it: "it = drop (Suc k) ?ws"
    by (simp_all add: Cons_nth_drop_Suc [symmetric])
  from kl Cons.prems(4) have kM: "k < MAX_VOCAB_SIZE" by simp
  from find_w_total [OF index_inv_table [OF Cons.prems(1)] _ kM, of "word e"] kl
  obtain h where h: "find_w d (word e) = Some h" by auto
  define d2 where "d2 = d\<lparr>word2int_m := (word2int_m d)(h := size_m d),
    size_m := size_m d + 1,
    nwords_m := nwords_m d + (if type e = Word then 1 else 0),
    nlabels_m := nlabels_m d + (if type e = Label then 1 else 0)\<rparr>"
  have d2: "word2int_m d2 = (word2int_m d)(h := int k)" "size_m d2 = int (Suc k)"
    "words_m d2 = ?ws"
    by (simp_all add: d2_def Cons.prems(2))
  have inv2: "index_inv (word2int_m d2) (words_m d2) (Suc k)"
    unfolding d2
  proof (rule index_inv_insert [OF Cons.prems(1) kl kM])
    show "word (?ws ! k) \<notin> word ` set (take k ?ws)"
      by (rule nth_notin_take [OF Cons.prems(5) kl])
    show "find_loop (word2int_m d) ?ws (word (?ws ! k)) (home (word (?ws ! k))) = Some h"
      using h by (simp add: find_w_home e)
  qed
  have "\<exists>d'. threshold_loop_L d2 it = Some d' \<and>
           d' = d2\<lparr>word2int_m := word2int_m d', size_m := int (length (words_m d2)),
             nwords_m := nwords_m d2 + int (length (filter (\<lambda>e. type e = Word) it)),
             nlabels_m := nlabels_m d2 + int (length (filter (\<lambda>e. type e = Label) it))\<rparr> \<and>
           index_inv (word2int_m d') (words_m d2) (length (words_m d2))"
  proof (rule Cons.IH)
    show "index_inv (word2int_m d2) (words_m d2) (Suc k)" by (rule inv2)
    show "size_m d2 = int (Suc k)" by (rule d2(2))
    show "it = drop (Suc k) (words_m d2)" by (simp add: it d2(3))
    show "length (words_m d2) \<le> MAX_VOCAB_SIZE" using Cons.prems(4) by (simp add: d2(3))
    show "distinct (map word (words_m d2))" using Cons.prems(5) by (simp add: d2(3))
  qed
  then obtain d' where d': "threshold_loop_L d2 it = Some d'"
    "d' = d2\<lparr>word2int_m := word2int_m d', size_m := int (length ?ws),
             nwords_m := nwords_m d2 + int (length (filter (\<lambda>e. type e = Word) it)),
             nlabels_m := nlabels_m d2 + int (length (filter (\<lambda>e. type e = Label) it))\<rparr>"
    "index_inv (word2int_m d') ?ws (length ?ws)" unfolding d2(3) by blast
  have "threshold_loop_L d (e # it) = Some d'"
    using h d'(1) by (cases "type e") (simp_all add: d2_def Let_def)
  moreover have "d' = d\<lparr>word2int_m := word2int_m d', size_m := int (length ?ws),
             nwords_m := nwords_m d + int (length (filter (\<lambda>e. type e = Word) (e # it))),
             nlabels_m := nlabels_m d + int (length (filter (\<lambda>e. type e = Label) (e # it)))\<rparr>"
    by (subst d'(2)) (cases "type e", simp_all add: d2_def)
  ultimately show ?case using d'(3) by blast
qed

lemma threshold_L_result:
  assumes "length (words_m d) \<le> MAX_VOCAB_SIZE" "distinct (map word (words_m d))"
  shows "\<exists>d'. threshold_L d t t_l = Some d' \<and>
           words_m d' =
             filter (\<lambda>e. \<not> ((type e = Word \<and> count e < t) \<or> (type e = Label \<and> count e < t_l)))
               (sort_by type_cmp (words_m d)) \<and>
           d' = d\<lparr>words_m := words_m d', word2int_m := word2int_m d',
                  size_m := int (length (words_m d')), nwords_m := nwords_m d',
                  nlabels_m := nlabels_m d'\<rparr> \<and>
           index_inv (word2int_m d') (words_m d') (length (words_m d')) \<and>
           words_first d'"
proof -
  define ws where "ws =
    filter (\<lambda>e. \<not> ((type e = Word \<and> count e < t) \<or> (type e = Label \<and> count e < t_l)))
      (sort_by type_cmp (words_m d))"
  define d0 where "d0 = d\<lparr>words_m := ws, size_m := 0, nwords_m := 0, nlabels_m := 0,
    word2int_m := (\<lambda>_. -1)\<rparr>"
  have "length ws \<le> length (words_m d)"
    unfolding ws_def using length_filter_le [of _ "sort_by type_cmp (words_m d)"]
    by (simp add: length_sort_by)
  with assms have len: "length ws \<le> MAX_VOCAB_SIZE" by simp
  have dis: "distinct (map word ws)"
    unfolding ws_def using assms(2) by (intro distinct_map_filter) (simp add: distinct_map_sort_by)
  have srt: "sorted_wrt (\<lambda>a b. \<not> (type a = Label \<and> type b = Word)) ws"
    unfolding ws_def by (intro sorted_wrt_filter sorted_sort_by_type)
  have "\<exists>d'. threshold_loop_L d0 ws = Some d' \<and>
           d' = d0\<lparr>word2int_m := word2int_m d', size_m := int (length (words_m d0)),
             nwords_m := nwords_m d0 + int (length (filter (\<lambda>e. type e = Word) ws)),
             nlabels_m := nlabels_m d0 + int (length (filter (\<lambda>e. type e = Label) ws))\<rparr> \<and>
           index_inv (word2int_m d') (words_m d0) (length (words_m d0))"
    using len dis by (intro threshold_loop_L_result [where k = 0]) (simp_all add: d0_def index_inv_empty)
  then obtain d' where d': "threshold_loop_L d0 ws = Some d'"
    "d' = d0\<lparr>word2int_m := word2int_m d', size_m := int (length ws),
             nwords_m := int (length (filter (\<lambda>e. type e = Word) ws)),
             nlabels_m := int (length (filter (\<lambda>e. type e = Label) ws))\<rparr>"
    "index_inv (word2int_m d') ws (length ws)" by (auto simp: d0_def)
  from arg_cong [OF d'(2), of words_m] arg_cong [OF d'(2), of nwords_m]
    arg_cong [OF d'(2), of nlabels_m]
  have w: "words_m d' = ws" "nwords_m d' = int (length (filter (\<lambda>e. type e = Word) ws))"
    "nlabels_m d' = int (length (filter (\<lambda>e. type e = Label) ws))"
    by (simp_all add: d0_def)
  have "threshold_L d t t_l = Some d'"
    using d'(1) by (simp add: threshold_L_def ws_def d0_def Let_def type_cmp_def [abs_def])
  moreover have "d' = d\<lparr>words_m := words_m d', word2int_m := word2int_m d',
                  size_m := int (length (words_m d')), nwords_m := nwords_m d',
                  nlabels_m := nlabels_m d'\<rparr>"
    unfolding w by (subst d'(2)) (simp add: d0_def)
  moreover have "words_first d'"
    unfolding words_first_def w using sorted_type_nth [OF srt] by simp
  ultimately show ?thesis using d'(3) w(1) ws_def by simp
qed

lemma add_L_result:
  assumes "index_inv (word2int_m d) (words_m d) (length (words_m d))"
    "size_m d = int (length (words_m d))" "length (words_m d) < MAX_VOCAB_SIZE"
  shows "\<exists>d'. add_L d w = Some d' \<and>
           index_inv (word2int_m d') (words_m d') (length (words_m d')) \<and>
           size_m d' = int (length (words_m d')) \<and>
           ((words_m d' = words_m d @ [\<lparr>word = w, count = 1, type = getType_w d w\<rparr>] \<and>
             d' = d\<lparr>ntokens_m := ntokens_m d + 1, words_m := words_m d',
                    word2int_m := word2int_m d', size_m := size_m d + 1\<rparr>) \<or>
            (\<exists>k<length (words_m d). word (words_m d ! k) = w \<and>
               d' = d\<lparr>ntokens_m := ntokens_m d + 1,
                 words_m := (words_m d)[k := (words_m d ! k)\<lparr>count := count (words_m d ! k) + 1\<rparr>]\<rparr>))"
proof -
  let ?ws = "words_m d"
  let ?n = "length ?ws"
  note t = index_inv_table [OF assms(1)]
  from find_w_total [OF t le_refl assms(3), of w]
  obtain h where h: "h < MAX_VOCAB_SIZE" "find_w d w = Some h"
    "word2int_m d h = -1 \<or> word (?ws ! nat (word2int_m d h)) = w" by blast
  from h(2) have fl: "find_loop (word2int_m d) ?ws w (home w) = Some h" by (simp add: find_w_home)
  from t have val: "\<forall>s<MAX_VOCAB_SIZE. word2int_m d s \<noteq> -1 \<longrightarrow> word2int_m d s < int ?n"
    by (simp add: table_inv_def)
  show ?thesis
  proof (cases "word2int_m d h = -1")
    case True
    define ws' where "ws' = ?ws @ [\<lparr>word = w, count = 1, type = getType_w d w\<rparr>]"
    define d' where "d' = d\<lparr>ntokens_m := ntokens_m d + 1, words_m := ws',
       word2int_m := (word2int_m d)(h := size_m d), size_m := size_m d + 1\<rparr>"
    have a: "add_L d w = Some d'"
      using h(2) True by (simp add: add_L_def d'_def ws'_def Let_def getType_w_def)
    have nin: "w \<notin> word ` set ?ws"
    proof
      assume "w \<in> word ` set ?ws"
      then obtain k where k: "k < ?n" "word (?ws ! k) = w" by (auto simp: in_set_conv_nth)
      with assms(1) obtain hk where
        "find_loop (word2int_m d) ?ws (word (?ws ! k)) (home (word (?ws ! k))) = Some hk"
        "word2int_m d hk = int k"
        unfolding index_inv_def by blast
      with k(2) fl True show False by simp
    qed
    have pre: "\<forall>k<?n. word (ws' ! k) = word (?ws ! k)" by (simp add: ws'_def nth_append)
    have i1: "index_inv (word2int_m d) ws' ?n"
      by (rule index_inv_cong [OF assms(1) _ pre]) (simp add: ws'_def)
    have fl': "find_loop (word2int_m d) ws' w (home w) = Some h"
      by (rule find_loop_cong [OF fl home_less val _ pre]) (simp add: ws'_def)
    have "index_inv ((word2int_m d)(h := int ?n)) ws' (Suc ?n)"
    proof (rule index_inv_insert [OF i1 _ assms(3)])
      show "?n < length ws'" by (simp add: ws'_def)
      show "word (ws' ! ?n) \<notin> word ` set (take ?n ws')" using nin by (simp add: ws'_def)
      show "find_loop (word2int_m d) ws' (word (ws' ! ?n)) (home (word (ws' ! ?n))) = Some h"
        using fl' by (simp add: ws'_def)
    qed
    then have "index_inv (word2int_m d') (words_m d') (length (words_m d'))"
      by (simp add: d'_def assms(2) ws'_def)
    with a show ?thesis
      by (intro exI [of _ d']) (simp add: d'_def assms(2) ws'_def)
  next
    case False
    with h(3) have m: "word (?ws ! nat (word2int_m d h)) = w" by simp
    from False h(1) t have r: "0 \<le> word2int_m d h" "word2int_m d h < int ?n"
      by (auto simp: table_inv_def)
    define k where "k = nat (word2int_m d h)"
    define ws' where "ws' = ?ws[k := (?ws ! k)\<lparr>count := count (?ws ! k) + 1\<rparr>]"
    define d' where "d' = d\<lparr>ntokens_m := ntokens_m d + 1, words_m := ws'\<rparr>"
    have a: "add_L d w = Some d'"
      using h(2) False by (simp add: add_L_def d'_def ws'_def Let_def k_def)
    have kn: "k < ?n" using r by (simp add: k_def)
    have pre: "\<forall>j<?n. word (ws' ! j) = word (?ws ! j)"
    proof (intro allI impI)
      fix j assume "j < ?n"
      then show "word (ws' ! j) = word (?ws ! j)"
        by (cases "j = k") (simp_all add: ws'_def)
    qed
    have "index_inv (word2int_m d) ws' ?n"
      by (rule index_inv_cong [OF assms(1) _ pre]) (simp add: ws'_def)
    then have i: "index_inv (word2int_m d') (words_m d') (length (words_m d'))"
      by (simp add: d'_def ws'_def)
    have "\<exists>k<?n. word (?ws ! k) = w \<and>
       d' = d\<lparr>ntokens_m := ntokens_m d + 1,
         words_m := ?ws[k := (?ws ! k)\<lparr>count := count (?ws ! k) + 1\<rparr>]\<rparr>"
      using kn m by (intro exI [of _ k]) (simp add: d'_def ws'_def k_def)
    moreover have "size_m d' = int (length (words_m d'))"
      using assms(2) by (simp add: d'_def ws'_def)
    ultimately show ?thesis using a i by blast
  qed
qed

lemma add_L_built:
  assumes "built_L d" "CHR 0x00 \<notin> set w"
  shows "\<exists>d'. add_L d w = Some d' \<and>
           size_m d' = int (length (words_m d')) \<and>
           index_inv (word2int_m d') (words_m d') (length (words_m d')) \<and>
           length (words_m d') \<le> 22500001 \<and>
           ntokens_m d' = ntokens_m d + 1 \<and>
           (\<forall>e\<in>set (words_m d'). CHR 0x00 \<notin> set (word e) \<and> 1 \<le> count e \<and>
              count e \<le> ntokens_m d') \<and>
           (22500000 < length (words_m d') \<longrightarrow> (\<exists>e\<in>set (words_m d'). count e = 1)) \<and>
           args_m d' = args_m d \<and> pdiscard_m d' = pdiscard_m d \<and>
           pruneidx_m d' = pruneidx_m d \<and> pruneidx_size_m d' = pruneidx_size_m d"
proof -
  from assms(1) have b: "size_m d = int (length (words_m d))"
    "index_inv (word2int_m d) (words_m d) (length (words_m d))" "length (words_m d) \<le> 22500000"
    "0 \<le> ntokens_m d"
    and es: "\<And>e. e \<in> set (words_m d) \<Longrightarrow>
      CHR 0x00 \<notin> set (word e) \<and> 1 \<le> count e \<and> count e \<le> ntokens_m d"
    by (simp_all add: built_L_def)
  from b(3) have lt: "length (words_m d) < MAX_VOCAB_SIZE" by (simp add: MAX_VOCAB_SIZE_def)
  from add_L_result [OF b(2) b(1) lt, of w]
  obtain d' where d': "add_L d w = Some d'"
    "index_inv (word2int_m d') (words_m d') (length (words_m d'))"
    "size_m d' = int (length (words_m d'))"
    "(words_m d' = words_m d @ [\<lparr>word = w, count = 1, type = getType_w d w\<rparr>] \<and>
       d' = d\<lparr>ntokens_m := ntokens_m d + 1, words_m := words_m d',
              word2int_m := word2int_m d', size_m := size_m d + 1\<rparr>) \<or>
     (\<exists>k<length (words_m d). word (words_m d ! k) = w \<and>
        d' = d\<lparr>ntokens_m := ntokens_m d + 1,
          words_m := (words_m d)[k := (words_m d ! k)\<lparr>count := count (words_m d ! k) + 1\<rparr>]\<rparr>)"
    by blast
  from d'(4) show ?thesis
  proof (elim disjE conjE exE)
    assume w: "words_m d' = words_m d @ [\<lparr>word = w, count = 1, type = getType_w d w\<rparr>]"
      and e: "d' = d\<lparr>ntokens_m := ntokens_m d + 1, words_m := words_m d',
              word2int_m := word2int_m d', size_m := size_m d + 1\<rparr>"
    from arg_cong [OF e, of ntokens_m] arg_cong [OF e, of args_m] arg_cong [OF e, of pdiscard_m]
      arg_cong [OF e, of pruneidx_m] arg_cong [OF e, of pruneidx_size_m]
    have fr: "ntokens_m d' = ntokens_m d + 1" "args_m d' = args_m d"
      "pdiscard_m d' = pdiscard_m d" "pruneidx_m d' = pruneidx_m d"
      "pruneidx_size_m d' = pruneidx_size_m d" by simp_all
    have "\<forall>e\<in>set (words_m d'). CHR 0x00 \<notin> set (word e) \<and> 1 \<le> count e \<and>
              count e \<le> ntokens_m d'"
    proof
      fix x assume "x \<in> set (words_m d')"
      then have "x = \<lparr>word = w, count = 1, type = getType_w d w\<rparr> \<or> x \<in> set (words_m d)"
        by (auto simp: w)
      then show "CHR 0x00 \<notin> set (word x) \<and> 1 \<le> count x \<and> count x \<le> ntokens_m d'"
        using es [of x] assms(2) b(4) by (auto simp: fr(1))
    qed
    moreover have "\<exists>e\<in>set (words_m d'). count e = 1" by (simp add: w)
    moreover have "length (words_m d') \<le> 22500001" using b(3) by (simp add: w)
    ultimately show ?thesis using d'(1-3) fr by blast
  next
    fix k assume k: "k < length (words_m d)" "word (words_m d ! k) = w"
      and e: "d' = d\<lparr>ntokens_m := ntokens_m d + 1,
          words_m := (words_m d)[k := (words_m d ! k)\<lparr>count := count (words_m d ! k) + 1\<rparr>]\<rparr>"
    from arg_cong [OF e, of ntokens_m] arg_cong [OF e, of args_m] arg_cong [OF e, of pdiscard_m]
      arg_cong [OF e, of pruneidx_m] arg_cong [OF e, of pruneidx_size_m]
      arg_cong [OF e, of words_m]
    have fr: "ntokens_m d' = ntokens_m d + 1" "args_m d' = args_m d"
      "pdiscard_m d' = pdiscard_m d" "pruneidx_m d' = pruneidx_m d"
      "pruneidx_size_m d' = pruneidx_size_m d"
      and w: "words_m d' = (words_m d)[k := (words_m d ! k)\<lparr>count := count (words_m d ! k) + 1\<rparr>]"
      by simp_all
    have "\<forall>e\<in>set (words_m d'). CHR 0x00 \<notin> set (word e) \<and> 1 \<le> count e \<and>
              count e \<le> ntokens_m d'"
    proof
      fix x assume "x \<in> set (words_m d')"
      then have "x = (words_m d ! k)\<lparr>count := count (words_m d ! k) + 1\<rparr> \<or> x \<in> set (words_m d)"
        unfolding w using set_update_subset_insert [of "words_m d" k] by auto
      moreover from k(1) have "words_m d ! k \<in> set (words_m d)" by simp
      ultimately show "CHR 0x00 \<notin> set (word x) \<and> 1 \<le> count x \<and> count x \<le> ntokens_m d'"
        using es [of x] es [of "words_m d ! k"] by (auto simp: fr(1))
    qed
    moreover have "length (words_m d') = length (words_m d)" by (simp add: w)
    ultimately show ?thesis using d'(1-3) fr b(3) by auto
  qed
qed

lemma threshold_L_built:
  assumes "length (words_m d) \<le> 22500000 \<or>
     length (words_m d) \<le> 22500001 \<and> (\<exists>e\<in>set (words_m d). count e < t \<and> count e < t_l)"
    "0 \<le> ntokens_m d"
    "\<forall>e\<in>set (words_m d). CHR 0x00 \<notin> set (word e) \<and> 1 \<le> count e \<and> count e \<le> ntokens_m d"
    "distinct (map word (words_m d))"
  shows "\<exists>d'. threshold_L d t t_l = Some d' \<and> built_L d' \<and> words_first d' \<and>
           ntokens_m d' = ntokens_m d \<and>
           words_m d' =
             filter (\<lambda>e. \<not> ((type e = Word \<and> count e < t) \<or> (type e = Label \<and> count e < t_l)))
               (sort_by type_cmp (words_m d)) \<and>
           args_m d' = args_m d \<and> pdiscard_m d' = pdiscard_m d \<and>
           pruneidx_m d' = pruneidx_m d \<and> pruneidx_size_m d' = pruneidx_size_m d"
proof -
  let ?P = "\<lambda>e. \<not> ((type e = Word \<and> count e < t) \<or> (type e = Label \<and> count e < t_l))"
  from assms(1) have "length (words_m d) \<le> MAX_VOCAB_SIZE" by (auto simp: MAX_VOCAB_SIZE_def)
  from threshold_L_result [OF this assms(4), of t t_l]
  obtain d' where d': "threshold_L d t t_l = Some d'"
    "words_m d' = filter ?P (sort_by type_cmp (words_m d))"
    "d' = d\<lparr>words_m := words_m d', word2int_m := word2int_m d',
                  size_m := int (length (words_m d')), nwords_m := nwords_m d',
                  nlabels_m := nlabels_m d'\<rparr>"
    "index_inv (word2int_m d') (words_m d') (length (words_m d'))"
    "words_first d'" by blast
  from arg_cong [OF d'(3), of ntokens_m] arg_cong [OF d'(3), of args_m]
    arg_cong [OF d'(3), of pdiscard_m] arg_cong [OF d'(3), of pruneidx_m]
    arg_cong [OF d'(3), of pruneidx_size_m] arg_cong [OF d'(3), of size_m]
  have fr: "ntokens_m d' = ntokens_m d" "args_m d' = args_m d"
    "pdiscard_m d' = pdiscard_m d" "pruneidx_m d' = pruneidx_m d"
    "pruneidx_size_m d' = pruneidx_size_m d" "size_m d' = int (length (words_m d'))"
    by simp_all
  let ?S = "sort_by type_cmp (words_m d)"
  have len: "length (words_m d') \<le> 22500000"
  proof (cases "length (words_m d) \<le> 22500000")
    case True
    have "length (filter ?P ?S) \<le> length ?S" by (rule length_filter_le)
    with True show ?thesis by (simp add: d'(2) length_sort_by)
  next
    case False
    with assms(1) obtain e where e: "e \<in> set ?S" "count e < t" "count e < t_l"
      and l: "length (words_m d) \<le> 22500001" by (auto simp: set_sort_by)
    from e(2,3) have "\<not> ?P e" by (cases "type e") auto
    with e(1) have "length (filter ?P ?S) < length ?S"
      by (intro length_filter_less [of e]) simp_all
    with l show ?thesis by (simp add: d'(2) length_sort_by)
  qed
  have "set (words_m d') \<subseteq> set (words_m d)" by (auto simp: d'(2) set_sort_by)
  with assms(3) have "\<forall>e\<in>set (words_m d'). CHR 0x00 \<notin> set (word e) \<and> 1 \<le> count e \<and>
      count e \<le> ntokens_m d'"
    by (auto simp: fr(1))
  with len d'(4) fr assms(2) have "built_L d'" by (simp add: built_L_def)
  with d'(1,2,5) fr show ?thesis by blast
qed

lemma readFromFile_loop_L_result:
  assumes "built_L d" "1 \<le> m"
  shows "\<exists>d' s'. readFromFile_loop_L d s m = Some (d', s') \<and> built_L d' \<and>
           ntokens_m d' \<le> ntokens_m d + int (length (content s) - gpos s) \<and>
           args_m d' = args_m d \<and> pdiscard_m d' = pdiscard_m d \<and>
           pruneidx_m d' = pruneidx_m d \<and> pruneidx_size_m d' = pruneidx_size_m d"
  using assms
proof (induction "length (content s) - gpos s" arbitrary: d s m rule: less_induct)
  case less
  obtain b w s1 where rw: "readWord s = (b, w, s1)" by (cases "readWord s") auto
  show ?case
  proof (cases b)
    case False
    with rw have "readFromFile_loop_L d s m = Some (d, s1)"
      by (subst readFromFile_loop_L.simps) simp
    with less.prems show ?thesis by simp
  next
    case True
    with rw have rw: "readWord s = (True, w, s1)" by simp
    from readWord_remaining [OF rw] have dec: "length (content s1) - gpos s1 < length (content s) - gpos s" .
    from readWord_no_NUL [OF rw] have nn: "CHR 0x00 \<notin> set w" .
    from add_L_built [OF less.prems(1) nn]
    obtain d1 where d1: "add_L d w = Some d1"
      "size_m d1 = int (length (words_m d1))"
      "index_inv (word2int_m d1) (words_m d1) (length (words_m d1))"
      "length (words_m d1) \<le> 22500001"
      "ntokens_m d1 = ntokens_m d + 1"
      "\<forall>e\<in>set (words_m d1). CHR 0x00 \<notin> set (word e) \<and> 1 \<le> count e \<and>
              count e \<le> ntokens_m d1"
      "22500000 < length (words_m d1) \<longrightarrow> (\<exists>e\<in>set (words_m d1). count e = 1)"
      "args_m d1 = args_m d" "pdiscard_m d1 = pdiscard_m d"
      "pruneidx_m d1 = pruneidx_m d" "pruneidx_size_m d1 = pruneidx_size_m d"
      by blast
    from less.prems(1) have nt: "0 \<le> ntokens_m d" by (simp add: built_L_def)
    show ?thesis
    proof (cases "size_m d1 > 22500000")
      case False
      then have len: "length (words_m d1) \<le> 22500000" using d1(2) by simp
      have step: "readFromFile_loop_L d s m = readFromFile_loop_L d1 s1 m"
        using False by (subst readFromFile_loop_L.simps) (simp add: rw d1(1))
      have b1: "built_L d1" using d1(2,3,5,6) len nt by (simp add: built_L_def)
      from less.hyps [OF dec b1 less.prems(2)]
      obtain d' s' where r: "readFromFile_loop_L d1 s1 m = Some (d', s')" "built_L d'"
        "ntokens_m d' \<le> ntokens_m d1 + int (length (content s1) - gpos s1)"
        "args_m d' = args_m d1" "pdiscard_m d' = pdiscard_m d1"
        "pruneidx_m d' = pruneidx_m d1" "pruneidx_size_m d' = pruneidx_size_m d1"
        by blast
      from r(3) dec d1(5)
      have "ntokens_m d' \<le> ntokens_m d + int (length (content s) - gpos s)" by linarith
      with r d1 step show ?thesis by simp
    next
      case True
      then have "22500000 < length (words_m d1)" using d1(2) by simp
      with d1(7) obtain e1 where "e1 \<in> set (words_m d1)" "count e1 = 1" by blast
      with less.prems(2)
      have ex: "\<exists>e\<in>set (words_m d1). count e < m + 1 \<and> count e < m + 1"
        by (intro bexI [of _ e1]) simp_all
      from nt d1(5) have nt1: "0 \<le> ntokens_m d1" by simp
      from d1(4) ex have c: "length (words_m d1) \<le> 22500000 \<or>
          length (words_m d1) \<le> 22500001 \<and>
          (\<exists>e\<in>set (words_m d1). count e < m + 1 \<and> count e < m + 1)"
        by blast
      from d1(3) have dis: "distinct (map word (words_m d1))" by (simp add: index_inv_def)
      from threshold_L_built [OF c nt1 d1(6) dis]
      obtain d2 where d2: "threshold_L d1 (m + 1) (m + 1) = Some d2" "built_L d2"
        "ntokens_m d2 = ntokens_m d1" "args_m d2 = args_m d1" "pdiscard_m d2 = pdiscard_m d1"
        "pruneidx_m d2 = pruneidx_m d1" "pruneidx_size_m d2 = pruneidx_size_m d1"
        by blast
      have step: "readFromFile_loop_L d s m = readFromFile_loop_L d2 s1 (m + 1)"
        using True by (subst readFromFile_loop_L.simps) (simp add: rw d1(1) d2(1))
      from less.prems(2) have m1: "1 \<le> m + 1" by simp
      from less.hyps [OF dec d2(2) m1]
      obtain d' s' where r: "readFromFile_loop_L d2 s1 (m + 1) = Some (d', s')" "built_L d'"
        "ntokens_m d' \<le> ntokens_m d2 + int (length (content s1) - gpos s1)"
        "args_m d' = args_m d2" "pdiscard_m d' = pdiscard_m d2"
        "pruneidx_m d' = pruneidx_m d2" "pruneidx_size_m d' = pruneidx_size_m d2"
        by blast
      from r(3) dec d1(5) d2(3)
      have "ntokens_m d' \<le> ntokens_m d + int (length (content s) - gpos s)" by linarith
      with r d1 d2 step show ?thesis by simp
    qed
  qed
qed

lemma built_L_init: "built_L (Dictionary_init_L a 0)"
  by (simp add: built_L_def Dictionary_init_L_def index_inv_empty)

lemma readFromFile_L_result:
  "\<exists>d1 d2 s'. readFromFile_loop_L (Dictionary_init_L a 0) s 1 = Some (d1, s') \<and> built_L d1 \<and>
     threshold_L d1 (minCount a) (minCountLabel a) = Some d2 \<and> built_L d2 \<and> words_first d2 \<and>
     args_m d2 = a \<and> ntokens_m d2 \<le> int (length (content s) - gpos s) \<and>
     pruneidx_m d2 = [] \<and> pruneidx_size_m d2 = -1 \<and>
     readFromFile_L (Dictionary_init_L a 0) s =
       (if words_m d2 = [] then None
        else Some (d2\<lparr>pdiscard_m := table_of a (ntokens_m d2) (words_m d2)\<rparr>, s'))"
proof -
  from readFromFile_loop_L_result [OF built_L_init, of 1 a s]
  obtain d1 s' where d1: "readFromFile_loop_L (Dictionary_init_L a 0) s 1 = Some (d1, s')"
    "built_L d1"
    "ntokens_m d1 \<le> ntokens_m (Dictionary_init_L a 0) + int (length (content s) - gpos s)"
    "args_m d1 = args_m (Dictionary_init_L a 0)"
    "pruneidx_m d1 = pruneidx_m (Dictionary_init_L a 0)"
    "pruneidx_size_m d1 = pruneidx_size_m (Dictionary_init_L a 0)"
    by auto
  from d1(2) have b:
    "length (words_m d1) \<le> 22500000 \<or>
     length (words_m d1) \<le> 22500001 \<and>
       (\<exists>e\<in>set (words_m d1). count e < minCount a \<and> count e < minCountLabel a)"
    "0 \<le> ntokens_m d1"
    "\<forall>e\<in>set (words_m d1). CHR 0x00 \<notin> set (word e) \<and> 1 \<le> count e \<and> count e \<le> ntokens_m d1"
    "distinct (map word (words_m d1))"
    by (simp_all add: built_L_def index_inv_def)
  from threshold_L_built [OF b]
  obtain d2 where d2: "threshold_L d1 (minCount a) (minCountLabel a) = Some d2" "built_L d2"
    "words_first d2" "ntokens_m d2 = ntokens_m d1"
    "args_m d2 = args_m d1" "pruneidx_m d2 = pruneidx_m d1"
    "pruneidx_size_m d2 = pruneidx_size_m d1"
    by blast
  from d2(2) have n2: "size_m d2 = int (length (words_m d2))" by (simp add: built_L_def)
  have a: "args_m d1 = a" "args_m d2 = a" "pruneidx_m d2 = []" "pruneidx_size_m d2 = -1"
    "ntokens_m d2 \<le> int (length (content s) - gpos s)"
    using d1(3-) d2(4-) by (simp_all add: Dictionary_init_L_def)
  have i: "initTableDiscard_L d2 =
      Some (d2\<lparr>pdiscard_m := table_of a (ntokens_m d2) (words_m d2)\<rparr>)"
    by (simp add: initTableDiscard_L_def n2 table_of_def a)
  have "readFromFile_L (Dictionary_init_L a 0) s =
       (if words_m d2 = [] then None
        else Some (d2\<lparr>pdiscard_m := table_of a (ntokens_m d2) (words_m d2)\<rparr>, s'))"
    by (simp add: readFromFile_L_def d1(1) a d2(1) i n2)
  with d1(1,2) d2(1,2,3) a show ?thesis by blast
qed

lemma built_L_lookup_ok: "built_L d \<Longrightarrow> lookup_ok d"
  unfolding lookup_ok_def built_L_def
  using table_inv_free_slot [of "word2int_m d" "length (words_m d)"]
  by (auto simp: table_inv_def index_inv_def MAX_VOCAB_SIZE_def)

lemma built_L_line_ok: "built_L d \<Longrightarrow> line_ok_L d"
  using built_L_lookup_ok [of d]
  by (auto simp: line_ok_L_def built_L_def table_inv_def index_inv_def)

lemma words_first_bounds:
  assumes "words_first d"
  shows "0 \<le> nwords_m d" "0 \<le> nlabels_m d"
    "nwords_m d + nlabels_m d = int (length (words_m d))"
proof -
  let ?ws = "words_m d"
  from assms have n: "nwords_m d = int (length (filter (\<lambda>e. type e = Word) ?ws))"
    "nlabels_m d = int (length (filter (\<lambda>e. type e = Label) ?ws))"
    by (simp_all add: words_first_def)
  then show "0 \<le> nwords_m d" "0 \<le> nlabels_m d" by simp_all
  have "(\<lambda>e. type e \<noteq> Word) = (\<lambda>e::entry_L. type e = Label)"
    by (rule ext) (metis entry_type.exhaust entry_type.distinct(1))
  with sum_length_filter_compl [of "\<lambda>e. type e = Word" ?ws]
  show "nwords_m d + nlabels_m d = int (length ?ws)" by (simp add: n)
qed

lemma built_L_storable:
  assumes "built_L d" "words_first d" "prunemap_ok d" "ntokens_m d < 9223372036854775808"
  shows "storable_L d"
proof -
  from words_first_bounds [OF assms(2)] assms(1)
  have "int32 (nwords_m d)" "int32 (nlabels_m d)"
    by (simp_all add: int32_def built_L_def)
  with assms show ?thesis
    by (auto simp: storable_L_def built_L_def live_def int64_def MAX_VOCAB_SIZE_def)
qed

lemma built_L_prunable:
  assumes "built_L d" "words_first d" "distinct (filter (\<lambda>x. x < nwords_m d) idx)"
    "\<forall>x\<in>set idx. 0 \<le> x"
  shows "prunable_L d idx"
  using assms words_first_bounds [OF assms(2)]
  by (simp add: prunable_L_def built_L_def words_first_def MAX_VOCAB_SIZE_def)

lemma readFromFile_L_built:
  assumes "readFromFile_L (Dictionary_init_L a 0) s = Some (d, s')"
  shows "built_L d \<and> words_first d \<and> current_L d \<and> line_ok_L d \<and> 0 < size_m d \<and>
         args_m d = a \<and> ntokens_m d \<le> int (length (content s)) \<and>
         (length (content s) < 9223372036854775808 \<longrightarrow> storable_L d)"
proof -
  from readFromFile_L_result [of a s]
  obtain d2 s2 where d2: "built_L d2" "words_first d2" "args_m d2 = a"
    "ntokens_m d2 \<le> int (length (content s) - gpos s)"
    "pruneidx_m d2 = []" "pruneidx_size_m d2 = -1"
    "readFromFile_L (Dictionary_init_L a 0) s =
       (if words_m d2 = [] then None
        else Some (d2\<lparr>pdiscard_m := table_of a (ntokens_m d2) (words_m d2)\<rparr>, s2))"
    by blast
  from d2(7) assms have ne: "words_m d2 \<noteq> []"
    and d: "d = d2\<lparr>pdiscard_m := table_of a (ntokens_m d2) (words_m d2)\<rparr>"
    by (auto split: if_splits)
  have b: "built_L d" using d2(1) by (simp add: d built_L_def)
  have wf: "words_first d" using d2(2) by (simp add: d words_first_def)
  have f: "args_m d = a" "ntokens_m d = ntokens_m d2" "words_m d = words_m d2"
    "pdiscard_m d = table_of a (ntokens_m d2) (words_m d2)"
    "pruneidx_m d = []" "pruneidx_size_m d = -1"
    using d2(3,5,6) by (simp_all add: d)
  from b have n: "size_m d = int (length (words_m d))" by (simp add: built_L_def)
  have c: "current_L d" by (simp add: current_L_def n f)
  have l: "line_ok_L d" by (rule built_L_line_ok [OF b])
  have p: "prunemap_ok d" by (simp add: prunemap_ok_def f int64_def)
  have t: "ntokens_m d \<le> int (length (content s))" using d2(4) by (simp add: f)
  have "length (content s) < 9223372036854775808 \<longrightarrow> storable_L d"
  proof
    assume "length (content s) < 9223372036854775808"
    with t have "ntokens_m d < 9223372036854775808" by simp
    from built_L_storable [OF b wf p this] show "storable_L d" .
  qed
  with b wf c l n ne f t show ?thesis by simp
qed


subsection \<open>The probe and the load factor\<close>

text \<open>
  C9: for every word and every table state in which at least one slot of
  \<^verbatim>\<open>word2int_\<close> is empty, the probe of \<^verbatim>\<open>find(word, h)\<close> terminates, at an empty
  slot or at a slot whose entry's word is the query. A table state holds in each slot
  \<open>-1\<close> or the id of a stored entry. The builder guarantees such states: for every
  corpus the reading loop of \<^verbatim>\<open>readFromFile\<close> and the final \<^verbatim>\<open>threshold\<close> return,
  so none of their probes runs forever; the loop ends with at most 22500000 entries, and
  both leave a table with an empty slot.
\<close>

theorem find_terminates:
  "(lookup_ok d \<longrightarrow>
      (\<exists>i<MAX_VOCAB_SIZE. find_h d w h = Some i \<and>
         (word2int_m d i = -1 \<or> word (words_m d ! nat (word2int_m d i)) = w))) \<and>
   (\<exists>d1 d2 s'. readFromFile_loop (Dictionary_init a) s 1 = Some (d1, s') \<and>
      threshold d1 (minCount a) = Some d2 \<and>
      length (words_m d1) \<le> 22500000 \<and> lookup_ok d1 \<and> lookup_ok d2)"
proof (intro conjI impI)
  assume "lookup_ok d"
  then show "\<exists>i<MAX_VOCAB_SIZE. find_h d w h = Some i \<and>
         (word2int_m d i = -1 \<or> word (words_m d ! nat (word2int_m d i)) = w)"
    unfolding lookup_ok_def by (intro find_h_total) blast+
next
  from readFromFile_result [of a s]
  obtain d1 d2 s' where r: "readFromFile_loop (Dictionary_init a) s 1 = Some (d1, s')"
    "built d1" "threshold d1 (minCount a) = Some d2" "built d2" by blast
  from r(2) have "length (words_m d1) \<le> 22500000" by (simp add: built_def)
  with r built_lookup_ok [OF r(2)] built_lookup_ok [OF r(4)]
  show "\<exists>d1 d2 s'. readFromFile_loop (Dictionary_init a) s 1 = Some (d1, s') \<and>
      threshold d1 (minCount a) = Some d2 \<and>
      length (words_m d1) \<le> 22500000 \<and> lookup_ok d1 \<and> lookup_ok d2"
    by blast
qed

theorem find_terminates_witness:
  "\<exists>i<MAX_VOCAB_SIZE. find_h probe_dict ''call'' (hash ''call'') = Some i \<and>
     (word2int_m probe_dict i = -1 \<or>
      word (words_m probe_dict ! nat (word2int_m probe_dict i)) = ''call'')"
proof -
  have "\<exists>s<MAX_VOCAB_SIZE. word2int_m probe_dict s = -1"
    by (rule exI [of _ 0]) (simp add: probe_dict_def MAX_VOCAB_SIZE_def)
  moreover have "\<forall>s<MAX_VOCAB_SIZE. word2int_m probe_dict s \<noteq> -1 \<longrightarrow>
           0 \<le> word2int_m probe_dict s \<and>
           word2int_m probe_dict s < int (length (words_m probe_dict))"
    by (simp add: probe_dict_def)
  ultimately have "lookup_ok probe_dict" unfolding lookup_ok_def by blast
  with find_terminates [of probe_dict "''call''" "hash ''call''", THEN conjunct1]
  show ?thesis by blast
qed

lemma find_probe_dict:
  "find_h probe_dict ''call'' (hash ''call'') = Some 18949802 \<and>
   find_h probe_dict ''aqqq'' (hash ''aqqq'') = Some 18949801"
  by (simp add: find_h_def probe_dict_def find_loop.simps MAX_VOCAB_SIZE_def hash_def
      schar_def)


subsection \<open>The loop of prune\<close>

lemma kept_by_bounds: "k \<in> set (kept_by lab ws i j n) \<Longrightarrow> i \<le> k \<and> k < n"
proof (induction lab ws i j n rule: kept_by.induct)
  case (1 lab ws i j n)
  from "1.prems" show ?case
    by (subst (asm) kept_by.simps) (auto split: if_splits dest: "1.IH")
qed

lemma kept_by_length: "length (kept_by lab ws i j n) \<le> n - i"
proof (induction lab ws i j n rule: kept_by.induct)
  case (1 lab ws i j n)
  show ?case
  proof (cases "i < n")
    case False
    then show ?thesis by (subst kept_by.simps) simp
  next
    case True
    show ?thesis
    proof (cases "lab i \<or> (j < length ws \<and> ws ! j = int i)")
      case t: True
      from "1.IH"(1) [OF True t] True t show ?thesis
        by (subst kept_by.simps) auto
    next
      case f: False
      from "1.IH"(2) [OF True f] True f show ?thesis
        by (subst kept_by.simps) auto
    qed
  qed
qed

lemma prune_loop_result:
  assumes "table_inv (word2int_m d) j" "j \<le> i" "length (words_m d) \<le> MAX_VOCAB_SIZE"
  shows "\<exists>d'. prune_loop d ws i j = Some d' \<and>
           words_m d' = take j (words_m d) @
             map (\<lambda>k. words_m d ! k) (kept_by (\<lambda>_. False) ws i j (length (words_m d))) @
             drop (j + length (kept_by (\<lambda>_. False) ws i j (length (words_m d)))) (words_m d) \<and>
           d' = d\<lparr>words_m := words_m d', word2int_m := word2int_m d'\<rparr> \<and>
           table_inv (word2int_m d')
             (j + length (kept_by (\<lambda>_. False) ws i j (length (words_m d))))"
  using assms
proof (induction "length (words_m d) - i" arbitrary: d i j)
  case 0
  then have False: "\<not> i < length (words_m d)" by simp
  then have k: "kept_by (\<lambda>_. False) ws i j (length (words_m d)) = []"
    by (subst kept_by.simps) simp
  from False have "prune_loop d ws i j = Some d" by (subst prune_loop.simps) simp
  with k "0.prems" show ?case by simp
next
  case (Suc m)
  let ?C = "words_m d"
  let ?n = "length ?C"
  from Suc.hyps(2) have True: "i < ?n" by simp
  show ?case
  proof (cases "j < length ws \<and> ws ! j = int i")
    case f: False
    then have k: "kept_by (\<lambda>_. False) ws i j ?n = kept_by (\<lambda>_. False) ws (i + 1) j ?n"
      using True by (subst kept_by.simps) auto
    from True f have p: "prune_loop d ws i j = prune_loop d ws (i + 1) j"
      by (subst prune_loop.simps) auto
    have "\<exists>d'. prune_loop d ws (i + 1) j = Some d' \<and>
           words_m d' = take j ?C @
             map (\<lambda>k. ?C ! k) (kept_by (\<lambda>_. False) ws (i + 1) j ?n) @
             drop (j + length (kept_by (\<lambda>_. False) ws (i + 1) j ?n)) ?C \<and>
           d' = d\<lparr>words_m := words_m d', word2int_m := word2int_m d'\<rparr> \<and>
           table_inv (word2int_m d') (j + length (kept_by (\<lambda>_. False) ws (i + 1) j ?n))"
      using Suc.hyps(2) Suc.prems by (intro Suc.hyps(1)) auto
    then show ?thesis unfolding k p .
  next
    case t: True
    from True Suc.prems have jn: "j < ?n" by simp
    define d1 where "d1 = d\<lparr>words_m := ?C[j := ?C ! i]\<rparr>"
    have d1: "words_m d1 = ?C[j := ?C ! i]" "word2int_m d1 = word2int_m d"
      "length (words_m d1) = ?n"
      by (simp_all add: d1_def)
    from jn Suc.prems have jM: "j < MAX_VOCAB_SIZE" by simp
    have "\<exists>h<MAX_VOCAB_SIZE. find_w d1 (word (words_m d1 ! j)) = Some h \<and>
           (word2int_m d1 h = -1 \<or>
            word (words_m d1 ! nat (word2int_m d1 h)) = word (words_m d1 ! j))"
      using Suc.prems(1) jn jM by (intro find_w_total [where n = j]) (simp_all add: d1)
    then obtain h where h: "h < MAX_VOCAB_SIZE" "find_w d1 (word (words_m d1 ! j)) = Some h"
      by blast
    define d2 where "d2 = d1\<lparr>word2int_m := (word2int_m d1)(h := int j)\<rparr>"
    have d2: "words_m d2 = ?C[j := ?C ! i]" "length (words_m d2) = ?n"
      "word2int_m d2 = (word2int_m d)(h := int j)"
      by (simp_all add: d2_def d1_def)
    have inv2: "table_inv (word2int_m d2) (j + 1)"
      using table_inv_update [OF Suc.prems(1), of h] by (simp add: d2)
    have p: "prune_loop d ws i j = prune_loop d2 ws (i + 1) (j + 1)"
      using True t jn h by (subst prune_loop.simps) (simp add: d1_def d2_def Let_def)
    have k: "kept_by (\<lambda>_. False) ws i j ?n = i # kept_by (\<lambda>_. False) ws (i + 1) (j + 1) ?n"
      using True t by (subst kept_by.simps) auto
    let ?K = "kept_by (\<lambda>_. False) ws (i + 1) (j + 1) ?n"
    have "\<exists>d'. prune_loop d2 ws (i + 1) (j + 1) = Some d' \<and>
           words_m d' = take (j + 1) (words_m d2) @
             map (\<lambda>k. words_m d2 ! k)
               (kept_by (\<lambda>_. False) ws (i + 1) (j + 1) (length (words_m d2))) @
             drop (j + 1 + length (kept_by (\<lambda>_. False) ws (i + 1) (j + 1)
               (length (words_m d2)))) (words_m d2) \<and>
           d' = d2\<lparr>words_m := words_m d', word2int_m := word2int_m d'\<rparr> \<and>
           table_inv (word2int_m d')
             (j + 1 + length (kept_by (\<lambda>_. False) ws (i + 1) (j + 1) (length (words_m d2))))"
      using Suc.hyps(2) Suc.prems inv2 by (intro Suc.hyps(1)) (auto simp: d2)
    then obtain d' where d': "prune_loop d2 ws (i + 1) (j + 1) = Some d'"
        "words_m d' = take (j + 1) (words_m d2) @ map (\<lambda>k. words_m d2 ! k) ?K @
             drop (j + 1 + length ?K) (words_m d2)"
        "d' = d2\<lparr>words_m := words_m d', word2int_m := word2int_m d'\<rparr>"
        "table_inv (word2int_m d') (j + 1 + length ?K)"
      unfolding d2(2) by blast
    have a: "take (j + 1) (words_m d2) = take j ?C @ [?C ! i]"
      using jn by (simp add: d2 take_Suc_conv_app_nth)
    have b: "map (\<lambda>k. words_m d2 ! k) ?K = map (\<lambda>k. ?C ! k) ?K"
    proof (rule map_cong [OF refl])
      fix x assume "x \<in> set ?K"
      from kept_by_bounds [OF this] Suc.prems(2) have "x \<noteq> j" by simp
      then show "words_m d2 ! x = ?C ! x" by (simp add: d2)
    qed
    have c: "drop (j + 1 + length ?K) (words_m d2) = drop (j + 1 + length ?K) ?C"
      by (simp add: d2)
    have e: "d' = d\<lparr>words_m := words_m d', word2int_m := word2int_m d'\<rparr>"
      by (subst d'(3)) (simp add: d2_def d1_def)
    show ?thesis
      unfolding p k using d'(1,4) e d'(2) [unfolded a b c] by simp
  qed
qed

lemma kept_by_cong:
  "(\<And>k. i \<le> k \<Longrightarrow> k < n \<Longrightarrow> lab k = lab' k) \<Longrightarrow> kept_by lab ws i j n = kept_by lab' ws i j n"
proof (induction "n - i" arbitrary: i j)
  case 0
  then show ?case by (simp add: kept_by.simps [of _ ws i j n])
next
  case (Suc m)
  then have "i < n" by simp
  have a: "kept_by lab ws (i + 1) (j + 1) n = kept_by lab' ws (i + 1) (j + 1) n"
    using Suc.hyps(2) Suc.prems by (intro Suc.hyps(1)) auto
  have b: "kept_by lab ws (i + 1) j n = kept_by lab' ws (i + 1) j n"
    using Suc.hyps(2) Suc.prems by (intro Suc.hyps(1)) auto
  have "lab i = lab' i" using Suc.prems \<open>i < n\<close> by simp
  with a b show ?case by (simp add: kept_by.simps [of _ ws i j n])
qed

lemma kept_by_labels:
  "(\<And>k. i \<le> k \<Longrightarrow> k < n \<Longrightarrow> lab k) \<Longrightarrow> kept_by lab ws i j n = [i..<n]"
proof (induction "n - i" arbitrary: i j)
  case 0
  then show ?case by (simp add: kept_by.simps [of _ ws i j n])
next
  case (Suc m)
  then have "i < n" by simp
  have a: "kept_by lab ws (i + 1) (j + 1) n = [i + 1..<n]"
    using Suc.hyps(2) Suc.prems by (intro Suc.hyps(1)) auto
  have "lab i" using Suc.prems \<open>i < n\<close> by simp
  with a \<open>i < n\<close> show ?case
    by (simp add: kept_by.simps [of _ ws i j n] upt_conv_Cons)
qed

lemma kept_by_sorted:
  assumes "sorted ws" "distinct ws" "\<forall>x\<in>set ws. 0 \<le> x \<and> x < int nw" "nw \<le> n"
    and "\<forall>k<n. lab k = (nw \<le> k)"
    and "i \<le> nw" "\<forall>x\<in>set (take j ws). x < int i" "\<forall>x\<in>set (drop j ws). int i \<le> x"
  shows "kept_by lab ws i j n = map nat (drop j ws) @ [nw..<n]"
  using assms(6-)
proof (induction "nw - i" arbitrary: i j)
  case 0
  then have "i = nw" by simp
  have "drop j ws = []"
  proof (rule ccontr)
    assume "drop j ws \<noteq> []"
    then obtain x where x: "x \<in> set (drop j ws)" by (cases "drop j ws") auto
    then have "x \<in> set ws" by (rule in_set_dropD)
    with assms(3) have "x < int nw" by blast
    moreover from x "0.prems"(3) \<open>i = nw\<close> have "int nw \<le> x" by blast
    ultimately show False by simp
  qed
  moreover have "kept_by lab ws i j n = [i..<n]"
    using assms(5) \<open>i = nw\<close> by (intro kept_by_labels) auto
  ultimately show ?case using \<open>i = nw\<close> by simp
next
  case (Suc m)
  then have inw: "i < nw" and iltn: "i < n" using assms(4) by simp_all
  with assms(5) have nolab: "\<not> lab i" by simp
  show ?case
  proof (cases "j < length ws \<and> ws ! j = int i")
    case True
    then have dj: "drop j ws = int i # drop (Suc j) ws"
      by (metis Cons_nth_drop_Suc)
    have tk: "take (Suc j) ws = take j ws @ [int i]"
      using True by (simp add: take_Suc_conv_app_nth)
    have gt: "\<forall>x\<in>set (drop (Suc j) ws). int (i + 1) \<le> x"
    proof
      fix x assume x: "x \<in> set (drop (Suc j) ws)"
      with Suc.prems(3) dj have "int i \<le> x" by simp
      moreover have "distinct (drop j ws)" using assms(2) by simp
      with dj x have "x \<noteq> int i" by auto
      ultimately show "int (i + 1) \<le> x" by simp
    qed
    have "kept_by lab ws (i + 1) (j + 1) n = map nat (drop (j + 1) ws) @ [nw..<n]"
      using Suc.hyps(2) inw Suc.prems(2) gt by (intro Suc.hyps(1)) (auto simp: tk)
    with True iltn dj show ?thesis
      by (subst kept_by.simps) auto
  next
    case False
    have gt: "\<forall>x\<in>set (drop j ws). int (i + 1) \<le> x"
    proof
      fix x assume x: "x \<in> set (drop j ws)"
      then have jl: "j < length ws" by (cases "j < length ws") auto
      with False have ne: "ws ! j \<noteq> int i" by simp
      from jl have dj: "drop j ws = ws ! j # drop (Suc j) ws"
        by (simp add: Cons_nth_drop_Suc)
      with Suc.prems(3) have "int i \<le> ws ! j" by simp
      with ne have lt: "int i < ws ! j" by simp
      have "sorted (drop j ws)" using assms(1) by (simp add: sorted_wrt_drop)
      with dj x have "ws ! j \<le> x" by auto
      with lt show "int (i + 1) \<le> x" by simp
    qed
    have "kept_by lab ws (i + 1) j n = map nat (drop j ws) @ [nw..<n]"
      using Suc.hyps(2) inw Suc.prems(2) gt by (intro Suc.hyps(1)) auto
    with False iltn nolab show ?thesis
      by (subst kept_by.simps) auto
  qed
qed

lemma prune_loop_L_result:
  assumes "table_inv (word2int_m d) j" "j \<le> i" "length (words_m d) \<le> MAX_VOCAB_SIZE"
    and "int (length (words_m d)) \<le> size_m d"
  shows "\<exists>d'. prune_loop_L d ws i j = Some d' \<and>
           words_m d' = take j (words_m d) @
             map (\<lambda>k. words_m d ! k)
               (kept_by (\<lambda>k. type (words_m d ! k) = Label) ws i j (length (words_m d))) @
             drop (j + length (kept_by (\<lambda>k. type (words_m d ! k) = Label) ws i j
               (length (words_m d)))) (words_m d) \<and>
           d' = d\<lparr>words_m := words_m d', word2int_m := word2int_m d'\<rparr> \<and>
           table_inv (word2int_m d')
             (j + length (kept_by (\<lambda>k. type (words_m d ! k) = Label) ws i j
               (length (words_m d))))"
  using assms
proof (induction "length (words_m d) - i" arbitrary: d i j)
  case 0
  then have False: "\<not> i < length (words_m d)" by simp
  then have k: "kept_by (\<lambda>k. type (words_m d ! k) = Label) ws i j (length (words_m d)) = []"
    by (subst kept_by.simps) simp
  from False have "prune_loop_L d ws i j = Some d" by (subst prune_loop_L.simps) simp
  with k "0.prems" show ?case by simp
next
  case (Suc m)
  let ?C = "words_m d"
  let ?n = "length ?C"
  let ?lab = "\<lambda>k. type (?C ! k) = Label"
  from Suc.hyps(2) have True: "i < ?n" by simp
  with Suc.prems(4) have ty: "getType_i d (int i) = Some (type (?C ! i))"
    by (simp add: getType_i_def)
  show ?case
  proof (cases "?lab i \<or> (j < length ws \<and> ws ! j = int i)")
    case f: False
    then have k: "kept_by ?lab ws i j ?n = kept_by ?lab ws (i + 1) j ?n"
      using True by (subst kept_by.simps) auto
    from True f ty have p: "prune_loop_L d ws i j = prune_loop_L d ws (i + 1) j"
      by (subst prune_loop_L.simps) auto
    have "\<exists>d'. prune_loop_L d ws (i + 1) j = Some d' \<and>
           words_m d' = take j ?C @
             map (\<lambda>k. ?C ! k) (kept_by ?lab ws (i + 1) j ?n) @
             drop (j + length (kept_by ?lab ws (i + 1) j ?n)) ?C \<and>
           d' = d\<lparr>words_m := words_m d', word2int_m := word2int_m d'\<rparr> \<and>
           table_inv (word2int_m d') (j + length (kept_by ?lab ws (i + 1) j ?n))"
      using Suc.hyps(2) Suc.prems by (intro Suc.hyps(1)) auto
    then show ?thesis unfolding k p .
  next
    case t: True
    from True Suc.prems have jn: "j < ?n" by simp
    define d1 where "d1 = d\<lparr>words_m := ?C[j := ?C ! i]\<rparr>"
    have d1: "words_m d1 = ?C[j := ?C ! i]" "word2int_m d1 = word2int_m d"
      "length (words_m d1) = ?n"
      by (simp_all add: d1_def)
    from jn Suc.prems have jM: "j < MAX_VOCAB_SIZE" by simp
    have "\<exists>h<MAX_VOCAB_SIZE. find_w d1 (word (words_m d1 ! j)) = Some h \<and>
           (word2int_m d1 h = -1 \<or>
            word (words_m d1 ! nat (word2int_m d1 h)) = word (words_m d1 ! j))"
      using Suc.prems(1) jn jM by (intro find_w_total [where n = j]) (simp_all add: d1)
    then obtain h where h: "h < MAX_VOCAB_SIZE" "find_w d1 (word (words_m d1 ! j)) = Some h"
      by blast
    define d2 where "d2 = d1\<lparr>word2int_m := (word2int_m d1)(h := int j)\<rparr>"
    have d2: "words_m d2 = ?C[j := ?C ! i]" "length (words_m d2) = ?n"
      "word2int_m d2 = (word2int_m d)(h := int j)" "size_m d2 = size_m d"
      by (simp_all add: d2_def d1_def)
    have inv2: "table_inv (word2int_m d2) (j + 1)"
      using table_inv_update [OF Suc.prems(1), of h] by (simp add: d2)
    have p: "prune_loop_L d ws i j = prune_loop_L d2 ws (i + 1) (j + 1)"
      using True t jn h ty
      by (subst prune_loop_L.simps) (simp add: d1_def d2_def Let_def)
    have k: "kept_by ?lab ws i j ?n = i # kept_by ?lab ws (i + 1) (j + 1) ?n"
      using True t by (subst kept_by.simps) auto
    let ?K = "kept_by ?lab ws (i + 1) (j + 1) ?n"
    let ?lab2 = "\<lambda>k. type (words_m d2 ! k) = Label"
    have kk: "kept_by ?lab2 ws (i + 1) (j + 1) ?n = ?K"
    proof (rule kept_by_cong)
      fix k assume "i + 1 \<le> k" "k < ?n"
      with Suc.prems(2) have "k \<noteq> j" by simp
      then show "?lab2 k = ?lab k" by (simp add: d2)
    qed
    have "\<exists>d'. prune_loop_L d2 ws (i + 1) (j + 1) = Some d' \<and>
           words_m d' = take (j + 1) (words_m d2) @
             map (\<lambda>k. words_m d2 ! k)
               (kept_by ?lab2 ws (i + 1) (j + 1) (length (words_m d2))) @
             drop (j + 1 + length (kept_by ?lab2 ws (i + 1) (j + 1)
               (length (words_m d2)))) (words_m d2) \<and>
           d' = d2\<lparr>words_m := words_m d', word2int_m := word2int_m d'\<rparr> \<and>
           table_inv (word2int_m d')
             (j + 1 + length (kept_by ?lab2 ws (i + 1) (j + 1) (length (words_m d2))))"
      using Suc.hyps(2) Suc.prems inv2 by (intro Suc.hyps(1)) (auto simp: d2)
    then obtain d' where d': "prune_loop_L d2 ws (i + 1) (j + 1) = Some d'"
        "words_m d' = take (j + 1) (words_m d2) @ map (\<lambda>k. words_m d2 ! k) ?K @
             drop (j + 1 + length ?K) (words_m d2)"
        "d' = d2\<lparr>words_m := words_m d', word2int_m := word2int_m d'\<rparr>"
        "table_inv (word2int_m d') (j + 1 + length ?K)"
      unfolding d2(2) kk by blast
    have a: "take (j + 1) (words_m d2) = take j ?C @ [?C ! i]"
      using jn by (simp add: d2 take_Suc_conv_app_nth)
    have b: "map (\<lambda>k. words_m d2 ! k) ?K = map (\<lambda>k. ?C ! k) ?K"
    proof (rule map_cong [OF refl])
      fix x assume "x \<in> set ?K"
      from kept_by_bounds [OF this] Suc.prems(2) have "x \<noteq> j" by simp
      then show "words_m d2 ! x = ?C ! x" by (simp add: d2)
    qed
    have c: "drop (j + 1 + length ?K) (words_m d2) = drop (j + 1 + length ?K) ?C"
      by (simp add: d2)
    have e: "d' = d\<lparr>words_m := words_m d', word2int_m := word2int_m d'\<rparr>"
      by (subst d'(3)) (simp add: d2_def d1_def)
    show ?thesis
      unfolding p k using d'(1,4) e d'(2) [unfolded a b c] by simp
  qed
qed

lemma kept_ids_props:
  assumes "distinct (filter (\<lambda>x. x < nwords_m d) idx)" "\<forall>x\<in>set idx. 0 \<le> x"
  shows "sorted (kept_ids d idx)" "distinct (kept_ids d idx)"
    "\<forall>x\<in>set (kept_ids d idx). 0 \<le> x \<and> x < nwords_m d"
    "set (kept_ids d idx) = set idx \<inter> {0..<nwords_m d}"
  using assms by (auto simp: kept_ids_def)

lemma map_nth_from: "map ((!) xs) [a..<length xs] = drop a xs"
proof -
  have "drop a (map ((!) xs) [0..<length xs]) = map ((!) xs) [a..<length xs]"
    by (simp add: drop_map)
  then show ?thesis by (simp add: map_nth)
qed

lemma prune_words:
  assumes "prunable d idx"
  shows "\<exists>d'. prune d idx = Some (d', kept_ids d idx) \<and>
           nwords_m d' = int (length (kept_ids d idx)) \<and>
           take (length (kept_ids d idx)) (words_m d') =
             map (\<lambda>k. words_m d ! nat k) (kept_ids d idx)"
proof -
  let ?ws = "kept_ids d idx"
  let ?n = "length (words_m d)"
  define d0 where "d0 = d\<lparr>pruneidx_size_m := int (length (pruneidx_m d)),
    word2int_m := (\<lambda>_. -1)\<rparr>"
  from assms have nw: "nwords_m d \<le> int ?n" and le: "?n \<le> MAX_VOCAB_SIZE"
    and di: "distinct (filter (\<lambda>x. x < nwords_m d) idx)" and nn: "\<forall>x\<in>set idx. 0 \<le> x"
    unfolding prunable_def by blast+
  note ws = kept_ids_props [OF di nn]
  have K: "kept_by (\<lambda>_. False) ?ws 0 0 ?n = map nat (drop 0 ?ws) @ [?n..<?n]"
    using ws(1-3) nw by (intro kept_by_sorted) auto
  have w0: "words_m d0 = words_m d" "word2int_m d0 = (\<lambda>_. -1)" by (simp_all add: d0_def)
  from prune_loop_result [of d0 0 0 ?ws] le
  obtain d' where d': "prune_loop d0 ?ws 0 0 = Some d'"
    "words_m d' = map (\<lambda>k. words_m d ! k) (kept_by (\<lambda>_. False) ?ws 0 0 ?n) @
       drop (length (kept_by (\<lambda>_. False) ?ws 0 0 ?n)) (words_m d)"
    by (auto simp: w0 table_inv_empty)
  have wd: "words_m d' = map (\<lambda>k. words_m d ! k) (map nat ?ws) @ drop (length ?ws) (words_m d)"
    using d'(2) K by simp
  have "prune d idx = Some (d'\<lparr>nwords_m := int (length ?ws)\<rparr>, ?ws)"
    using d'(1) by (simp add: prune_def kept_ids_def d0_def Let_def)
  moreover have "take (length ?ws) (words_m d') = map (\<lambda>k. words_m d ! nat k) ?ws"
    by (simp add: wd comp_def)
  ultimately show ?thesis by simp
qed

lemma prune_L_words:
  assumes "prunable_L d idx"
  shows "\<exists>d'. prune_L d idx = Some (d', kept_ids d idx) \<and>
           nwords_m d' = int (length (kept_ids d idx)) \<and>
           nlabels_m d' = nlabels_m d \<and>
           size_m d' = int (length (kept_ids d idx)) + nlabels_m d \<and>
           take (nat (size_m d')) (words_m d') =
             map (\<lambda>k. words_m d ! nat k) (kept_ids d idx) @
             drop (nat (nwords_m d)) (words_m d)"
proof -
  let ?ws = "kept_ids d idx"
  let ?n = "length (words_m d)"
  let ?nw = "nat (nwords_m d)"
  define d0 where "d0 = d\<lparr>pruneidx_size_m := int (length (pruneidx_m d)),
    word2int_m := (\<lambda>_. -1)\<rparr>"
  from assms have sz: "size_m d = int ?n" and le: "?n \<le> MAX_VOCAB_SIZE"
    and nw0: "0 \<le> nwords_m d" and nl0: "0 \<le> nlabels_m d"
    and sum: "nwords_m d + nlabels_m d = size_m d"
    and ty: "\<forall>k<?n. type (words_m d ! k) = (if int k < nwords_m d then Word else Label)"
    and di: "distinct (filter (\<lambda>x. x < nwords_m d) idx)" and nn: "\<forall>x\<in>set idx. 0 \<le> x"
    unfolding prunable_L_def by blast+
  note ws = kept_ids_props [OF di nn]
  from nw0 nl0 sum sz have nwn: "?nw \<le> ?n" by simp
  have K: "kept_by (\<lambda>k. type (words_m d ! k) = Label) ?ws 0 0 ?n
             = map nat (drop 0 ?ws) @ [?nw..<?n]"
    using ws(1-3) nw0 nwn ty by (intro kept_by_sorted) auto
  have w0: "words_m d0 = words_m d" "word2int_m d0 = (\<lambda>_. -1)" "size_m d0 = size_m d"
    by (simp_all add: d0_def)
  from prune_loop_L_result [of d0 0 0 ?ws] le sz
  obtain d' where d': "prune_loop_L d0 ?ws 0 0 = Some d'"
    "words_m d' = map (\<lambda>k. words_m d ! k)
         (kept_by (\<lambda>k. type (words_m d ! k) = Label) ?ws 0 0 ?n) @
       drop (length (kept_by (\<lambda>k. type (words_m d ! k) = Label) ?ws 0 0 ?n)) (words_m d)"
    "d' = d0\<lparr>words_m := words_m d', word2int_m := word2int_m d'\<rparr>"
    by (auto simp: w0 table_inv_empty)
  have wd: "words_m d' = map (\<lambda>k. words_m d ! k) (map nat ?ws @ [?nw..<?n]) @
       drop (length ?ws + (?n - ?nw)) (words_m d)"
    using d'(2) K by simp
  from arg_cong [OF d'(3), of nlabels_m] have fr: "nlabels_m d' = nlabels_m d"
    by (simp add: d0_def)
  have p: "prune_L d idx =
    Some (d'\<lparr>nwords_m := int (length ?ws), size_m := int (length ?ws) + nlabels_m d'\<rparr>, ?ws)"
    using d'(1) by (simp add: prune_L_def kept_ids_def d0_def Let_def)
  have labs: "map (\<lambda>k. words_m d ! k) [?nw..<?n] = drop ?nw (words_m d)"
    by (rule map_nth_from)
  from nw0 nl0 sum sz have "nat (int (length ?ws) + nlabels_m d) = length ?ws + (?n - ?nw)"
    by simp
  then have "take (nat (int (length ?ws) + nlabels_m d)) (words_m d') =
     map (\<lambda>k. words_m d ! nat k) ?ws @ drop ?nw (words_m d)"
    by (simp add: wd labs comp_def)
  with p fr show ?thesis by simp
qed

lemma distinct_map_drop_Suc:
  assumes "distinct (map f (take j xs @ drop i xs))"
  shows "distinct (map f (take j xs @ drop (Suc i) xs))"
proof (cases "i < length xs")
  case True
  then have "drop i xs = xs ! i # drop (Suc i) xs" by (simp add: Cons_nth_drop_Suc)
  with assms show ?thesis by auto
next
  case False
  with assms show ?thesis by simp
qed

lemma prune_step_index:
  assumes inv: "index_inv w2i C j" and ji: "j \<le> i" and il: "i < length C"
    and jM: "j < MAX_VOCAB_SIZE"
    and dis: "distinct (map word (take j C @ drop i C))"
    and fl: "find_loop w2i (C[j := C ! i]) (word (C ! i)) (home (word (C ! i))) = Some h"
  shows "index_inv (w2i(h := int j)) (C[j := C ! i]) (Suc j) \<and>
         distinct (map word (take (Suc j) (C[j := C ! i]) @ drop (Suc i) (C[j := C ! i])))"
proof -
  let ?C1 = "C[j := C ! i]"
  from ji il have jl: "j < length C" by simp
  have pre: "\<forall>k<j. word (?C1 ! k) = word (C ! k)" by simp
  have i1: "index_inv w2i ?C1 j"
    by (rule index_inv_cong [OF inv _ pre]) (use jl in simp)
  have di: "drop i C = C ! i # drop (Suc i) C" using il by (simp add: Cons_nth_drop_Suc)
  have nin: "word (C ! i) \<notin> word ` set (take j C)" using dis by (auto simp: di)
  have "index_inv (w2i(h := int j)) ?C1 (Suc j)"
  proof (rule index_inv_insert [OF i1 _ jM])
    show "j < length ?C1" using jl by simp
    show "word (?C1 ! j) \<notin> word ` set (take j ?C1)" using nin jl by simp
    show "find_loop w2i ?C1 (word (?C1 ! j)) (home (word (?C1 ! j))) = Some h"
      using fl jl by simp
  qed
  moreover have "take (Suc j) ?C1 = take j C @ [C ! i]"
    using jl by (simp add: take_Suc_conv_app_nth)
  moreover have "drop (Suc i) ?C1 = drop (Suc i) C" using ji by simp
  moreover have "distinct (map word (take j C @ [C ! i] @ drop (Suc i) C))"
    using dis by (simp add: di)
  ultimately show ?thesis by simp
qed

lemma prune_loop_index:
  assumes "index_inv (word2int_m d) (words_m d) j" "j \<le> i"
    "length (words_m d) \<le> MAX_VOCAB_SIZE"
    "distinct (map word (take j (words_m d) @ drop i (words_m d)))"
  shows "\<exists>d'. prune_loop d ws i j = Some d' \<and>
           index_inv (word2int_m d') (words_m d')
             (j + length (kept_by (\<lambda>_. False) ws i j (length (words_m d))))"
  using assms
proof (induction "length (words_m d) - i" arbitrary: d i j)
  case 0
  then have False: "\<not> i < length (words_m d)" by simp
  then have k: "kept_by (\<lambda>_. False) ws i j (length (words_m d)) = []"
    by (subst kept_by.simps) simp
  from False have "prune_loop d ws i j = Some d" by (subst prune_loop.simps) simp
  with k "0.prems" show ?case by simp
next
  case (Suc m)
  let ?C = "words_m d"
  let ?n = "length ?C"
  from Suc.hyps(2) have True: "i < ?n" by simp
  show ?case
  proof (cases "j < length ws \<and> ws ! j = int i")
    case f: False
    then have k: "kept_by (\<lambda>_. False) ws i j ?n = kept_by (\<lambda>_. False) ws (i + 1) j ?n"
      using True by (subst kept_by.simps) auto
    from True f have p: "prune_loop d ws i j = prune_loop d ws (i + 1) j"
      by (subst prune_loop.simps) auto
    have "\<exists>d'. prune_loop d ws (i + 1) j = Some d' \<and>
           index_inv (word2int_m d') (words_m d')
             (j + length (kept_by (\<lambda>_. False) ws (i + 1) j ?n))"
    proof (rule Suc.hyps(1))
      show "m = ?n - (i + 1)" using Suc.hyps(2) by simp
      show "index_inv (word2int_m d) ?C j" by (rule Suc.prems(1))
      show "j \<le> i + 1" using Suc.prems(2) by simp
      show "?n \<le> MAX_VOCAB_SIZE" by (rule Suc.prems(3))
      show "distinct (map word (take j ?C @ drop (i + 1) ?C))"
        using distinct_map_drop_Suc [OF Suc.prems(4)] by simp
    qed
    then show ?thesis unfolding k p .
  next
    case t: True
    from True Suc.prems have jn: "j < ?n" by simp
    define d1 where "d1 = d\<lparr>words_m := ?C[j := ?C ! i]\<rparr>"
    have d1: "words_m d1 = ?C[j := ?C ! i]" "word2int_m d1 = word2int_m d"
      "length (words_m d1) = ?n"
      by (simp_all add: d1_def)
    from jn Suc.prems have jM: "j < MAX_VOCAB_SIZE" by simp
    have "\<exists>h<MAX_VOCAB_SIZE. find_w d1 (word (words_m d1 ! j)) = Some h \<and>
           (word2int_m d1 h = -1 \<or>
            word (words_m d1 ! nat (word2int_m d1 h)) = word (words_m d1 ! j))"
      using index_inv_table [OF Suc.prems(1)] jn jM
      by (intro find_w_total [where n = j]) (simp_all add: d1)
    then obtain h where h: "h < MAX_VOCAB_SIZE" "find_w d1 (word (words_m d1 ! j)) = Some h"
      by blast
    define d2 where "d2 = d1\<lparr>word2int_m := (word2int_m d1)(h := int j)\<rparr>"
    have d2: "words_m d2 = ?C[j := ?C ! i]" "length (words_m d2) = ?n"
      "word2int_m d2 = (word2int_m d)(h := int j)"
      by (simp_all add: d2_def d1_def)
    have fl: "find_loop (word2int_m d) (?C[j := ?C ! i]) (word (?C ! i)) (home (word (?C ! i)))
        = Some h"
      using h(2) jn by (simp add: find_w_home d1)
    note st = prune_step_index [OF Suc.prems(1,2) True jM Suc.prems(4) fl]
    have p: "prune_loop d ws i j = prune_loop d2 ws (i + 1) (j + 1)"
      using True t jn h by (subst prune_loop.simps) (simp add: d1_def d2_def Let_def)
    have k: "kept_by (\<lambda>_. False) ws i j ?n = i # kept_by (\<lambda>_. False) ws (i + 1) (j + 1) ?n"
      using True t by (subst kept_by.simps) auto
    have "\<exists>d'. prune_loop d2 ws (i + 1) (j + 1) = Some d' \<and>
           index_inv (word2int_m d') (words_m d')
             (j + 1 + length (kept_by (\<lambda>_. False) ws (i + 1) (j + 1) (length (words_m d2))))"
    proof (rule Suc.hyps(1))
      show "m = length (words_m d2) - (i + 1)" using Suc.hyps(2) by (simp add: d2(2))
      show "index_inv (word2int_m d2) (words_m d2) (j + 1)"
        using st by (simp add: d2(1,3))
      show "j + 1 \<le> i + 1" using Suc.prems(2) by simp
      show "length (words_m d2) \<le> MAX_VOCAB_SIZE" using Suc.prems(3) by (simp add: d2(2))
      show "distinct (map word (take (j + 1) (words_m d2) @ drop (i + 1) (words_m d2)))"
        using st by (simp add: d2(1))
    qed
    then show ?thesis unfolding p k d2(2) by simp
  qed
qed

lemma prune_loop_L_index:
  assumes "index_inv (word2int_m d) (words_m d) j" "j \<le> i"
    "length (words_m d) \<le> MAX_VOCAB_SIZE"
    "distinct (map word (take j (words_m d) @ drop i (words_m d)))"
    and "int (length (words_m d)) \<le> size_m d"
  shows "\<exists>d'. prune_loop_L d ws i j = Some d' \<and>
           index_inv (word2int_m d') (words_m d')
             (j + length (kept_by (\<lambda>k. type (words_m d ! k) = Label) ws i j
               (length (words_m d))))"
  using assms
proof (induction "length (words_m d) - i" arbitrary: d i j)
  case 0
  then have False: "\<not> i < length (words_m d)" by simp
  then have k: "kept_by (\<lambda>k. type (words_m d ! k) = Label) ws i j (length (words_m d)) = []"
    by (subst kept_by.simps) simp
  from False have "prune_loop_L d ws i j = Some d" by (subst prune_loop_L.simps) simp
  with k "0.prems" show ?case by simp
next
  case (Suc m)
  let ?C = "words_m d"
  let ?n = "length ?C"
  let ?lab = "\<lambda>k. type (?C ! k) = Label"
  from Suc.hyps(2) have True: "i < ?n" by simp
  with Suc.prems(5) have ty: "getType_i d (int i) = Some (type (?C ! i))"
    by (simp add: getType_i_def)
  show ?case
  proof (cases "?lab i \<or> (j < length ws \<and> ws ! j = int i)")
    case f: False
    then have k: "kept_by ?lab ws i j ?n = kept_by ?lab ws (i + 1) j ?n"
      using True by (subst kept_by.simps) auto
    from True f ty have p: "prune_loop_L d ws i j = prune_loop_L d ws (i + 1) j"
      by (subst prune_loop_L.simps) auto
    have "\<exists>d'. prune_loop_L d ws (i + 1) j = Some d' \<and>
           index_inv (word2int_m d') (words_m d')
             (j + length (kept_by ?lab ws (i + 1) j ?n))"
    proof (rule Suc.hyps(1))
      show "m = ?n - (i + 1)" using Suc.hyps(2) by simp
      show "index_inv (word2int_m d) ?C j" by (rule Suc.prems(1))
      show "j \<le> i + 1" using Suc.prems(2) by simp
      show "?n \<le> MAX_VOCAB_SIZE" by (rule Suc.prems(3))
      show "distinct (map word (take j ?C @ drop (i + 1) ?C))"
        using distinct_map_drop_Suc [OF Suc.prems(4)] by simp
      show "int ?n \<le> size_m d" by (rule Suc.prems(5))
    qed
    then show ?thesis unfolding k p .
  next
    case t: True
    from True Suc.prems have jn: "j < ?n" by simp
    define d1 where "d1 = d\<lparr>words_m := ?C[j := ?C ! i]\<rparr>"
    have d1: "words_m d1 = ?C[j := ?C ! i]" "word2int_m d1 = word2int_m d"
      "length (words_m d1) = ?n"
      by (simp_all add: d1_def)
    from jn Suc.prems have jM: "j < MAX_VOCAB_SIZE" by simp
    have "\<exists>h<MAX_VOCAB_SIZE. find_w d1 (word (words_m d1 ! j)) = Some h \<and>
           (word2int_m d1 h = -1 \<or>
            word (words_m d1 ! nat (word2int_m d1 h)) = word (words_m d1 ! j))"
      using index_inv_table [OF Suc.prems(1)] jn jM
      by (intro find_w_total [where n = j]) (simp_all add: d1)
    then obtain h where h: "h < MAX_VOCAB_SIZE" "find_w d1 (word (words_m d1 ! j)) = Some h"
      by blast
    define d2 where "d2 = d1\<lparr>word2int_m := (word2int_m d1)(h := int j)\<rparr>"
    have d2: "words_m d2 = ?C[j := ?C ! i]" "length (words_m d2) = ?n"
      "word2int_m d2 = (word2int_m d)(h := int j)" "size_m d2 = size_m d"
      by (simp_all add: d2_def d1_def)
    have fl: "find_loop (word2int_m d) (?C[j := ?C ! i]) (word (?C ! i)) (home (word (?C ! i)))
        = Some h"
      using h(2) jn by (simp add: find_w_home d1)
    note st = prune_step_index [OF Suc.prems(1,2) True jM Suc.prems(4) fl]
    have p: "prune_loop_L d ws i j = prune_loop_L d2 ws (i + 1) (j + 1)"
      using True t jn h ty
      by (subst prune_loop_L.simps) (simp add: d1_def d2_def Let_def)
    have k: "kept_by ?lab ws i j ?n = i # kept_by ?lab ws (i + 1) (j + 1) ?n"
      using True t by (subst kept_by.simps) auto
    let ?lab2 = "\<lambda>k. type (words_m d2 ! k) = Label"
    have kk: "kept_by ?lab2 ws (i + 1) (j + 1) ?n = kept_by ?lab ws (i + 1) (j + 1) ?n"
    proof (rule kept_by_cong)
      fix k assume "i + 1 \<le> k" "k < ?n"
      with Suc.prems(2) have "k \<noteq> j" by simp
      then show "?lab2 k = ?lab k" by (simp add: d2)
    qed
    have "\<exists>d'. prune_loop_L d2 ws (i + 1) (j + 1) = Some d' \<and>
           index_inv (word2int_m d') (words_m d')
             (j + 1 + length (kept_by ?lab2 ws (i + 1) (j + 1) (length (words_m d2))))"
    proof (rule Suc.hyps(1))
      show "m = length (words_m d2) - (i + 1)" using Suc.hyps(2) by (simp add: d2(2))
      show "index_inv (word2int_m d2) (words_m d2) (j + 1)"
        using st by (simp add: d2(1,3))
      show "j + 1 \<le> i + 1" using Suc.prems(2) by simp
      show "length (words_m d2) \<le> MAX_VOCAB_SIZE" using Suc.prems(3) by (simp add: d2(2))
      show "distinct (map word (take (j + 1) (words_m d2) @ drop (i + 1) (words_m d2)))"
        using st by (simp add: d2(1))
      show "int (length (words_m d2)) \<le> size_m d2" using Suc.prems(5) by (simp add: d2)
    qed
    then show ?thesis unfolding p k d2(2) kk by simp
  qed
qed

lemma prune_index:
  assumes "prunable d idx" "distinct (map word (words_m d))"
  shows "\<exists>d'. prune d idx = Some (d', kept_ids d idx) \<and>
           index_inv (word2int_m d') (words_m d') (length (kept_ids d idx))"
proof -
  let ?ws = "kept_ids d idx"
  let ?n = "length (words_m d)"
  define d0 where "d0 = d\<lparr>pruneidx_size_m := int (length (pruneidx_m d)),
    word2int_m := (\<lambda>_. -1)\<rparr>"
  from assms have nw: "nwords_m d \<le> int ?n" and le: "?n \<le> MAX_VOCAB_SIZE"
    and di: "distinct (filter (\<lambda>x. x < nwords_m d) idx)" and nn: "\<forall>x\<in>set idx. 0 \<le> x"
    unfolding prunable_def by blast+
  note ws = kept_ids_props [OF di nn]
  have K: "kept_by (\<lambda>_. False) ?ws 0 0 ?n = map nat (drop 0 ?ws) @ [?n..<?n]"
    using ws(1-3) nw by (intro kept_by_sorted) auto
  have w0: "words_m d0 = words_m d" "word2int_m d0 = (\<lambda>_. -1)" by (simp_all add: d0_def)
  have "\<exists>d'. prune_loop d0 ?ws 0 0 = Some d' \<and>
           index_inv (word2int_m d') (words_m d')
             (0 + length (kept_by (\<lambda>_. False) ?ws 0 0 (length (words_m d0))))"
    using le assms(2) by (intro prune_loop_index) (simp_all add: w0 index_inv_empty)
  then obtain d' where d': "prune_loop d0 ?ws 0 0 = Some d'"
    "index_inv (word2int_m d') (words_m d') (length ?ws)"
    by (auto simp: w0 K)
  have "prune d idx = Some (d'\<lparr>nwords_m := int (length ?ws)\<rparr>, ?ws)"
    using d'(1) by (simp add: prune_def kept_ids_def d0_def Let_def)
  with d'(2) show ?thesis by simp
qed

lemma prune_L_index:
  assumes "prunable_L d idx" "distinct (map word (words_m d))"
  shows "\<exists>d'. prune_L d idx = Some (d', kept_ids d idx) \<and>
           index_inv (word2int_m d') (words_m d')
             (length (kept_ids d idx) + nat (nlabels_m d))"
proof -
  let ?ws = "kept_ids d idx"
  let ?n = "length (words_m d)"
  let ?nw = "nat (nwords_m d)"
  define d0 where "d0 = d\<lparr>pruneidx_size_m := int (length (pruneidx_m d)),
    word2int_m := (\<lambda>_. -1)\<rparr>"
  from assms have sz: "size_m d = int ?n" and le: "?n \<le> MAX_VOCAB_SIZE"
    and nw0: "0 \<le> nwords_m d" and nl0: "0 \<le> nlabels_m d"
    and sum: "nwords_m d + nlabels_m d = size_m d"
    and ty: "\<forall>k<?n. type (words_m d ! k) = (if int k < nwords_m d then Word else Label)"
    and di: "distinct (filter (\<lambda>x. x < nwords_m d) idx)" and nn: "\<forall>x\<in>set idx. 0 \<le> x"
    unfolding prunable_L_def by blast+
  note ws = kept_ids_props [OF di nn]
  from nw0 nl0 sum sz have nwn: "?nw \<le> ?n" by simp
  have K: "kept_by (\<lambda>k. type (words_m d ! k) = Label) ?ws 0 0 ?n
             = map nat (drop 0 ?ws) @ [?nw..<?n]"
    using ws(1-3) nw0 nwn ty by (intro kept_by_sorted) auto
  have w0: "words_m d0 = words_m d" "word2int_m d0 = (\<lambda>_. -1)" "size_m d0 = size_m d"
    by (simp_all add: d0_def)
  have "\<exists>d'. prune_loop_L d0 ?ws 0 0 = Some d' \<and>
           index_inv (word2int_m d') (words_m d')
             (0 + length (kept_by (\<lambda>k. type (words_m d0 ! k) = Label) ?ws 0 0
               (length (words_m d0))))"
    using le assms(2) sz by (intro prune_loop_L_index) (simp_all add: w0 index_inv_empty)
  moreover from nw0 nl0 sum sz have "?n - ?nw = nat (nlabels_m d)" by simp
  ultimately obtain d' where d': "prune_loop_L d0 ?ws 0 0 = Some d'"
    "index_inv (word2int_m d') (words_m d') (length ?ws + nat (nlabels_m d))"
    by (auto simp: w0 K)
  have "prune_L d idx =
    Some (d'\<lparr>nwords_m := int (length ?ws), size_m := int (length ?ws) + nlabels_m d'\<rparr>, ?ws)"
    using d'(1) by (simp add: prune_L_def kept_ids_def d0_def Let_def)
  with d'(2) show ?thesis by simp
qed

lemma sqrt_25: "sqrt (1 / 25) = 1 / 5"
  by (rule real_sqrt_unique) (simp_all add: power2_eq_square)

lemma sqrt_4: "sqrt (1 / 4) = 1 / 2"
  by (rule real_sqrt_unique) (simp_all add: power2_eq_square)

lemma sub_dict_table: "initTableDiscard (sub_dict\<lparr>pdiscard_m := []\<rparr>) = Some sub_dict"
  by (simp add: initTableDiscard_def sub_dict_def pdiscard_of_def sqrt_25 sqrt_4)

lemma label_dict_table: "initTableDiscard_L (label_dict\<lparr>pdiscard_m := []\<rparr>) = Some label_dict"
  by (simp add: initTableDiscard_L_def label_dict_def pdiscard_of_def sqrt_25 sqrt_4)


subsection \<open>What prune keeps\<close>

text \<open>
  C2, as the specification states it: for every id list, \<^verbatim>\<open>nwords_\<close> after
  \<^verbatim>\<open>prune(ids)\<close> is the size of the intersection of the ids with \<open>[0, nwords_)\<close>, and
  negative and duplicated ids contribute nothing. This fails: \<^verbatim>\<open>prune\<close> drops the ids
  from \<^verbatim>\<open>nwords_\<close> on and nothing else, and counts what is left. On the dictionary of the
  scenario (entries a and b) the id lists \<open>[-1, 0]\<close> and \<open>[0, 0]\<close> both give
  \<^verbatim>\<open>nwords_ = 2\<close>, while the intersection with \<open>[0, 2)\<close> has one element.
\<close>

theorem prune_negative_duplicate_counterexample:
  "nwords_of (build_prune scenario_args scenario_stream [-1, 0]) = Some 2 \<and>
   int (card (set [-1, 0] \<inter> {0..<2::int})) = 1 \<and>
   nwords_of (build_prune scenario_args scenario_stream [0, 0]) = Some 2 \<and>
   int (card (set [0, 0] \<inter> {0..<2::int})) = 1"
  by (simp add: scenario_eval stream_eval dict_eval)

text \<open>
  C2, amended: for a dictionary with at most \<^verbatim>\<open>MAX_VOCAB_SIZE\<close> stored entries whose
  counter \<^verbatim>\<open>nwords_\<close> does not exceed their number (in the label-aware variant
  \<^verbatim>\<open>size_\<close> is their number and the words precede the labels) and an id list
  without negative ids in which no id below \<^verbatim>\<open>nwords_\<close> occurs twice,
  \<^verbatim>\<open>prune(ids)\<close> returns; the kept ids are the sorted intersection of the ids with
  \<open>[0, nwords_)\<close>; the new \<^verbatim>\<open>nwords_\<close> is their number; the entries at the new ids
  \<open>0, \<dots>, nwords_ - 1\<close> are the former entries at the kept ids, in this order; and in
  the label-aware variant all label entries follow them. Ids from \<^verbatim>\<open>nwords_\<close> on
  contribute nothing. When the words of the stored entries are pairwise different, the
  rebuilt hash index finds every surviving entry under its new id.
\<close>

theorem prune_keeps_exactly:
  "(prunable d idx \<longrightarrow>
      (\<exists>d'. prune d idx = Some (d', kept_ids d idx) \<and>
         nwords_m d' = int (length (kept_ids d idx)) \<and>
         take (nat (nwords_m d')) (words_m d') =
           map (\<lambda>k. words_m d ! nat k) (kept_ids d idx) \<and>
         (distinct (map word (words_m d)) \<longrightarrow>
            (\<forall>k<length (kept_ids d idx).
               getId d' (word (words_m d' ! k)) = Some (int k)))) \<and>
      sorted (kept_ids d idx) \<and> distinct (kept_ids d idx) \<and>
      set (kept_ids d idx) = set idx \<inter> {0..<nwords_m d}) \<and>
   (prunable_L dl idx \<longrightarrow>
      (\<exists>d'. prune_L dl idx = Some (d', kept_ids dl idx) \<and>
         nwords_m d' = int (length (kept_ids dl idx)) \<and>
         nlabels_m d' = nlabels_m dl \<and>
         size_m d' = nwords_m d' + nlabels_m dl \<and>
         take (nat (size_m d')) (words_m d') =
           map (\<lambda>k. words_m dl ! nat k) (kept_ids dl idx) @
           drop (nat (nwords_m dl)) (words_m dl) \<and>
         (distinct (map word (words_m dl)) \<longrightarrow>
            (\<forall>k<length (kept_ids dl idx) + nat (nlabels_m dl).
               getId d' (word (words_m d' ! k)) = Some (int k)))) \<and>
      sorted (kept_ids dl idx) \<and> distinct (kept_ids dl idx) \<and>
      set (kept_ids dl idx) = set idx \<inter> {0..<nwords_m dl})"
proof (intro conjI impI)
  assume p: "prunable d idx"
  from prune_words [OF p]
  obtain d' where d': "prune d idx = Some (d', kept_ids d idx)"
    "nwords_m d' = int (length (kept_ids d idx))"
    "take (length (kept_ids d idx)) (words_m d') =
       map (\<lambda>k. words_m d ! nat k) (kept_ids d idx)"
    by blast
  have "distinct (map word (words_m d)) \<longrightarrow>
     (\<forall>k<length (kept_ids d idx). getId d' (word (words_m d' ! k)) = Some (int k))"
  proof (intro impI allI)
    fix k assume dis: "distinct (map word (words_m d))" and k: "k < length (kept_ids d idx)"
    from prune_index [OF p dis] d'(1)
    have "index_inv (word2int_m d') (words_m d') (length (kept_ids d idx))" by auto
    from index_inv_getId_hit [OF this k]
    show "getId d' (word (words_m d' ! k)) = Some (int k)" .
  qed
  with d' show "\<exists>d'. prune d idx = Some (d', kept_ids d idx) \<and>
         nwords_m d' = int (length (kept_ids d idx)) \<and>
         take (nat (nwords_m d')) (words_m d') =
           map (\<lambda>k. words_m d ! nat k) (kept_ids d idx) \<and>
         (distinct (map word (words_m d)) \<longrightarrow>
            (\<forall>k<length (kept_ids d idx).
               getId d' (word (words_m d' ! k)) = Some (int k)))"
    by (intro exI [of _ d']) simp
  from p have "distinct (filter (\<lambda>x. x < nwords_m d) idx)" "\<forall>x\<in>set idx. 0 \<le> x"
    unfolding prunable_def by blast+
  from kept_ids_props [OF this]
  show "sorted (kept_ids d idx)" "distinct (kept_ids d idx)"
    "set (kept_ids d idx) = set idx \<inter> {0..<nwords_m d}"
    by blast+
next
  assume p: "prunable_L dl idx"
  from prune_L_words [OF p]
  obtain d' where d': "prune_L dl idx = Some (d', kept_ids dl idx)"
    "nwords_m d' = int (length (kept_ids dl idx))"
    "nlabels_m d' = nlabels_m dl"
    "size_m d' = int (length (kept_ids dl idx)) + nlabels_m dl"
    "take (nat (size_m d')) (words_m d') =
       map (\<lambda>k. words_m dl ! nat k) (kept_ids dl idx) @
       drop (nat (nwords_m dl)) (words_m dl)"
    by blast
  have "distinct (map word (words_m dl)) \<longrightarrow>
     (\<forall>k<length (kept_ids dl idx) + nat (nlabels_m dl).
        getId d' (word (words_m d' ! k)) = Some (int k))"
  proof (intro impI allI)
    fix k assume dis: "distinct (map word (words_m dl))"
      and k: "k < length (kept_ids dl idx) + nat (nlabels_m dl)"
    from prune_L_index [OF p dis] d'(1)
    have "index_inv (word2int_m d') (words_m d')
       (length (kept_ids dl idx) + nat (nlabels_m dl))" by auto
    from index_inv_getId_hit [OF this k]
    show "getId d' (word (words_m d' ! k)) = Some (int k)" .
  qed
  with d' show "\<exists>d'. prune_L dl idx = Some (d', kept_ids dl idx) \<and>
         nwords_m d' = int (length (kept_ids dl idx)) \<and>
         nlabels_m d' = nlabels_m dl \<and>
         size_m d' = nwords_m d' + nlabels_m dl \<and>
         take (nat (size_m d')) (words_m d') =
           map (\<lambda>k. words_m dl ! nat k) (kept_ids dl idx) @
           drop (nat (nwords_m dl)) (words_m dl) \<and>
         (distinct (map word (words_m dl)) \<longrightarrow>
            (\<forall>k<length (kept_ids dl idx) + nat (nlabels_m dl).
               getId d' (word (words_m d' ! k)) = Some (int k)))"
    by (intro exI [of _ d']) simp
  from p have "distinct (filter (\<lambda>x. x < nwords_m dl) idx)" "\<forall>x\<in>set idx. 0 \<le> x"
    unfolding prunable_L_def by blast+
  from kept_ids_props [OF this]
  show "sorted (kept_ids dl idx)" "distinct (kept_ids dl idx)"
    "set (kept_ids dl idx) = set idx \<inter> {0..<nwords_m dl}"
    by blast+
qed

theorem prune_keeps_exactly_witness:
  "(\<exists>d'. prune sub_dict [1, 7] = Some (d', [1]) \<and> nwords_m d' = 1 \<and>
      take (nat (nwords_m d')) (words_m d') = [\<lparr>word = ''b'', count = 4\<rparr>] \<and>
      getId d' ''b'' = Some 0) \<and>
   (\<exists>d'. prune_L label_dict [1, 7] = Some (d', [1]) \<and> nwords_m d' = 1 \<and>
      nlabels_m d' = 1 \<and> size_m d' = 2 \<and>
      take (nat (size_m d')) (words_m d') =
        [\<lparr>word = ''b'', count = 4, type = Word\<rparr>, \<lparr>word = ''#x'', count = 1, type = Label\<rparr>] \<and>
      getId d' ''b'' = Some 0 \<and> getId d' ''#x'' = Some 1)"
proof -
  have p: "prunable sub_dict [1, 7]"
    by (simp add: prunable_def sub_dict_def MAX_VOCAB_SIZE_def)
  have q: "prunable_L label_dict [1, 7]"
    by (simp add: prunable_L_def label_dict_def MAX_VOCAB_SIZE_def less_Suc_eq)
  have k: "kept_ids sub_dict [1, 7] = [1]" "kept_ids label_dict [1, 7] = [1]"
    by (simp_all add: kept_ids_def sub_dict_def label_dict_def)
  have ds: "distinct (map word (words_m sub_dict))" "distinct (map word (words_m label_dict))"
    by (simp_all add: sub_dict_def label_dict_def)
  from prune_keeps_exactly [of sub_dict "[1, 7]" label_dict] p ds(1)
  obtain d1 where d1: "prune sub_dict [1, 7] = Some (d1, [1])" "nwords_m d1 = 1"
    "take (nat (nwords_m d1)) (words_m d1) = map (\<lambda>k. words_m sub_dict ! nat k) [1]"
    "\<forall>k<length [1::int]. getId d1 (word (words_m d1 ! k)) = Some (int k)"
    unfolding k by auto
  from prune_keeps_exactly [of sub_dict "[1, 7]" label_dict] q ds(2)
  obtain d2 where d2: "prune_L label_dict [1, 7] = Some (d2, [1])" "nwords_m d2 = 1"
    "nlabels_m d2 = nlabels_m label_dict" "size_m d2 = nwords_m d2 + nlabels_m label_dict"
    "take (nat (size_m d2)) (words_m d2) =
       map (\<lambda>k. words_m label_dict ! nat k) [1] @
       drop (nat (nwords_m label_dict)) (words_m label_dict)"
    "\<forall>k<length [1::int] + nat (nlabels_m label_dict).
       getId d2 (word (words_m d2 ! k)) = Some (int k)"
    unfolding k by auto
  have w1: "take 1 (words_m d1) = [\<lparr>word = ''b'', count = 4\<rparr>]"
    using d1(2,3) by (simp add: sub_dict_def)
  then have "words_m d1 ! 0 = \<lparr>word = ''b'', count = 4\<rparr>"
    by (metis nth_take nth_Cons_0 zero_less_one)
  with d1(4) have g1: "getId d1 ''b'' = Some 0" by simp
  have sz2: "size_m d2 = 2" using d2(2,4) by (simp add: label_dict_def)
  have w2: "take 2 (words_m d2) =
      [\<lparr>word = ''b'', count = 4, type = Word\<rparr>, \<lparr>word = ''#x'', count = 1, type = Label\<rparr>]"
    using d2(5) sz2 by (simp add: label_dict_def)
  have "words_m d2 ! 0 = take 2 (words_m d2) ! 0" "words_m d2 ! 1 = take 2 (words_m d2) ! 1"
    by simp_all
  then have n2: "words_m d2 ! 0 = \<lparr>word = ''b'', count = 4, type = Word\<rparr>"
    "words_m d2 ! 1 = \<lparr>word = ''#x'', count = 1, type = Label\<rparr>"
    unfolding w2 by simp_all
  from d2(6) [rule_format, of 0] d2(6) [rule_format, of 1] n2
  have g2: "getId d2 ''b'' = Some 0" "getId d2 ''#x'' = Some 1"
    by (simp_all add: label_dict_def)
  have "\<exists>d'. prune sub_dict [1, 7] = Some (d', [1]) \<and> nwords_m d' = 1 \<and>
      take (nat (nwords_m d')) (words_m d') = [\<lparr>word = ''b'', count = 4\<rparr>] \<and>
      getId d' ''b'' = Some 0"
    using d1 g1 by (intro exI [of _ d1]) (simp add: sub_dict_def)
  moreover have "\<exists>d'. prune_L label_dict [1, 7] = Some (d', [1]) \<and> nwords_m d' = 1 \<and>
      nlabels_m d' = 1 \<and> size_m d' = 2 \<and>
      take (nat (size_m d')) (words_m d') =
        [\<lparr>word = ''b'', count = 4, type = Word\<rparr>, \<lparr>word = ''#x'', count = 1, type = Label\<rparr>] \<and>
      getId d' ''b'' = Some 0 \<and> getId d' ''#x'' = Some 1"
    using d2 g2 by (intro exI [of _ d2]) (simp add: label_dict_def)
  ultimately show ?thesis by blast
qed


subsection \<open>The subsampling table after pruning\<close>

lemma prune_frame:
  assumes "length (words_m d) \<le> MAX_VOCAB_SIZE"
  shows "\<exists>d' ws. prune d idx = Some (d', ws) \<and> pdiscard_m d' = pdiscard_m d \<and>
           args_m d' = args_m d \<and> nwords_m d' = int (length ws)"
proof -
  let ?ws = "kept_ids d idx"
  define d0 where "d0 = d\<lparr>pruneidx_size_m := int (length (pruneidx_m d)),
    word2int_m := (\<lambda>_. -1)\<rparr>"
  have w0: "words_m d0 = words_m d" "word2int_m d0 = (\<lambda>_. -1)" by (simp_all add: d0_def)
  from prune_loop_result [of d0 0 0 ?ws] assms
  obtain d' where d': "prune_loop d0 ?ws 0 0 = Some d'"
    "d' = d0\<lparr>words_m := words_m d', word2int_m := word2int_m d'\<rparr>"
    by (auto simp: w0 table_inv_empty)
  from arg_cong [OF d'(2), of pdiscard_m] arg_cong [OF d'(2), of args_m]
  have fr: "pdiscard_m d' = pdiscard_m d" "args_m d' = args_m d"
    by (simp_all add: d0_def)
  have "prune d idx = Some (d'\<lparr>nwords_m := int (length ?ws)\<rparr>, ?ws)"
    using d'(1) by (simp add: prune_def kept_ids_def d0_def Let_def)
  with fr show ?thesis by simp
qed

lemma prune_L_frame:
  assumes "length (words_m d) \<le> MAX_VOCAB_SIZE" "int (length (words_m d)) \<le> size_m d"
  shows "\<exists>d' ws. prune_L d idx = Some (d', ws) \<and> pdiscard_m d' = pdiscard_m d \<and>
           args_m d' = args_m d \<and> nwords_m d' = int (length ws)"
proof -
  let ?ws = "kept_ids d idx"
  define d0 where "d0 = d\<lparr>pruneidx_size_m := int (length (pruneidx_m d)),
    word2int_m := (\<lambda>_. -1)\<rparr>"
  have w0: "words_m d0 = words_m d" "word2int_m d0 = (\<lambda>_. -1)" "size_m d0 = size_m d"
    by (simp_all add: d0_def)
  from prune_loop_L_result [of d0 0 0 ?ws] assms
  obtain d' where d': "prune_loop_L d0 ?ws 0 0 = Some d'"
    "d' = d0\<lparr>words_m := words_m d', word2int_m := word2int_m d'\<rparr>"
    by (auto simp: w0 table_inv_empty)
  from arg_cong [OF d'(2), of pdiscard_m] arg_cong [OF d'(2), of args_m]
  have fr: "pdiscard_m d' = pdiscard_m d" "args_m d' = args_m d"
    by (simp_all add: d0_def)
  have "prune_L d idx =
    Some (d'\<lparr>nwords_m := int (length ?ws), size_m := int (length ?ws) + nlabels_m d'\<rparr>, ?ws)"
    using d'(1) by (simp add: prune_L_def kept_ids_def d0_def Let_def)
  with fr show ?thesis by simp
qed

text \<open>
  C10: \<^verbatim>\<open>prune\<close> leaves \<^verbatim>\<open>pdiscard_\<close> as it is, although it gives the kept entries
  new ids: for a dictionary with at most \<^verbatim>\<open>MAX_VOCAB_SIZE\<close> stored entries (in the
  label-aware variant, not more than \<^verbatim>\<open>size_\<close>) \<^verbatim>\<open>prune\<close> returns, the table is
  unchanged, and a following \<^verbatim>\<open>discard(newId, r)\<close> compares \<open>r\<close> with the entry of
  the former table at \<open>newId\<close>, the probability of the entry that held this id before.
\<close>

theorem prune_keeps_pdiscard:
  "(length (words_m d) \<le> MAX_VOCAB_SIZE \<longrightarrow>
      (\<exists>d' ws. prune d idx = Some (d', ws) \<and> pdiscard_m d' = pdiscard_m d \<and>
         (\<forall>i r. 0 \<le> i \<and> i < nwords_m d' \<and> nat i < length (pdiscard_m d) \<longrightarrow>
            discard d' i r =
              Some (model (args_m d) \<noteq> model_sup \<and> real_gt r (pdiscard_m d ! nat i))))) \<and>
   (length (words_m dl) \<le> MAX_VOCAB_SIZE \<and> int (length (words_m dl)) \<le> size_m dl \<longrightarrow>
      (\<exists>d' ws. prune_L dl idx = Some (d', ws) \<and> pdiscard_m d' = pdiscard_m dl \<and>
         (\<forall>i r. 0 \<le> i \<and> i < nwords_m d' \<and> nat i < length (pdiscard_m dl) \<longrightarrow>
            discard d' i r =
              Some (model (args_m dl) \<noteq> model_sup \<and> real_gt r (pdiscard_m dl ! nat i)))))"
proof (intro conjI impI)
  assume "length (words_m d) \<le> MAX_VOCAB_SIZE"
  from prune_frame [OF this, of idx]
  obtain d' ws where "prune d idx = Some (d', ws)" "pdiscard_m d' = pdiscard_m d"
    "args_m d' = args_m d" by blast
  then show "\<exists>d' ws. prune d idx = Some (d', ws) \<and> pdiscard_m d' = pdiscard_m d \<and>
         (\<forall>i r. 0 \<le> i \<and> i < nwords_m d' \<and> nat i < length (pdiscard_m d) \<longrightarrow>
            discard d' i r =
              Some (model (args_m d) \<noteq> model_sup \<and> real_gt r (pdiscard_m d ! nat i)))"
    by (intro exI [of _ d'] exI [of _ ws]) (simp add: discard_def)
next
  assume "length (words_m dl) \<le> MAX_VOCAB_SIZE \<and> int (length (words_m dl)) \<le> size_m dl"
  then have "length (words_m dl) \<le> MAX_VOCAB_SIZE" "int (length (words_m dl)) \<le> size_m dl"
    by simp_all
  from prune_L_frame [OF this, of idx]
  obtain d' ws where "prune_L dl idx = Some (d', ws)" "pdiscard_m d' = pdiscard_m dl"
    "args_m d' = args_m dl" by blast
  then show "\<exists>d' ws. prune_L dl idx = Some (d', ws) \<and> pdiscard_m d' = pdiscard_m dl \<and>
         (\<forall>i r. 0 \<le> i \<and> i < nwords_m d' \<and> nat i < length (pdiscard_m dl) \<longrightarrow>
            discard d' i r =
              Some (model (args_m dl) \<noteq> model_sup \<and> real_gt r (pdiscard_m dl ! nat i)))"
    by (intro exI [of _ d'] exI [of _ ws]) (simp add: discard_def)
qed

text \<open>
  On the dictionary with the entries a (probability \<open>6/25\<close>) and b (probability \<open>3/4\<close>),
  \<^verbatim>\<open>prune([1])\<close> gives b the id 0, and \<^verbatim>\<open>discard(0, 1/2)\<close> is then true by the
  probability of a, although the probability of b, computed anew, is still \<open>3/4\<close>.
\<close>

theorem prune_keeps_pdiscard_witness:
  "(\<exists>d' ws. prune sub_dict [1] = Some (d', ws) \<and>
      pdiscard_m d' = [Fin (6 / 25), Fin (3 / 4)] \<and>
      take (nat (nwords_m d')) (words_m d') = [\<lparr>word = ''b'', count = 4\<rparr>] \<and>
      discard d' 0 (Fin (1 / 2)) = Some True \<and>
      pdiscard_of (args_m d') 4 (ntokens_m d') = Fin (3 / 4)) \<and>
   (\<exists>d' ws. prune_L label_dict [1] = Some (d', ws) \<and>
      pdiscard_m d' = [Fin (6 / 25), Fin (3 / 4), Fin 2] \<and>
      discard d' 0 (Fin (1 / 2)) = Some True)"
proof -
  have a: "length (words_m sub_dict) \<le> MAX_VOCAB_SIZE"
    by (simp add: sub_dict_def MAX_VOCAB_SIZE_def)
  have b: "length (words_m label_dict) \<le> MAX_VOCAB_SIZE \<and>
      int (length (words_m label_dict)) \<le> size_m label_dict"
    by (simp add: label_dict_def MAX_VOCAB_SIZE_def)
  from prune_keeps_pdiscard [of sub_dict "[1]" label_dict, THEN conjunct1, THEN mp, OF a]
  obtain d1 ws1 where d1: "prune sub_dict [1] = Some (d1, ws1)"
    "pdiscard_m d1 = pdiscard_m sub_dict"
    "\<forall>i r. 0 \<le> i \<and> i < nwords_m d1 \<and> nat i < length (pdiscard_m sub_dict) \<longrightarrow>
       discard d1 i r =
         Some (model (args_m sub_dict) \<noteq> model_sup \<and> real_gt r (pdiscard_m sub_dict ! nat i))"
    by blast
  from prune_keeps_pdiscard [of sub_dict "[1]" label_dict, THEN conjunct2, THEN mp, OF b]
  obtain d2 ws2 where d2: "prune_L label_dict [1] = Some (d2, ws2)"
    "pdiscard_m d2 = pdiscard_m label_dict"
    "\<forall>i r. 0 \<le> i \<and> i < nwords_m d2 \<and> nat i < length (pdiscard_m label_dict) \<longrightarrow>
       discard d2 i r =
         Some (model (args_m label_dict) \<noteq> model_sup \<and>
           real_gt r (pdiscard_m label_dict ! nat i))"
    by blast
  have w1: "take (nat (nwords_m d1)) (words_m d1) = [\<lparr>word = ''b'', count = 4\<rparr>]"
    "nwords_m d1 = 1" "args_m d1 = args_m sub_dict" "ntokens_m d1 = 100"
    using d1(1) by (auto simp: sub_dict_def dict_eval schar_def Let_def)
  have w2: "nwords_m d2 = 1"
    using d2(1) by (auto simp: label_dict_def dict_eval_L schar_def Let_def)
  have "discard d1 0 (Fin (1 / 2)) = Some True"
    using d1(3) [rule_format, of 0 "Fin (1 / 2)"] w1 by (simp add: sub_dict_def)
  moreover have "pdiscard_of (args_m d1) 4 (ntokens_m d1) = Fin (3 / 4)"
    by (simp add: w1 sub_dict_def pdiscard_of_def sqrt_4)
  moreover have "discard d2 0 (Fin (1 / 2)) = Some True"
    using d2(3) [rule_format, of 0 "Fin (1 / 2)"] w2 by (simp add: label_dict_def)
  moreover have "pdiscard_m d1 = [Fin (6 / 25), Fin (3 / 4)]"
    "pdiscard_m d2 = [Fin (6 / 25), Fin (3 / 4), Fin 2]"
    using d1(2) d2(2) by (simp_all add: sub_dict_def label_dict_def)
  ultimately show ?thesis using d1(1) d2(1) w1(1) by blast
qed


subsection \<open>Reading a line\<close>











text \<open>
  On a dictionary of the label-aware builder a stored entry is classified with its id and
  its type, and any other token with the result \<open>-1\<close> of the lookup and the type that
  its prefix tells.
\<close>

lemma getId_h_hash: "getId_h d w (hash w) = getId d w"
  by (simp add: getId_h_def getId_def find_w_def)

lemma built_L_classify:
  assumes "built_L d"
  shows "k < length (words_m d) \<Longrightarrow>
           classify d (word (words_m d ! k)) = Some (int k, type (words_m d ! k))"
    and "w \<notin> word ` set (words_m d) \<Longrightarrow> classify d w = Some (-1, getType_w d w)"
proof -
  from assms have i: "index_inv (word2int_m d) (words_m d) (length (words_m d))"
    and l: "length (words_m d) < MAX_VOCAB_SIZE" and sz: "size_m d = int (length (words_m d))"
    by (simp_all add: built_L_def MAX_VOCAB_SIZE_def)
  show "classify d (word (words_m d ! k)) = Some (int k, type (words_m d ! k))"
    if "k < length (words_m d)"
    using index_inv_getId_hit [OF i that] that sz
    by (simp add: classify_def getId_h_hash getType_i_def)
  show "classify d w = Some (-1, getType_w d w)" if "w \<notin> word ` set (words_m d)"
    using index_inv_getId_miss [OF i l, of w] that
    by (simp add: classify_def getId_h_hash)
qed





text \<open>
  The bound of 1024 is reached: on a line of 1030 tokens without a newline the words-only
  \<^verbatim>\<open>getLine\<close> returns 1025 after the 1025th token, 10 bytes before the end of the
  stream.
\<close>

lemma nth_concat_pairs:
  "i < k \<Longrightarrow> concat (replicate k [x, y]) ! (2 * i) = x \<and>
     concat (replicate k [x, y]) ! (2 * i + 1) = y"
proof (induction k arbitrary: i)
  case 0
  then show ?case by simp
next
  case (Suc k)
  show ?case
  proof (cases i)
    case 0
    then show ?thesis by simp
  next
    case (Suc j)
    with Suc.prems have "j < k" by simp
    from Suc.IH [OF this] Suc show ?thesis by simp
  qed
qed

lemma length_concat_pairs: "length (concat (replicate k [x, y])) = 2 * k"
  by (induction k) simp_all

lemma readWord_long:
  assumes "content s = concat (replicate k ''a '')" "gpos s = 2 * i" "i < k"
  shows "readWord s = (True, ''a'', s\<lparr>gpos := 2 * i + 2\<rparr>)"
proof -
  from nth_concat_pairs [OF assms(3), of "CHR ''a''" "CHR '' ''"] assms(1,2)
  have c: "content s ! gpos s = CHR ''a''" "content s ! (gpos s + 1) = CHR '' ''"
    by simp_all
  from assms have l: "gpos s + 1 < length (content s)"
    by (simp add: length_concat_pairs)
  define s1 where "s1 = s\<lparr>gpos := gpos s + 1\<rparr>"
  have sb1: "sbumpc s = (of_char (CHR ''a''), s1)"
    using c(1) l by (simp add: sbumpc_def s1_def)
  have sb2: "sbumpc s1 = (of_char (CHR '' ''), s1\<lparr>gpos := gpos s1 + 1\<rparr>)"
    using c(2) l by (simp add: sbumpc_def s1_def)
  have "readWord s = readWord_loop s1 ''a''"
    unfolding readWord_def
    by (subst readWord_loop_unfold [OF sb1])
      (simp add: char_of_def schar_def EOF_def is_separator_def)
  also have "\<dots> = (True, ''a'', s1\<lparr>gpos := gpos s1 + 1\<rparr>)"
    by (subst readWord_loop_unfold [OF sb2])
      (simp add: char_of_def schar_def EOF_def is_separator_def)
  finally show ?thesis by (simp add: s1_def assms(2))
qed

lemma getLine_loop_long:
  assumes "content s = concat (replicate k ''a '')" "gpos s = 2 * i"
    "n \<le> 1024" "0 \<le> n" "i + nat (1025 - n) \<le> k"
  shows "getLine_loop sub_dict s ws zero_rng n =
     Some (1025, ws @ replicate (nat (1025 - n)) 0, s\<lparr>gpos := 2 * (i + nat (1025 - n))\<rparr>,
           zero_rng)"
  using assms
proof (induction "nat (1025 - n)" arbitrary: s i n ws)
  case 0
  then show ?case by simp
next
  case (Suc m)
  from Suc.prems Suc.hyps(2) have ik: "i < k" by linarith
  note rw = readWord_long [OF Suc.prems(1,2) ik]
  have f: "find_w sub_dict ''a'' = Some 16002220"
    by (simp add: sub_dict_def find_w_def find_h_def find_loop.simps hash_def schar_def
        MAX_VOCAB_SIZE_def)
  have w: "word2int_m sub_dict 16002220 = 0" by (simp add: sub_dict_def)
  have u: "uniform zero_rng = (Fin 0, zero_rng)" by (simp add: uniform_def zero_rng_def)
  have dc: "discard sub_dict 0 (Fin 0) = Some False"
    by (simp add: discard_def sub_dict_def)
  define s2 where "s2 = s\<lparr>gpos := 2 * i + 2\<rparr>"
  show ?case
  proof (cases "n + 1 > MAX_LINE_SIZE")
    case True
    with Suc.prems(3) have n: "n = 1024" by (simp add: MAX_LINE_SIZE_def)
    have "getLine_loop sub_dict s ws zero_rng n = Some (n + 1, ws @ [0], s2, zero_rng)"
      using True by (subst getLine_loop.simps) (simp add: rw f w u dc s2_def Let_def EOS_def)
    with n show ?thesis by (simp add: s2_def)
  next
    case False
    then have n1: "n + 1 \<le> 1024" by (simp add: MAX_LINE_SIZE_def)
    have step: "getLine_loop sub_dict s ws zero_rng n =
        getLine_loop sub_dict s2 (ws @ [0]) zero_rng (n + 1)"
      using False by (subst getLine_loop.simps) (simp add: rw f w u dc s2_def Let_def EOS_def)
    have "getLine_loop sub_dict s2 (ws @ [0]) zero_rng (n + 1) =
       Some (1025, (ws @ [0]) @ replicate (nat (1025 - (n + 1))) 0,
             s2\<lparr>gpos := 2 * (Suc i + nat (1025 - (n + 1)))\<rparr>, zero_rng)"
    proof (rule Suc.hyps(1))
      show "m = nat (1025 - (n + 1))" using Suc.hyps(2) by simp
      show "content s2 = concat (replicate k ''a '')" using Suc.prems(1) by (simp add: s2_def)
      show "gpos s2 = 2 * Suc i" by (simp add: s2_def)
      show "n + 1 \<le> 1024" by (rule n1)
      show "0 \<le> n + 1" using Suc.prems(4) by simp
      show "Suc i + nat (1025 - (n + 1)) \<le> k" using Suc.prems(4,5) n1 by simp
    qed
    moreover from Suc.prems(4) n1
    have "nat (1025 - n) = Suc (nat (1025 - (n + 1)))" by simp
    ultimately show ?thesis
      unfolding step by (simp add: s2_def replicate_app_Cons_same)
  qed
qed

lemma getLine_truncates:
  "\<exists>ws s'. getLine sub_dict (long_stream 1030) zero_rng = Some (1025, ws, s', zero_rng) \<and>
     length ws = 1025 \<and> gpos s' = 2050 \<and> length (content s') = 2060 \<and>
     CHR 0x0A \<notin> set (content s')"
proof -
  have "getLine_loop sub_dict (long_stream 1030) [] zero_rng 0 =
     Some (1025, [] @ replicate (nat (1025 - 0)) 0,
           (long_stream 1030)\<lparr>gpos := 2 * (0 + nat (1025 - 0))\<rparr>, zero_rng)"
    by (rule getLine_loop_long [where k = 1030 and i = 0]) (simp_all add: long_stream_def)
  moreover have "reset (long_stream 1030) = long_stream 1030"
    by (simp add: reset_def long_stream_def)
  ultimately show ?thesis
    by (simp add: getLine_def long_stream_def length_concat_pairs)
qed








subsection \<open>Saving and loading\<close>

lemma length_le_bytes [simp]: "length (le_bytes n x) = n"
  by (induction n arbitrary: x) auto

lemma le_value_le_bytes: "le_value (le_bytes n x) = x mod 256 ^ n"
proof (induction n arbitrary: x)
  case 0
  then show ?case by simp
next
  case (Suc n)
  have "le_value (le_bytes (Suc n) x) = x mod 256 + 256 * ((x div 256) mod 256 ^ n)"
    by (simp add: Suc)
  also have "\<dots> = x mod (256 * 256 ^ n)"
    by (simp add: zmod_zmult2_eq)
  finally show ?case by simp
qed

lemma int_of_le_bytes:
  assumes "0 < n" "- (256 ^ n div 2) \<le> x" "x < 256 ^ n div 2"
  shows "int_of_bytes (le_bytes n x) = x"
proof -
  have ev: "(256::int) ^ n = 2 * (256 ^ n div 2)"
    using assms(1) by (cases n) simp_all
  define h where "h = (256::int) ^ n div 2"
  have p: "(256::int) ^ n = 2 * h" using ev by (simp add: h_def)
  have hx: "- h \<le> x" "x < h" using assms by (simp_all add: h_def)
  show ?thesis
  proof (cases "0 \<le> x")
    case True
    then have "x mod (2 * h) = x" using hx by simp
    then show ?thesis using hx True
      by (simp add: int_of_bytes_def le_value_le_bytes p)
  next
    case False
    then have "x mod (2 * h) = x + 2 * h"
      using hx by (intro mod_pos_pos_trivial [of "x + 2 * h" "2 * h", THEN trans [rotated]])
        (simp_all add: mod_add_self2)
    then show ?thesis using hx False
      by (simp add: int_of_bytes_def le_value_le_bytes p)
  qed
qed

lemma int32_roundtrip:
  "- 2147483648 \<le> x \<Longrightarrow> x < 2147483648 \<Longrightarrow> int_of_bytes (le_bytes 4 x) = x"
  by (rule int_of_le_bytes) simp_all

lemma int64_roundtrip:
  "- 9223372036854775808 \<le> x \<Longrightarrow> x < 9223372036854775808 \<Longrightarrow>
     int_of_bytes (le_bytes 8 x) = x"
  by (rule int_of_le_bytes) simp_all

lemma read_at:
  assumes "\<not> eofbit s" "gpos s \<le> length (content s)"
    and "drop (gpos s) (content s) = bs @ rest"
  shows "read s (length bs) = Some (bs, s\<lparr>gpos := gpos s + length bs\<rparr>)"
    and "drop (gpos s + length bs) (content s) = rest"
    and "gpos s + length bs \<le> length (content s)"
proof -
  have "length (drop (gpos s) (content s)) = length bs + length rest"
    using assms(3) by simp
  then show le: "gpos s + length bs \<le> length (content s)" using assms(2) by simp
  have "take (length bs) (drop (gpos s) (content s)) = bs" using assms(3) by simp
  with le assms(1) show "read s (length bs) = Some (bs, s\<lparr>gpos := gpos s + length bs\<rparr>)"
    by (simp add: read_def)
  have "drop (gpos s + length bs) (content s) = drop (length bs) (drop (gpos s) (content s))"
    by (simp add: add.commute)
  then show "drop (gpos s + length bs) (content s) = rest" using assms(3) by simp
qed

lemma drop_eq_ConsD:
  assumes "drop n xs = y # ys"
  shows "n < length xs" "xs ! n = y" "drop (Suc n) xs = ys"
proof -
  show lt: "n < length xs"
  proof (rule ccontr)
    assume "\<not> n < length xs"
    then have "drop n xs = []" by simp
    with assms show False by simp
  qed
  from Cons_nth_drop_Suc [OF lt] assms show "xs ! n = y" "drop (Suc n) xs = ys"
    by simp_all
qed

lemma of_char_not_EOF: "(of_char c :: int) \<noteq> EOF"
proof -
  have "(0::int) \<le> of_char c" by (simp add: of_char_def)
  then show ?thesis by (simp add: EOF_def)
qed

lemma load_word_step:
  assumes "\<not> eofbit s" "gpos s < length (content s)"
  shows "load_word s acc =
     (if content s ! gpos s \<noteq> CHR 0x00
      then load_word (s\<lparr>gpos := gpos s + 1\<rparr>) (acc @ [content s ! gpos s])
      else Some (acc, s\<lparr>gpos := gpos s + 1\<rparr>))"
  using assms by (subst load_word.simps) (simp add: get_def of_char_not_EOF Let_def)

lemma load_word_at:
  assumes "\<not> eofbit s" "gpos s \<le> length (content s)"
    and "drop (gpos s) (content s) = w @ CHR 0x00 # rest" "CHR 0x00 \<notin> set w"
  shows "load_word s acc = Some (acc @ w, s\<lparr>gpos := gpos s + length w + 1\<rparr>)"
  using assms
proof (induction w arbitrary: s acc)
  case Nil
  then have "drop (gpos s) (content s) = CHR 0x00 # rest" by simp
  from drop_eq_ConsD [OF this]
  have "gpos s < length (content s)" "content s ! gpos s = CHR 0x00" by simp_all
  with Nil show ?case
    by (simp add: load_word_step)
next
  case (Cons c w)
  from Cons.prems(3) have "drop (gpos s) (content s) = c # (w @ CHR 0x00 # rest)" by simp
  from drop_eq_ConsD [OF this]
  have lt: "gpos s < length (content s)" and c: "content s ! gpos s = c"
    and dr: "drop (gpos s + 1) (content s) = w @ CHR 0x00 # rest"
    by simp_all
  let ?s1 = "s\<lparr>gpos := gpos s + 1\<rparr>"
  have "load_word ?s1 (acc @ [c]) = Some ((acc @ [c]) @ w, ?s1\<lparr>gpos := gpos ?s1 + length w + 1\<rparr>)"
    using Cons.prems lt dr by (intro Cons.IH) simp_all
  moreover have "load_word s acc = load_word ?s1 (acc @ [c])"
    using Cons.prems lt c by (auto simp: load_word_step)
  ultimately show ?case by simp
qed

lemma int_of_bytes_32: "int32 x \<Longrightarrow> int_of_bytes (le_bytes 4 x) = x"
  by (simp add: int32_def int32_roundtrip)

lemma int_of_bytes_64: "int64 x \<Longrightarrow> int_of_bytes (le_bytes 8 x) = x"
  by (simp add: int64_def int64_roundtrip)

lemma read_le_bytes:
  assumes "\<not> eofbit s" "gpos s \<le> length (content s)"
    and "drop (gpos s) (content s) = le_bytes n x @ rest"
  shows "read s n = Some (le_bytes n x, s\<lparr>gpos := gpos s + n\<rparr>)"
    and "drop (gpos s + n) (content s) = rest"
    and "gpos s + n \<le> length (content s)"
  using read_at [OF assms] by simp_all

lemma load_entries_at:
  assumes "\<not> eofbit s" "gpos s \<le> length (content s)"
    and "drop (gpos s) (content s) = concat (map entry_bytes es) @ rest"
    and "\<forall>e\<in>set es. CHR 0x00 \<notin> set (word e) \<and> int64 (count e)"
    and "table_inv (word2int_m d) (length (words_m d))"
    and "length (words_m d) + length es \<le> MAX_VOCAB_SIZE"
    and "i = int (length (words_m d))"
  shows "\<exists>d'. load_entries d s (length es) i =
             Some (d', s\<lparr>gpos := gpos s + length (concat (map entry_bytes es))\<rparr>) \<and>
           words_m d' = words_m d @ es \<and>
           d' = d\<lparr>words_m := words_m d', word2int_m := word2int_m d'\<rparr>"
  using assms
proof (induction es arbitrary: d s i)
  case Nil
  then show ?case by simp
next
  case (Cons e es)
  let ?tail = "concat (map entry_bytes es) @ rest"
  from Cons.prems(3)
  have dr: "drop (gpos s) (content s) = word e @ CHR 0x00 # (le_bytes 8 (count e) @ ?tail)"
    by (simp add: entry_bytes_def [of e])
  from Cons.prems(4) have e: "CHR 0x00 \<notin> set (word e)" "int64 (count e)" by simp_all
  define s1 where "s1 = s\<lparr>gpos := gpos s + length (word e) + 1\<rparr>"
  have lw: "load_word s [] = Some (word e, s1)"
    using load_word_at [OF Cons.prems(1,2) dr e(1), of "[]"] by (simp add: s1_def)
  from dr have "drop (gpos s) (content s) = (word e @ [CHR 0x00]) @ (le_bytes 8 (count e) @ ?tail)"
    by simp
  from read_at(2,3) [OF Cons.prems(1,2) this]
  have s1: "\<not> eofbit s1" "gpos s1 \<le> length (content s1)"
    "drop (gpos s1) (content s1) = le_bytes 8 (count e) @ ?tail"
    using Cons.prems(1) by (simp_all add: s1_def)
  define s2 where "s2 = s1\<lparr>gpos := gpos s1 + 8\<rparr>"
  from read_le_bytes [OF s1]
  have rd: "read s1 8 = Some (le_bytes 8 (count e), s2)"
    and s2: "\<not> eofbit s2" "gpos s2 \<le> length (content s2)"
      "drop (gpos s2) (content s2) = ?tail"
    using s1(1) by (simp_all add: s2_def)
  have ee: "\<lparr>word = word e, count = int_of_bytes (le_bytes 8 (count e))\<rparr> = e"
    using e(2) by (simp add: int_of_bytes_64)
  define d1 where "d1 = d\<lparr>words_m := words_m d @ [e]\<rparr>"
  have lt: "length (words_m d) < MAX_VOCAB_SIZE" using Cons.prems(6) by simp
  have "\<exists>h<MAX_VOCAB_SIZE. find_w d1 (word e) = Some h \<and>
           (word2int_m d1 h = -1 \<or> word (words_m d1 ! nat (word2int_m d1 h)) = word e)"
    using Cons.prems(5) lt
    by (intro find_w_total [where n = "length (words_m d)"]) (simp_all add: d1_def)
  then obtain h where h: "find_w d1 (word e) = Some h" by blast
  define d2 where "d2 = d1\<lparr>word2int_m := (word2int_m d1)(h := i)\<rparr>"
  have d2: "words_m d2 = words_m d @ [e]"
    "word2int_m d2 = (word2int_m d)(h := int (length (words_m d)))"
    by (simp_all add: d2_def d1_def Cons.prems(7))
  have inv2: "table_inv (word2int_m d2) (length (words_m d2))"
    using table_inv_update [OF Cons.prems(5), of h] by (simp add: d2)
  have step: "load_entries d s (length (e # es)) i = load_entries d2 s2 (length es) (i + 1)"
    using lw rd h ee by (simp add: d1_def d2_def Let_def)
  have "\<exists>d'. load_entries d2 s2 (length es) (i + 1) =
             Some (d', s2\<lparr>gpos := gpos s2 + length (concat (map entry_bytes es))\<rparr>) \<and>
           words_m d' = words_m d2 @ es \<and>
           d' = d2\<lparr>words_m := words_m d', word2int_m := word2int_m d'\<rparr>"
  proof (rule Cons.IH [OF s2(1) s2(2) s2(3) _ inv2])
    show "\<forall>e\<in>set es. CHR 0x00 \<notin> set (word e) \<and> int64 (count e)"
      using Cons.prems(4) by simp
    show "length (words_m d2) + length es \<le> MAX_VOCAB_SIZE"
      using Cons.prems(6) by (simp add: d2(1))
    show "i + 1 = int (length (words_m d2))"
      using Cons.prems(7) by (simp add: d2(1))
  qed
  then obtain d' where d': "load_entries d2 s2 (length es) (i + 1) =
             Some (d', s2\<lparr>gpos := gpos s2 + length (concat (map entry_bytes es))\<rparr>)"
    "words_m d' = words_m d2 @ es"
    "d' = d2\<lparr>words_m := words_m d', word2int_m := word2int_m d'\<rparr>"
    by blast
  have pos: "s2\<lparr>gpos := gpos s2 + length (concat (map entry_bytes es))\<rparr> =
      s\<lparr>gpos := gpos s + length (concat (map entry_bytes (e # es)))\<rparr>"
    by (simp add: s2_def s1_def entry_bytes_def [of e])
  have fr: "d' = d\<lparr>words_m := words_m d', word2int_m := word2int_m d'\<rparr>"
    by (subst d'(3)) (simp add: d2_def d1_def)
  from d'(1,2) fr show ?case unfolding step pos by (simp add: d2)
qed

lemma assign_append: "k \<notin> fst ` set ps \<Longrightarrow> assign ps k v = ps @ [(k, v)]"
  by (induction ps) auto

lemma load_pruneidx_at:
  assumes "\<not> eofbit s" "gpos s \<le> length (content s)"
    and "drop (gpos s) (content s) = concat (map pair_bytes ps) @ rest"
    and "\<forall>p\<in>set ps. int32 (fst p) \<and> int32 (snd p)"
    and "distinct (map fst (pruneidx_m d @ ps))"
  shows "load_pruneidx d s (length ps) =
           Some (d\<lparr>pruneidx_m := pruneidx_m d @ ps\<rparr>,
                 s\<lparr>gpos := gpos s + length (concat (map pair_bytes ps))\<rparr>)"
  using assms
proof (induction ps arbitrary: d s)
  case Nil
  then show ?case by simp
next
  case (Cons p ps)
  obtain k v where p: "p = (k, v)" by (cases p)
  let ?tail = "concat (map pair_bytes ps) @ rest"
  from Cons.prems(3) p
  have dr: "drop (gpos s) (content s) = le_bytes 4 k @ (le_bytes 4 v @ ?tail)"
    by (simp add: pair_bytes_def [of "(k, v)"])
  from Cons.prems(4) p have kv: "int32 k" "int32 v" by simp_all
  define s1 where "s1 = s\<lparr>gpos := gpos s + 4\<rparr>"
  from read_le_bytes [OF Cons.prems(1,2) dr]
  have r1: "read s 4 = Some (le_bytes 4 k, s1)"
    and s1: "\<not> eofbit s1" "gpos s1 \<le> length (content s1)"
      "drop (gpos s1) (content s1) = le_bytes 4 v @ ?tail"
    using Cons.prems(1) by (simp_all add: s1_def)
  define s2 where "s2 = s1\<lparr>gpos := gpos s1 + 4\<rparr>"
  from read_le_bytes [OF s1]
  have r2: "read s1 4 = Some (le_bytes 4 v, s2)"
    and s2: "\<not> eofbit s2" "gpos s2 \<le> length (content s2)"
      "drop (gpos s2) (content s2) = ?tail"
    using s1(1) by (simp_all add: s2_def)
  from Cons.prems(5) p have "k \<notin> fst ` set (pruneidx_m d)" by auto
  then have as: "assign (pruneidx_m d) k v = pruneidx_m d @ [(k, v)]" by (rule assign_append)
  define d1 where "d1 = d\<lparr>pruneidx_m := pruneidx_m d @ [(k, v)]\<rparr>"
  have step: "load_pruneidx d s (length (p # ps)) = load_pruneidx d1 s2 (length ps)"
    using r1 r2 kv as by (simp add: int_of_bytes_32 d1_def)
  have "load_pruneidx d1 s2 (length ps) =
           Some (d1\<lparr>pruneidx_m := pruneidx_m d1 @ ps\<rparr>,
                 s2\<lparr>gpos := gpos s2 + length (concat (map pair_bytes ps))\<rparr>)"
    using s2 Cons.prems(4,5) p by (intro Cons.IH) (simp_all add: d1_def)
  then show ?case unfolding step
    by (simp add: d1_def s2_def s1_def p pair_bytes_def [of "(k, v)"])
qed

lemma save_bytes:
  assumes "nwords_m d \<le> int (length (words_m d))"
  shows "save d out = Some (out @ le_bytes 4 (nwords_m d) @ le_bytes 8 (ntokens_m d) @
           le_bytes 8 (pruneidx_size_m d) @
           concat (map entry_bytes (live (nwords_m d) (words_m d))) @
           concat (map pair_bytes (pruneidx_m d)))"
proof -
  have a: "(\<lambda>e. word e @ [CHR 0x00] @ le_bytes 8 (count e)) = entry_bytes"
    by (simp add: fun_eq_iff entry_bytes_def)
  have b: "(\<lambda>(k, v). le_bytes 4 k @ le_bytes 4 v) = pair_bytes"
    by (simp add: fun_eq_iff pair_bytes_def)
  show ?thesis using assms unfolding save_def a b live_def by simp
qed

lemma save_load:
  assumes "storable d" "args_m d0 = args_m d"
  shows "\<exists>bytes d' s'. save d [] = Some bytes \<and>
           load d0 (fresh_stream bytes) = Some (d', s') \<and>
           words_m d' = live (nwords_m d) (words_m d) \<and> nwords_m d' = nwords_m d \<and>
           ntokens_m d' = ntokens_m d \<and> pruneidx_size_m d' = pruneidx_size_m d \<and>
           pruneidx_m d' = pruneidx_m d \<and>
           pdiscard_m d' = table_of (args_m d) (ntokens_m d) (live (nwords_m d) (words_m d)) \<and>
           gpos s' = length bytes"
proof -
  let ?live = "live (nwords_m d) (words_m d)"
  let ?es = "concat (map entry_bytes ?live)"
  let ?ps = "concat (map pair_bytes (pruneidx_m d))"
  define bytes where "bytes = le_bytes 4 (nwords_m d) @ le_bytes 8 (ntokens_m d) @
           le_bytes 8 (pruneidx_size_m d) @ ?es @ ?ps"
  from assms(1) have nw0: "0 \<le> nwords_m d" and nw: "nwords_m d \<le> int (length (words_m d))"
    and le: "nwords_m d \<le> int MAX_VOCAB_SIZE"
    and es: "\<forall>e\<in>set ?live. CHR 0x00 \<notin> set (word e) \<and> int64 (count e)"
    and nt: "int64 (ntokens_m d)" and pm: "prunemap_ok d"
    unfolding storable_def by blast+
  from pm have psz: "pruneidx_size_m d = int (length (pruneidx_m d)) \<or>
      pruneidx_size_m d = -1 \<and> pruneidx_m d = []"
    and pl: "int64 (int (length (pruneidx_m d)))"
    and ps: "\<forall>p\<in>set (pruneidx_m d). int32 (fst p) \<and> int32 (snd p)"
    and di: "distinct (map fst (pruneidx_m d))"
    unfolding prunemap_ok_def by blast+
  have ll: "length ?live = nat (nwords_m d)" using nw0 nw by (simp add: live_def)
  have sv: "save d [] = Some bytes"
    using save_bytes [OF nw, of "[]"] by (simp add: bytes_def)
  have nw32: "int32 (nwords_m d)"
    using nw0 le by (simp add: int32_def MAX_VOCAB_SIZE_def)
  have ps64: "int64 (pruneidx_size_m d)"
    using psz pl by (auto simp: int64_def)
  have np: "nat (pruneidx_size_m d) = length (pruneidx_m d)"
    using psz by auto
  define s0 where "s0 = fresh_stream bytes"
  have s0: "\<not> eofbit s0" "gpos s0 \<le> length (content s0)"
    "drop (gpos s0) (content s0) = le_bytes 4 (nwords_m d) @ (le_bytes 8 (ntokens_m d) @
           le_bytes 8 (pruneidx_size_m d) @ ?es @ ?ps)"
    by (simp_all add: s0_def fresh_stream_def bytes_def)
  define s1 where "s1 = s0\<lparr>gpos := gpos s0 + 4\<rparr>"
  from read_le_bytes [OF s0]
  have r0: "read s0 4 = Some (le_bytes 4 (nwords_m d), s1)"
    and s1: "\<not> eofbit s1" "gpos s1 \<le> length (content s1)"
      "drop (gpos s1) (content s1) = le_bytes 8 (ntokens_m d) @
           (le_bytes 8 (pruneidx_size_m d) @ ?es @ ?ps)"
    using s0(1) by (simp_all add: s1_def)
  define s2 where "s2 = s1\<lparr>gpos := gpos s1 + 8\<rparr>"
  from read_le_bytes [OF s1]
  have r1: "read s1 8 = Some (le_bytes 8 (ntokens_m d), s2)"
    and s2: "\<not> eofbit s2" "gpos s2 \<le> length (content s2)"
      "drop (gpos s2) (content s2) = le_bytes 8 (pruneidx_size_m d) @ (?es @ ?ps)"
    using s1(1) by (simp_all add: s2_def)
  define s3 where "s3 = s2\<lparr>gpos := gpos s2 + 8\<rparr>"
  from read_le_bytes [OF s2]
  have r2: "read s2 8 = Some (le_bytes 8 (pruneidx_size_m d), s3)"
    and s3: "\<not> eofbit s3" "gpos s3 \<le> length (content s3)"
      "drop (gpos s3) (content s3) = ?es @ ?ps"
    using s2(1) by (simp_all add: s3_def)
  define d3 where "d3 = d0\<lparr>words_m := [], word2int_m := (\<lambda>_. -1), nwords_m := nwords_m d,
    ntokens_m := ntokens_m d, pruneidx_size_m := pruneidx_size_m d\<rparr>"
  define s4 where "s4 = s3\<lparr>gpos := gpos s3 + length ?es\<rparr>"
  have "\<exists>d'. load_entries d3 s3 (length ?live) 0 =
             Some (d', s3\<lparr>gpos := gpos s3 + length ?es\<rparr>) \<and>
           words_m d' = words_m d3 @ ?live \<and>
           d' = d3\<lparr>words_m := words_m d', word2int_m := word2int_m d'\<rparr>"
    using le nw0 by (intro load_entries_at [OF s3 es]) (simp_all add: d3_def table_inv_empty ll)
  then obtain d4 where d4: "load_entries d3 s3 (length ?live) 0 = Some (d4, s4)"
    "words_m d4 = ?live" "d4 = d3\<lparr>words_m := words_m d4, word2int_m := word2int_m d4\<rparr>"
    by (auto simp: s4_def d3_def)
  from read_at(2,3) [OF s3]
  have s4: "\<not> eofbit s4" "gpos s4 \<le> length (content s4)"
    "drop (gpos s4) (content s4) = ?ps @ []"
    using s3(1) by (simp_all add: s4_def)
  define d5 where "d5 = d4\<lparr>pruneidx_m := []\<rparr>"
  define s5 where "s5 = s4\<lparr>gpos := gpos s4 + length ?ps\<rparr>"
  have lp: "load_pruneidx d5 s4 (length (pruneidx_m d)) =
      Some (d5\<lparr>pruneidx_m := pruneidx_m d5 @ pruneidx_m d\<rparr>, s5)"
    unfolding s5_def using di by (intro load_pruneidx_at [OF s4 ps]) (simp add: d5_def)
  define d6 where "d6 = d5\<lparr>pruneidx_m := pruneidx_m d\<rparr>"
  have d6: "words_m d6 = ?live" "nwords_m d6 = nwords_m d" "ntokens_m d6 = ntokens_m d"
    "pruneidx_size_m d6 = pruneidx_size_m d" "pruneidx_m d6 = pruneidx_m d"
    "args_m d6 = args_m d"
    using arg_cong [OF d4(3), of nwords_m] arg_cong [OF d4(3), of ntokens_m]
      arg_cong [OF d4(3), of pruneidx_size_m] arg_cong [OF d4(3), of args_m] d4(2) assms(2)
    by (simp_all add: d6_def d5_def d3_def)
  define d7 where "d7 = d6\<lparr>pdiscard_m := table_of (args_m d) (ntokens_m d) ?live\<rparr>"
  have it: "initTableDiscard d6 = Some d7"
    using d6 nw0 ll by (simp add: initTableDiscard_def d7_def table_of_def)
  have len: "gpos s5 = length bytes"
    by (simp add: s5_def s4_def s3_def s2_def s1_def s0_def fresh_stream_def bytes_def)
  have l1: "load d0 s0 =
      load_entries d3 s3 (nat (nwords_m d3)) 0 \<bind>
        (\<lambda>(d, s). load_pruneidx (d\<lparr>pruneidx_m := []\<rparr>) s
             (nat (pruneidx_size_m (d\<lparr>pruneidx_m := []\<rparr>))) \<bind>
           (\<lambda>(d, s). initTableDiscard d \<bind> (\<lambda>d. Some (d, s))))"
    unfolding load_def using r0 r1 r2 nw32 nt ps64
    by (simp add: Let_def int_of_bytes_32 int_of_bytes_64 d3_def)
  have n3: "nat (nwords_m d3) = length ?live" by (simp add: d3_def ll)
  have n5: "nat (pruneidx_size_m d4) = length (pruneidx_m d)"
    using np d6(4) by (simp add: d6_def d5_def)
  have e6: "d5\<lparr>pruneidx_m := pruneidx_m d5 @ pruneidx_m d\<rparr> = d6"
    by (simp add: d6_def d5_def)
  have "load d0 (fresh_stream bytes) = Some (d7, s5)"
    unfolding s0_def [symmetric] l1 n3 d4(1)
    using lp it n5 by (simp add: d5_def [symmetric] e6)
  with sv d6 len show ?thesis by (auto simp: d7_def)
qed

lemma type_of_byte_of_type: "type_of_byte (byte_of_type ty) = Some ty"
  by (cases ty) (simp_all add: type_of_byte_def byte_of_type_def)

lemma load_entries_L_at:
  assumes "\<not> eofbit s" "gpos s \<le> length (content s)"
    and "drop (gpos s) (content s) = concat (map entry_bytes_L es) @ rest"
    and "\<forall>e\<in>set es. CHR 0x00 \<notin> set (word e) \<and> int64 (count e)"
    and "table_inv (word2int_m d) (length (words_m d))"
    and "length (words_m d) + length es \<le> MAX_VOCAB_SIZE"
    and "i = int (length (words_m d))"
  shows "\<exists>d'. load_entries_L d s (length es) i =
             Some (d', s\<lparr>gpos := gpos s + length (concat (map entry_bytes_L es))\<rparr>) \<and>
           words_m d' = words_m d @ es \<and>
           d' = d\<lparr>words_m := words_m d', word2int_m := word2int_m d'\<rparr>"
  using assms
proof (induction es arbitrary: d s i)
  case Nil
  then show ?case by simp
next
  case (Cons e es)
  let ?tail = "concat (map entry_bytes_L es) @ rest"
  from Cons.prems(3)
  have dr: "drop (gpos s) (content s) =
      word e @ CHR 0x00 # (le_bytes 8 (count e) @ [byte_of_type (type e)] @ ?tail)"
    by (simp add: entry_bytes_L_def [of e])
  from Cons.prems(4) have e: "CHR 0x00 \<notin> set (word e)" "int64 (count e)" by simp_all
  define s1 where "s1 = s\<lparr>gpos := gpos s + length (word e) + 1\<rparr>"
  have lw: "load_word s [] = Some (word e, s1)"
    using load_word_at [OF Cons.prems(1,2) dr e(1), of "[]"] by (simp add: s1_def)
  from dr have "drop (gpos s) (content s) =
      (word e @ [CHR 0x00]) @ (le_bytes 8 (count e) @ [byte_of_type (type e)] @ ?tail)"
    by simp
  from read_at(2,3) [OF Cons.prems(1,2) this]
  have s1: "\<not> eofbit s1" "gpos s1 \<le> length (content s1)"
    "drop (gpos s1) (content s1) = le_bytes 8 (count e) @ ([byte_of_type (type e)] @ ?tail)"
    using Cons.prems(1) by (simp_all add: s1_def)
  define s2 where "s2 = s1\<lparr>gpos := gpos s1 + 8\<rparr>"
  from read_le_bytes [OF s1]
  have rd: "read s1 8 = Some (le_bytes 8 (count e), s2)"
    and s2: "\<not> eofbit s2" "gpos s2 \<le> length (content s2)"
      "drop (gpos s2) (content s2) = [byte_of_type (type e)] @ ?tail"
    using s1(1) by (simp_all add: s2_def)
  define s3 where "s3 = s2\<lparr>gpos := gpos s2 + 1\<rparr>"
  from read_at [OF s2]
  have rt: "read s2 1 = Some ([byte_of_type (type e)], s3)"
    and s3: "\<not> eofbit s3" "gpos s3 \<le> length (content s3)"
      "drop (gpos s3) (content s3) = ?tail"
    using s2(1) by (simp_all add: s3_def)
  have ee: "\<lparr>word = word e, count = int_of_bytes (le_bytes 8 (count e)), type = type e\<rparr> = e"
    using e(2) by (simp add: int_of_bytes_64)
  define d1 where "d1 = d\<lparr>words_m := words_m d @ [e]\<rparr>"
  have lt: "length (words_m d) < MAX_VOCAB_SIZE" using Cons.prems(6) by simp
  have "\<exists>h<MAX_VOCAB_SIZE. find_w d1 (word e) = Some h \<and>
           (word2int_m d1 h = -1 \<or> word (words_m d1 ! nat (word2int_m d1 h)) = word e)"
    using Cons.prems(5) lt
    by (intro find_w_total [where n = "length (words_m d)"]) (simp_all add: d1_def)
  then obtain h where h: "find_w d1 (word e) = Some h" by blast
  define d2 where "d2 = d1\<lparr>word2int_m := (word2int_m d1)(h := i)\<rparr>"
  have d2: "words_m d2 = words_m d @ [e]"
    "word2int_m d2 = (word2int_m d)(h := int (length (words_m d)))"
    by (simp_all add: d2_def d1_def Cons.prems(7))
  have inv2: "table_inv (word2int_m d2) (length (words_m d2))"
    using table_inv_update [OF Cons.prems(5), of h] by (simp add: d2)
  have step: "load_entries_L d s (length (e # es)) i = load_entries_L d2 s3 (length es) (i + 1)"
    using lw rd rt h ee by (simp add: d1_def d2_def Let_def type_of_byte_of_type)
  have "\<exists>d'. load_entries_L d2 s3 (length es) (i + 1) =
             Some (d', s3\<lparr>gpos := gpos s3 + length (concat (map entry_bytes_L es))\<rparr>) \<and>
           words_m d' = words_m d2 @ es \<and>
           d' = d2\<lparr>words_m := words_m d', word2int_m := word2int_m d'\<rparr>"
  proof (rule Cons.IH [OF s3(1) s3(2) s3(3) _ inv2])
    show "\<forall>e\<in>set es. CHR 0x00 \<notin> set (word e) \<and> int64 (count e)"
      using Cons.prems(4) by simp
    show "length (words_m d2) + length es \<le> MAX_VOCAB_SIZE"
      using Cons.prems(6) by (simp add: d2(1))
    show "i + 1 = int (length (words_m d2))"
      using Cons.prems(7) by (simp add: d2(1))
  qed
  then obtain d' where d': "load_entries_L d2 s3 (length es) (i + 1) =
             Some (d', s3\<lparr>gpos := gpos s3 + length (concat (map entry_bytes_L es))\<rparr>)"
    "words_m d' = words_m d2 @ es"
    "d' = d2\<lparr>words_m := words_m d', word2int_m := word2int_m d'\<rparr>"
    by blast
  have pos: "s3\<lparr>gpos := gpos s3 + length (concat (map entry_bytes_L es))\<rparr> =
      s\<lparr>gpos := gpos s + length (concat (map entry_bytes_L (e # es)))\<rparr>"
    by (simp add: s3_def s2_def s1_def entry_bytes_L_def [of e])
  have fr: "d' = d\<lparr>words_m := words_m d', word2int_m := word2int_m d'\<rparr>"
    by (subst d'(3)) (simp add: d2_def d1_def)
  from d'(1,2) fr show ?case unfolding step pos by (simp add: d2)
qed

lemma save_L_bytes:
  assumes "size_m d \<le> int (length (words_m d))"
  shows "save_L d out = Some (out @ le_bytes 4 (size_m d) @ le_bytes 4 (nwords_m d) @
           le_bytes 4 (nlabels_m d) @ le_bytes 8 (ntokens_m d) @
           le_bytes 8 (pruneidx_size_m d) @
           concat (map entry_bytes_L (live (size_m d) (words_m d))) @
           concat (map pair_bytes (pruneidx_m d)))"
proof -
  have a: "(\<lambda>e. word e @ [CHR 0x00] @ le_bytes 8 (count e) @ [byte_of_type (type e)])
      = entry_bytes_L"
    by (simp add: fun_eq_iff entry_bytes_L_def)
  have b: "(\<lambda>(k, v). le_bytes 4 k @ le_bytes 4 v) = pair_bytes"
    by (simp add: fun_eq_iff pair_bytes_def)
  show ?thesis using assms unfolding save_L_def a b live_def by simp
qed

lemma save_load_L:
  assumes "storable_L d" "args_m d0 = args_m d"
  shows "\<exists>bytes d' s'. save_L d [] = Some bytes \<and>
           load_L d0 (fresh_stream bytes) = Some (d', s') \<and>
           words_m d' = live (size_m d) (words_m d) \<and> size_m d' = size_m d \<and>
           nwords_m d' = nwords_m d \<and> nlabels_m d' = nlabels_m d \<and>
           ntokens_m d' = ntokens_m d \<and> pruneidx_size_m d' = pruneidx_size_m d \<and>
           pruneidx_m d' = pruneidx_m d \<and>
           pdiscard_m d' = table_of (args_m d) (ntokens_m d) (live (size_m d) (words_m d)) \<and>
           gpos s' = length bytes"
proof -
  let ?live = "live (size_m d) (words_m d)"
  let ?es = "concat (map entry_bytes_L ?live)"
  let ?ps = "concat (map pair_bytes (pruneidx_m d))"
  define bytes where "bytes = le_bytes 4 (size_m d) @ le_bytes 4 (nwords_m d) @
           le_bytes 4 (nlabels_m d) @ le_bytes 8 (ntokens_m d) @
           le_bytes 8 (pruneidx_size_m d) @ ?es @ ?ps"
  from assms(1) have sz0: "0 \<le> size_m d" and sz: "size_m d \<le> int (length (words_m d))"
    and le: "size_m d \<le> int MAX_VOCAB_SIZE"
    and nw32: "int32 (nwords_m d)" and nl32: "int32 (nlabels_m d)"
    and es: "\<forall>e\<in>set ?live. CHR 0x00 \<notin> set (word e) \<and> int64 (count e)"
    and nt: "int64 (ntokens_m d)" and pm: "prunemap_ok d"
    unfolding storable_L_def by blast+
  from pm have psz: "pruneidx_size_m d = int (length (pruneidx_m d)) \<or>
      pruneidx_size_m d = -1 \<and> pruneidx_m d = []"
    and pl: "int64 (int (length (pruneidx_m d)))"
    and ps: "\<forall>p\<in>set (pruneidx_m d). int32 (fst p) \<and> int32 (snd p)"
    and di: "distinct (map fst (pruneidx_m d))"
    unfolding prunemap_ok_def by blast+
  have ll: "length ?live = nat (size_m d)" using sz0 sz by (simp add: live_def)
  have sv: "save_L d [] = Some bytes"
    using save_L_bytes [OF sz, of "[]"] by (simp add: bytes_def)
  have sz32: "int32 (size_m d)"
    using sz0 le by (simp add: int32_def MAX_VOCAB_SIZE_def)
  have ps64: "int64 (pruneidx_size_m d)"
    using psz pl by (auto simp: int64_def)
  have np: "nat (pruneidx_size_m d) = length (pruneidx_m d)"
    using psz by auto
  define s0 where "s0 = fresh_stream bytes"
  have s0: "\<not> eofbit s0" "gpos s0 \<le> length (content s0)"
    "drop (gpos s0) (content s0) = le_bytes 4 (size_m d) @ (le_bytes 4 (nwords_m d) @
           le_bytes 4 (nlabels_m d) @ le_bytes 8 (ntokens_m d) @
           le_bytes 8 (pruneidx_size_m d) @ ?es @ ?ps)"
    by (simp_all add: s0_def fresh_stream_def bytes_def)
  define sa where "sa = s0\<lparr>gpos := gpos s0 + 4\<rparr>"
  from read_le_bytes [OF s0]
  have ra: "read s0 4 = Some (le_bytes 4 (size_m d), sa)"
    and sa: "\<not> eofbit sa" "gpos sa \<le> length (content sa)"
      "drop (gpos sa) (content sa) = le_bytes 4 (nwords_m d) @
           (le_bytes 4 (nlabels_m d) @ le_bytes 8 (ntokens_m d) @
           le_bytes 8 (pruneidx_size_m d) @ ?es @ ?ps)"
    using s0(1) by (simp_all add: sa_def)
  define sb where "sb = sa\<lparr>gpos := gpos sa + 4\<rparr>"
  from read_le_bytes [OF sa]
  have rb: "read sa 4 = Some (le_bytes 4 (nwords_m d), sb)"
    and sb: "\<not> eofbit sb" "gpos sb \<le> length (content sb)"
      "drop (gpos sb) (content sb) = le_bytes 4 (nlabels_m d) @
           (le_bytes 8 (ntokens_m d) @ le_bytes 8 (pruneidx_size_m d) @ ?es @ ?ps)"
    using sa(1) by (simp_all add: sb_def)
  define s1 where "s1 = sb\<lparr>gpos := gpos sb + 4\<rparr>"
  from read_le_bytes [OF sb]
  have r0: "read sb 4 = Some (le_bytes 4 (nlabels_m d), s1)"
    and s1: "\<not> eofbit s1" "gpos s1 \<le> length (content s1)"
      "drop (gpos s1) (content s1) = le_bytes 8 (ntokens_m d) @
           (le_bytes 8 (pruneidx_size_m d) @ ?es @ ?ps)"
    using sb(1) by (simp_all add: s1_def)
  define s2 where "s2 = s1\<lparr>gpos := gpos s1 + 8\<rparr>"
  from read_le_bytes [OF s1]
  have r1: "read s1 8 = Some (le_bytes 8 (ntokens_m d), s2)"
    and s2: "\<not> eofbit s2" "gpos s2 \<le> length (content s2)"
      "drop (gpos s2) (content s2) = le_bytes 8 (pruneidx_size_m d) @ (?es @ ?ps)"
    using s1(1) by (simp_all add: s2_def)
  define s3 where "s3 = s2\<lparr>gpos := gpos s2 + 8\<rparr>"
  from read_le_bytes [OF s2]
  have r2: "read s2 8 = Some (le_bytes 8 (pruneidx_size_m d), s3)"
    and s3: "\<not> eofbit s3" "gpos s3 \<le> length (content s3)"
      "drop (gpos s3) (content s3) = ?es @ ?ps"
    using s2(1) by (simp_all add: s3_def)
  define d3 where "d3 = d0\<lparr>words_m := [], word2int_m := (\<lambda>_. -1), size_m := size_m d,
    nwords_m := nwords_m d, nlabels_m := nlabels_m d,
    ntokens_m := ntokens_m d, pruneidx_size_m := pruneidx_size_m d\<rparr>"
  define s4 where "s4 = s3\<lparr>gpos := gpos s3 + length ?es\<rparr>"
  have "\<exists>d'. load_entries_L d3 s3 (length ?live) 0 =
             Some (d', s3\<lparr>gpos := gpos s3 + length ?es\<rparr>) \<and>
           words_m d' = words_m d3 @ ?live \<and>
           d' = d3\<lparr>words_m := words_m d', word2int_m := word2int_m d'\<rparr>"
    using le sz0
    by (intro load_entries_L_at [OF s3 es]) (simp_all add: d3_def table_inv_empty ll)
  then obtain d4 where d4: "load_entries_L d3 s3 (length ?live) 0 = Some (d4, s4)"
    "words_m d4 = ?live" "d4 = d3\<lparr>words_m := words_m d4, word2int_m := word2int_m d4\<rparr>"
    by (auto simp: s4_def d3_def)
  from read_at(2,3) [OF s3]
  have s4: "\<not> eofbit s4" "gpos s4 \<le> length (content s4)"
    "drop (gpos s4) (content s4) = ?ps @ []"
    using s3(1) by (simp_all add: s4_def)
  define d5 where "d5 = d4\<lparr>pruneidx_m := []\<rparr>"
  define s5 where "s5 = s4\<lparr>gpos := gpos s4 + length ?ps\<rparr>"
  have lp: "load_pruneidx d5 s4 (length (pruneidx_m d)) =
      Some (d5\<lparr>pruneidx_m := pruneidx_m d5 @ pruneidx_m d\<rparr>, s5)"
    unfolding s5_def using di by (intro load_pruneidx_at [OF s4 ps]) (simp add: d5_def)
  define d6 where "d6 = d5\<lparr>pruneidx_m := pruneidx_m d\<rparr>"
  have d6: "words_m d6 = ?live" "nwords_m d6 = nwords_m d" "ntokens_m d6 = ntokens_m d"
    "pruneidx_size_m d6 = pruneidx_size_m d" "pruneidx_m d6 = pruneidx_m d"
    "args_m d6 = args_m d" "size_m d6 = size_m d" "nlabels_m d6 = nlabels_m d"
    using arg_cong [OF d4(3), of nwords_m] arg_cong [OF d4(3), of ntokens_m]
      arg_cong [OF d4(3), of pruneidx_size_m] arg_cong [OF d4(3), of args_m]
      arg_cong [OF d4(3), of size_m] arg_cong [OF d4(3), of nlabels_m] d4(2) assms(2)
    by (simp_all add: d6_def d5_def d3_def)
  define d7 where "d7 = d6\<lparr>pdiscard_m := table_of (args_m d) (ntokens_m d) ?live\<rparr>"
  have it: "initTableDiscard_L d6 = Some d7"
    using d6 sz0 ll by (simp add: initTableDiscard_L_def d7_def table_of_def)
  have len: "gpos s5 = length bytes"
    by (simp add: s5_def s4_def s3_def s2_def s1_def sb_def sa_def s0_def fresh_stream_def
        bytes_def)
  have l1: "load_L d0 s0 =
      load_entries_L d3 s3 (nat (size_m d3)) 0 \<bind>
        (\<lambda>(d, s). load_pruneidx (d\<lparr>pruneidx_m := []\<rparr>) s
             (nat (pruneidx_size_m (d\<lparr>pruneidx_m := []\<rparr>))) \<bind>
           (\<lambda>(d, s). initTableDiscard_L d \<bind> (\<lambda>d. Some (d, s))))"
    unfolding load_L_def using ra rb r0 r1 r2 sz32 nw32 nl32 nt ps64
    by (simp add: Let_def int_of_bytes_32 int_of_bytes_64 d3_def)
  have n3: "nat (size_m d3) = length ?live" by (simp add: d3_def ll)
  have n5: "nat (pruneidx_size_m d4) = length (pruneidx_m d)"
    using np d6(4) by (simp add: d6_def d5_def)
  have e6: "d5\<lparr>pruneidx_m := pruneidx_m d5 @ pruneidx_m d\<rparr> = d6"
    by (simp add: d6_def d5_def)
  have "load_L d0 (fresh_stream bytes) = Some (d7, s5)"
    unfolding s0_def [symmetric] l1 n3 d4(1)
    using lp it n5 by (simp add: d5_def [symmetric] e6)
  with sv d6 len show ?thesis by (auto simp: d7_def)
qed

lemma sub_dict_storable: "storable sub_dict \<and> current sub_dict"
  by (simp add: storable_def current_def prunemap_ok_def live_def int64_def int32_def
      MAX_VOCAB_SIZE_def sub_dict_def table_of_def pdiscard_of_def sqrt_25 sqrt_4)

lemma label_dict_storable: "storable_L label_dict \<and> current_L label_dict"
  by (simp add: storable_L_def current_L_def prunemap_ok_def live_def int64_def int32_def
      MAX_VOCAB_SIZE_def label_dict_def table_of_def pdiscard_of_def sqrt_25 sqrt_4)

lemma load_current:
  assumes "load d0 s = Some (d', s')"
  shows "current d'"
proof -
  from assms obtain d5 where i: "initTableDiscard d5 = Some d'"
    by (auto simp: load_def Let_def split: bind_splits prod.splits)
  from load_counter [OF assms] have n: "nwords_m d' = int (length (words_m d'))" .
  from i n show ?thesis
    by (auto simp: initTableDiscard_def current_def table_of_def split: if_splits)
qed

lemma load_L_current:
  assumes "load_L d0 s = Some (d', s')"
  shows "current_L d'"
proof -
  from assms obtain d5 where i: "initTableDiscard_L d5 = Some d'"
    by (auto simp: load_L_def Let_def split: bind_splits prod.splits)
  from load_L_counter [OF assms] have n: "size_m d' = int (length (words_m d'))" .
  from i n show ?thesis
    by (auto simp: initTableDiscard_L_def current_L_def table_of_def split: if_splits)
qed

lemma scenario_built:
  "\<exists>d s'. readFromFile (Dictionary_init scenario_args) scenario_stream = Some (d, s') \<and>
     map (\<lambda>e. (word e, count e)) (words_m d) = [(''a'', 4), (''b'', 3)] \<and> ntokens_m d = 9"
  by (simp add: scenario_eval stream_eval dict_eval)

lemma label_built:
  "\<exists>d s'. readFromFile_L (Dictionary_init_L label_args 0) label_stream = Some (d, s') \<and>
     map (\<lambda>e. (word e, count e, type e)) (words_m d)
       = [(''a'', 2, Word), (''b'', 1, Word), (''#x'', 2, Label)] \<and>
     nwords_m d = 2 \<and> nlabels_m d = 1 \<and> ntokens_m d = 5"
  by (simp add: scenario_eval stream_eval dict_eval_L)

text \<open>
  After \<^verbatim>\<open>prune\<close> the subsampling table is the former one and the dropped entries
  are still stored, so \<^verbatim>\<open>save\<close> and \<^verbatim>\<open>load\<close> need not reproduce the table of such
  a state: after \<^verbatim>\<open>prune([1])\<close> on the dictionary with the entries a and b the table
  is \<open>[6/25, 3/4]\<close>, and after \<^verbatim>\<open>save\<close> and \<^verbatim>\<open>load\<close> it is \<open>[3/4]\<close>.
\<close>

lemma prune_save_load_table:
  "prune_save_load sub_dict [1] = Some ([Fin (6 / 25), Fin (3 / 4)], [Fin (3 / 4)])"
proof -
  have "\<exists>d1. prune sub_dict [1] = Some (d1, [1]) \<and> nwords_m d1 = 1 \<and>
      words_m d1 = [\<lparr>word = ''b'', count = 4\<rparr>, \<lparr>word = ''b'', count = 4\<rparr>] \<and>
      args_m d1 = args_m sub_dict \<and> ntokens_m d1 = 100 \<and>
      pdiscard_m d1 = [Fin (6 / 25), Fin (3 / 4)] \<and>
      pruneidx_m d1 = [] \<and> pruneidx_size_m d1 = 0"
    by (simp add: sub_dict_def dict_eval schar_def Let_def)
  then obtain d1 where d1: "prune sub_dict [1] = Some (d1, [1])" "nwords_m d1 = 1"
      "words_m d1 = [\<lparr>word = ''b'', count = 4\<rparr>, \<lparr>word = ''b'', count = 4\<rparr>]"
      "args_m d1 = args_m sub_dict" "ntokens_m d1 = 100"
      "pdiscard_m d1 = [Fin (6 / 25), Fin (3 / 4)]"
      "pruneidx_m d1 = []" "pruneidx_size_m d1 = 0"
    by blast
  have st: "storable d1"
    using d1 by (simp add: storable_def prunemap_ok_def live_def int64_def int32_def
        MAX_VOCAB_SIZE_def)
  have "args_m (Dictionary_init (args_m d1)) = args_m d1" by (simp add: Dictionary_init_def)
  from save_load [OF st this]
  obtain bytes d2 s2 where r: "save d1 [] = Some bytes"
    "load (Dictionary_init (args_m d1)) (fresh_stream bytes) = Some (d2, s2)"
    "pdiscard_m d2 = table_of (args_m d1) (ntokens_m d1) (live (nwords_m d1) (words_m d1))"
    by blast
  have "pdiscard_m d2 = [Fin (3 / 4)]"
    using r(3) d1 by (simp add: table_of_def live_def pdiscard_of_def sub_dict_def sqrt_4)
  with d1 r show ?thesis by (simp add: prune_save_load_def)
qed

text \<open>
  C6: for every built dictionary, that is every dictionary that \<^verbatim>\<open>readFromFile\<close>
  returns (for a corpus of less than \<open>2\<^sup>6\<^sup>3\<close> bytes, so that the counters fit their
  types), \<^verbatim>\<open>save\<close> returns, and \<^verbatim>\<open>load\<close> of the bytes into a fresh dictionary
  with the same options returns a dictionary with the identical entry sequence (word,
  count, and type in the label-aware variant), identical counters, an identical prune map
  and an identical subsampling table. More generally, for every dictionary that can be
  stored the loaded dictionary holds the live entries in the same order, the same
  counters and prune map, and the table computed from the live entries, which are the
  former entries and table whenever the dictionary is current; and every dictionary that
  \<^verbatim>\<open>load\<close> returns is current.
\<close>

theorem save_load_roundtrip:
  "(readFromFile (Dictionary_init a) s = Some (db, sb) \<and>
      length (content s) < 9223372036854775808 \<longrightarrow>
      storable db \<and> current db \<and>
      (\<exists>bytes d' s'. save db [] = Some bytes \<and>
         load (Dictionary_init a) (fresh_stream bytes) = Some (d', s') \<and>
         words_m d' = words_m db \<and> nwords_m d' = nwords_m db \<and>
         ntokens_m d' = ntokens_m db \<and> pruneidx_size_m d' = pruneidx_size_m db \<and>
         pruneidx_m d' = pruneidx_m db \<and> pdiscard_m d' = pdiscard_m db)) \<and>
   (readFromFile_L (Dictionary_init_L a 0) s = Some (dbl, sbl) \<and>
      length (content s) < 9223372036854775808 \<longrightarrow>
      storable_L dbl \<and> current_L dbl \<and>
      (\<exists>bytes d' s'. save_L dbl [] = Some bytes \<and>
         load_L (Dictionary_init_L a sz) (fresh_stream bytes) = Some (d', s') \<and>
         words_m d' = words_m dbl \<and> size_m d' = size_m dbl \<and>
         nwords_m d' = nwords_m dbl \<and> nlabels_m d' = nlabels_m dbl \<and>
         ntokens_m d' = ntokens_m dbl \<and> pruneidx_size_m d' = pruneidx_size_m dbl \<and>
         pruneidx_m d' = pruneidx_m dbl \<and> pdiscard_m d' = pdiscard_m dbl)) \<and>
   (storable d \<longrightarrow>
      (\<exists>bytes d' s'. save d [] = Some bytes \<and>
         load (Dictionary_init (args_m d)) (fresh_stream bytes) = Some (d', s') \<and>
         words_m d' = live (nwords_m d) (words_m d) \<and> nwords_m d' = nwords_m d \<and>
         ntokens_m d' = ntokens_m d \<and> pruneidx_size_m d' = pruneidx_size_m d \<and>
         pruneidx_m d' = pruneidx_m d \<and>
         pdiscard_m d' = table_of (args_m d) (ntokens_m d) (live (nwords_m d) (words_m d)) \<and>
         (current d \<longrightarrow> words_m d' = words_m d \<and> pdiscard_m d' = pdiscard_m d))) \<and>
   (storable_L dl \<longrightarrow>
      (\<exists>bytes d' s'. save_L dl [] = Some bytes \<and>
         load_L (Dictionary_init_L (args_m dl) sz) (fresh_stream bytes) = Some (d', s') \<and>
         words_m d' = live (size_m dl) (words_m dl) \<and> size_m d' = size_m dl \<and>
         nwords_m d' = nwords_m dl \<and> nlabels_m d' = nlabels_m dl \<and>
         ntokens_m d' = ntokens_m dl \<and> pruneidx_size_m d' = pruneidx_size_m dl \<and>
         pruneidx_m d' = pruneidx_m dl \<and>
         pdiscard_m d' = table_of (args_m dl) (ntokens_m dl) (live (size_m dl) (words_m dl)) \<and>
         (current_L dl \<longrightarrow> words_m d' = words_m dl \<and> pdiscard_m d' = pdiscard_m dl))) \<and>
   (load d0 s = Some (dc, sc) \<longrightarrow> current dc) \<and>
   (load_L dl0 s = Some (dcl, scl) \<longrightarrow> current_L dcl)"
proof (intro conjI impI)
  assume h: "readFromFile (Dictionary_init a) s = Some (db, sb) \<and>
      length (content s) < 9223372036854775808"
  with readFromFile_built [of a s db sb]
  have st: "storable db" and cu: "current db" and ar: "args_m db = a" by simp_all
  show "storable db" by (rule st)
  show "current db" by (rule cu)
  have "args_m (Dictionary_init a) = args_m db" by (simp add: Dictionary_init_def ar)
  from save_load [OF st this]
  obtain bytes d' s' where r: "save db [] = Some bytes"
    "load (Dictionary_init a) (fresh_stream bytes) = Some (d', s')"
    "words_m d' = live (nwords_m db) (words_m db)" "nwords_m d' = nwords_m db"
    "ntokens_m d' = ntokens_m db" "pruneidx_size_m d' = pruneidx_size_m db"
    "pruneidx_m d' = pruneidx_m db"
    "pdiscard_m d' = table_of (args_m db) (ntokens_m db) (live (nwords_m db) (words_m db))"
    by blast
  from cu r(3,8) have "words_m d' = words_m db" "pdiscard_m d' = pdiscard_m db"
    by (simp_all add: current_def live_def)
  with r show "\<exists>bytes d' s'. save db [] = Some bytes \<and>
         load (Dictionary_init a) (fresh_stream bytes) = Some (d', s') \<and>
         words_m d' = words_m db \<and> nwords_m d' = nwords_m db \<and>
         ntokens_m d' = ntokens_m db \<and> pruneidx_size_m d' = pruneidx_size_m db \<and>
         pruneidx_m d' = pruneidx_m db \<and> pdiscard_m d' = pdiscard_m db"
    by blast
next
  assume h: "readFromFile_L (Dictionary_init_L a 0) s = Some (dbl, sbl) \<and>
      length (content s) < 9223372036854775808"
  with readFromFile_L_built [of a s dbl sbl]
  have st: "storable_L dbl" and cu: "current_L dbl" and ar: "args_m dbl = a" by simp_all
  show "storable_L dbl" by (rule st)
  show "current_L dbl" by (rule cu)
  have "args_m (Dictionary_init_L a sz) = args_m dbl" by (simp add: Dictionary_init_L_def ar)
  from save_load_L [OF st this]
  obtain bytes d' s' where r: "save_L dbl [] = Some bytes"
    "load_L (Dictionary_init_L a sz) (fresh_stream bytes) = Some (d', s')"
    "words_m d' = live (size_m dbl) (words_m dbl)" "size_m d' = size_m dbl"
    "nwords_m d' = nwords_m dbl" "nlabels_m d' = nlabels_m dbl"
    "ntokens_m d' = ntokens_m dbl" "pruneidx_size_m d' = pruneidx_size_m dbl"
    "pruneidx_m d' = pruneidx_m dbl"
    "pdiscard_m d' = table_of (args_m dbl) (ntokens_m dbl) (live (size_m dbl) (words_m dbl))"
    by blast
  from cu r(3,10) have "words_m d' = words_m dbl" "pdiscard_m d' = pdiscard_m dbl"
    by (simp_all add: current_L_def live_def)
  with r show "\<exists>bytes d' s'. save_L dbl [] = Some bytes \<and>
         load_L (Dictionary_init_L a sz) (fresh_stream bytes) = Some (d', s') \<and>
         words_m d' = words_m dbl \<and> size_m d' = size_m dbl \<and>
         nwords_m d' = nwords_m dbl \<and> nlabels_m d' = nlabels_m dbl \<and>
         ntokens_m d' = ntokens_m dbl \<and> pruneidx_size_m d' = pruneidx_size_m dbl \<and>
         pruneidx_m d' = pruneidx_m dbl \<and> pdiscard_m d' = pdiscard_m dbl"
    by blast
next
  assume st: "storable d"
  have "args_m (Dictionary_init (args_m d)) = args_m d" by (simp add: Dictionary_init_def)
  from save_load [OF st this]
  obtain bytes d' s' where r: "save d [] = Some bytes"
    "load (Dictionary_init (args_m d)) (fresh_stream bytes) = Some (d', s')"
    "words_m d' = live (nwords_m d) (words_m d)" "nwords_m d' = nwords_m d"
    "ntokens_m d' = ntokens_m d" "pruneidx_size_m d' = pruneidx_size_m d"
    "pruneidx_m d' = pruneidx_m d"
    "pdiscard_m d' = table_of (args_m d) (ntokens_m d) (live (nwords_m d) (words_m d))"
    by blast
  have "current d \<longrightarrow> words_m d' = words_m d \<and> pdiscard_m d' = pdiscard_m d"
    using r(3,8) by (simp add: current_def live_def)
  with r show "\<exists>bytes d' s'. save d [] = Some bytes \<and>
         load (Dictionary_init (args_m d)) (fresh_stream bytes) = Some (d', s') \<and>
         words_m d' = live (nwords_m d) (words_m d) \<and> nwords_m d' = nwords_m d \<and>
         ntokens_m d' = ntokens_m d \<and> pruneidx_size_m d' = pruneidx_size_m d \<and>
         pruneidx_m d' = pruneidx_m d \<and>
         pdiscard_m d' = table_of (args_m d) (ntokens_m d) (live (nwords_m d) (words_m d)) \<and>
         (current d \<longrightarrow> words_m d' = words_m d \<and> pdiscard_m d' = pdiscard_m d)"
    by blast
next
  assume st: "storable_L dl"
  have "args_m (Dictionary_init_L (args_m dl) sz) = args_m dl"
    by (simp add: Dictionary_init_L_def)
  from save_load_L [OF st this]
  obtain bytes d' s' where r: "save_L dl [] = Some bytes"
    "load_L (Dictionary_init_L (args_m dl) sz) (fresh_stream bytes) = Some (d', s')"
    "words_m d' = live (size_m dl) (words_m dl)" "size_m d' = size_m dl"
    "nwords_m d' = nwords_m dl" "nlabels_m d' = nlabels_m dl"
    "ntokens_m d' = ntokens_m dl" "pruneidx_size_m d' = pruneidx_size_m dl"
    "pruneidx_m d' = pruneidx_m dl"
    "pdiscard_m d' = table_of (args_m dl) (ntokens_m dl) (live (size_m dl) (words_m dl))"
    by blast
  have "current_L dl \<longrightarrow> words_m d' = words_m dl \<and> pdiscard_m d' = pdiscard_m dl"
    using r(3,10) by (simp add: current_L_def live_def)
  with r show "\<exists>bytes d' s'. save_L dl [] = Some bytes \<and>
         load_L (Dictionary_init_L (args_m dl) sz) (fresh_stream bytes) = Some (d', s') \<and>
         words_m d' = live (size_m dl) (words_m dl) \<and> size_m d' = size_m dl \<and>
         nwords_m d' = nwords_m dl \<and> nlabels_m d' = nlabels_m dl \<and>
         ntokens_m d' = ntokens_m dl \<and> pruneidx_size_m d' = pruneidx_size_m dl \<and>
         pruneidx_m d' = pruneidx_m dl \<and>
         pdiscard_m d' = table_of (args_m dl) (ntokens_m dl) (live (size_m dl) (words_m dl)) \<and>
         (current_L dl \<longrightarrow> words_m d' = words_m dl \<and> pdiscard_m d' = pdiscard_m dl)"
    by blast
next
  assume "load d0 s = Some (dc, sc)"
  then show "current dc" by (rule load_current)
next
  assume "load_L dl0 s = Some (dcl, scl)"
  then show "current_L dcl" by (rule load_L_current)
qed

theorem save_load_roundtrip_witness:
  "(\<exists>d s0 bytes d' s'.
      readFromFile (Dictionary_init scenario_args) scenario_stream = Some (d, s0) \<and>
      save d [] = Some bytes \<and>
      load (Dictionary_init scenario_args) (fresh_stream bytes) = Some (d', s') \<and>
      words_m d' = words_m d \<and> nwords_m d' = nwords_m d \<and> ntokens_m d' = ntokens_m d \<and>
      pruneidx_size_m d' = pruneidx_size_m d \<and> pruneidx_m d' = pruneidx_m d \<and>
      pdiscard_m d' = pdiscard_m d \<and> current d' \<and>
      map (\<lambda>e. (word e, count e)) (words_m d') = [(''a'', 4), (''b'', 3)]) \<and>
   (\<exists>d s0 bytes d' s'.
      readFromFile_L (Dictionary_init_L label_args 0) label_stream = Some (d, s0) \<and>
      save_L d [] = Some bytes \<and>
      load_L (Dictionary_init_L label_args 0) (fresh_stream bytes) = Some (d', s') \<and>
      words_m d' = words_m d \<and> size_m d' = size_m d \<and> nwords_m d' = nwords_m d \<and>
      nlabels_m d' = nlabels_m d \<and> ntokens_m d' = ntokens_m d \<and>
      pdiscard_m d' = pdiscard_m d \<and> current_L d' \<and>
      map (\<lambda>e. (word e, count e, type e)) (words_m d')
        = [(''a'', 2, Word), (''b'', 1, Word), (''#x'', 2, Label)]) \<and>
   (\<exists>bytes d' s'. save sub_dict [] = Some bytes \<and>
      load (Dictionary_init (args_m sub_dict)) (fresh_stream bytes) = Some (d', s') \<and>
      words_m d' = words_m sub_dict \<and> pdiscard_m d' = [Fin (6 / 25), Fin (3 / 4)]) \<and>
   (\<exists>bytes d' s'. save_L label_dict [] = Some bytes \<and>
      load_L (Dictionary_init_L (args_m label_dict) 0) (fresh_stream bytes) = Some (d', s') \<and>
      words_m d' = words_m label_dict \<and> pdiscard_m d' = [Fin (6 / 25), Fin (3 / 4), Fin 2])"
proof -
  from scenario_built obtain d s0 where
    d: "readFromFile (Dictionary_init scenario_args) scenario_stream = Some (d, s0)"
    "map (\<lambda>e. (word e, count e)) (words_m d) = [(''a'', 4), (''b'', 3)]"
    by auto
  from label_built obtain dl sl where
    dl: "readFromFile_L (Dictionary_init_L label_args 0) label_stream = Some (dl, sl)"
    "map (\<lambda>e. (word e, count e, type e)) (words_m dl)
       = [(''a'', 2, Word), (''b'', 1, Word), (''#x'', 2, Label)]"
    by auto
  have l1: "length (content scenario_stream) < 9223372036854775808"
    by (simp add: scenario_stream_def)
  have l2: "length (content label_stream) < 9223372036854775808"
    by (simp add: label_stream_def)
  note t1 = save_load_roundtrip [where a = scenario_args and s = scenario_stream
      and db = d and sb = s0, THEN conjunct1]
  note t2 = save_load_roundtrip [where a = label_args and s = label_stream
      and dbl = dl and sbl = sl and sz = 0, THEN conjunct2, THEN conjunct1]
  from t1 d(1) l1 obtain b1 d1 s1 where a: "save d [] = Some b1"
    "load (Dictionary_init scenario_args) (fresh_stream b1) = Some (d1, s1)"
    "words_m d1 = words_m d" "nwords_m d1 = nwords_m d" "ntokens_m d1 = ntokens_m d"
    "pruneidx_size_m d1 = pruneidx_size_m d" "pruneidx_m d1 = pruneidx_m d"
    "pdiscard_m d1 = pdiscard_m d"
    by blast
  from t2 dl(1) l2 obtain b2 d2 s2 where b: "save_L dl [] = Some b2"
    "load_L (Dictionary_init_L label_args 0) (fresh_stream b2) = Some (d2, s2)"
    "words_m d2 = words_m dl" "size_m d2 = size_m dl" "nwords_m d2 = nwords_m dl"
    "nlabels_m d2 = nlabels_m dl" "ntokens_m d2 = ntokens_m dl"
    "pdiscard_m d2 = pdiscard_m dl"
    by blast
  from save_load_roundtrip [where s = "fresh_stream b1" and ?d0.0 = "Dictionary_init scenario_args"
      and dc = d1 and sc = s1] a(2)
  have c1: "current d1" by blast
  from save_load_roundtrip [where s = "fresh_stream b2"
      and dl0 = "Dictionary_init_L label_args 0" and dcl = d2 and scl = s2] b(2)
  have c2: "current_L d2" by blast
  from save_load_roundtrip [where d = sub_dict] sub_dict_storable
  obtain b3 d3 s3 where e: "save sub_dict [] = Some b3"
    "load (Dictionary_init (args_m sub_dict)) (fresh_stream b3) = Some (d3, s3)"
    "words_m d3 = words_m sub_dict" "pdiscard_m d3 = pdiscard_m sub_dict"
    by blast
  from save_load_roundtrip [where dl = label_dict and sz = 0] label_dict_storable
  obtain b4 d4 s4 where f: "save_L label_dict [] = Some b4"
    "load_L (Dictionary_init_L (args_m label_dict) 0) (fresh_stream b4) = Some (d4, s4)"
    "words_m d4 = words_m label_dict" "pdiscard_m d4 = pdiscard_m label_dict"
    by blast
  have "\<exists>d s0 bytes d' s'.
      readFromFile (Dictionary_init scenario_args) scenario_stream = Some (d, s0) \<and>
      save d [] = Some bytes \<and>
      load (Dictionary_init scenario_args) (fresh_stream bytes) = Some (d', s') \<and>
      words_m d' = words_m d \<and> nwords_m d' = nwords_m d \<and> ntokens_m d' = ntokens_m d \<and>
      pruneidx_size_m d' = pruneidx_size_m d \<and> pruneidx_m d' = pruneidx_m d \<and>
      pdiscard_m d' = pdiscard_m d \<and> current d' \<and>
      map (\<lambda>e. (word e, count e)) (words_m d') = [(''a'', 4), (''b'', 3)]"
    using d a c1
    by (intro exI [of _ d] exI [of _ s0] exI [of _ b1] exI [of _ d1] exI [of _ s1]) simp
  moreover have "\<exists>d s0 bytes d' s'.
      readFromFile_L (Dictionary_init_L label_args 0) label_stream = Some (d, s0) \<and>
      save_L d [] = Some bytes \<and>
      load_L (Dictionary_init_L label_args 0) (fresh_stream bytes) = Some (d', s') \<and>
      words_m d' = words_m d \<and> size_m d' = size_m d \<and> nwords_m d' = nwords_m d \<and>
      nlabels_m d' = nlabels_m d \<and> ntokens_m d' = ntokens_m d \<and>
      pdiscard_m d' = pdiscard_m d \<and> current_L d' \<and>
      map (\<lambda>e. (word e, count e, type e)) (words_m d')
        = [(''a'', 2, Word), (''b'', 1, Word), (''#x'', 2, Label)]"
    using dl b c2
    by (intro exI [of _ dl] exI [of _ sl] exI [of _ b2] exI [of _ d2] exI [of _ s2]) simp
  moreover have "\<exists>bytes d' s'. save sub_dict [] = Some bytes \<and>
      load (Dictionary_init (args_m sub_dict)) (fresh_stream bytes) = Some (d', s') \<and>
      words_m d' = words_m sub_dict \<and> pdiscard_m d' = [Fin (6 / 25), Fin (3 / 4)]"
    using e by (intro exI [of _ b3] exI [of _ d3] exI [of _ s3]) (simp add: sub_dict_def)
  moreover have "\<exists>bytes d' s'. save_L label_dict [] = Some bytes \<and>
      load_L (Dictionary_init_L (args_m label_dict) 0) (fresh_stream bytes) = Some (d', s') \<and>
      words_m d' = words_m label_dict \<and> pdiscard_m d' = [Fin (6 / 25), Fin (3 / 4), Fin 2]"
    using f by (intro exI [of _ b4] exI [of _ d4] exI [of _ s4]) (simp add: label_dict_def)
  ultimately show ?thesis by blast
qed


end
